(* ===== verification/Vpp_Prelude.thy ===== *)
theory Vpp_Prelude
  imports Main "HOL-Library.Word"
begin

text \<open>
  The vocabulary shared by every component theory: the fixed-width integer types of
  \<^verbatim>\<open>vppinfra/types.h\<close>, the bit-counting primitives of \<^verbatim>\<open>vppinfra/bitops.h\<close> and
  \<^verbatim>\<open>vppinfra/clib.h\<close>, \<open>vec_validate\<close> on vectors, the unspecified-index constants, and
  the generic lemmas on words and lists that the component proofs rest on.

  A \<open>clib\<close> vector is a list; an index into it is a \<open>nat\<close>. The build modelled is the
  64-bit one (\<open>uword_bits = 64\<close>).
\<close>

unbundle bit_operations_syntax

named_theorems bitmap_simps \<open>how each bitmap operation acts on single bits\<close>
named_theorems pool_simps \<open>how each pool operation acts on the set of active indices\<close>
named_theorems mtrie_simps \<open>projections of updated plies and tries\<close>

type_synonym u8 = "8 word"
type_synonym u16 = "16 word"
type_synonym u32 = "32 word"
type_synonym u64 = "64 word"
type_synonym uword = "64 word"

subsection \<open>Bit primitives\<close>

definition pow2_mask :: "nat \<Rightarrow> uword" where
  "pow2_mask x = push_bit x 1 - 1"

definition count_set_bits :: "uword \<Rightarrow> nat" where
  "count_set_bits x = length (filter (bit x) [0..<64])"

definition get_lowest_set_bit_index :: "uword \<Rightarrow> nat" where
  "get_lowest_set_bit_index x = length (takeWhile (\<lambda>i. \<not> bit x i) [0..<64])"

definition count_leading_zeros :: "uword \<Rightarrow> nat" where
  "count_leading_zeros x = length (takeWhile (\<lambda>i. \<not> bit x (63 - i)) [0..<64])"

definition min_log2 :: "uword \<Rightarrow> nat" where
  "min_log2 x = 64 - count_leading_zeros x - 1"

definition max_log2 :: "uword \<Rightarrow> nat" where
  "max_log2 x = (let l = min_log2 x in if push_bit l 1 < x then l + 1 else l)"

text \<open>\<open>vec_validate (V, I)\<close>: grow \<open>V\<close> with zeros until \<open>I\<close> is a valid index.\<close>

definition vec_validate :: "'a \<Rightarrow> 'a list \<Rightarrow> nat \<Rightarrow> 'a list" where
  "vec_validate z v i = v @ replicate (Suc i - length v) z"

subsection \<open>Lemmas on the bit primitives\<close>

lemma bit_pow2_mask [simp]: "bit (pow2_mask n) i \<longleftrightarrow> i < n \<and> i < 64"
proof -
  have "pow2_mask n = mask n"
    by (simp add: pow2_mask_def mask_eq_exp_minus_1 push_bit_of_1)
  then show ?thesis by (auto simp: bit_mask_iff)
qed

lemma bit_exp_minus_1 [simp]: "bit (2 ^ n - 1 :: uword) i \<longleftrightarrow> i < n \<and> i < 64"
  by (simp add: bit_mask_iff flip: mask_eq_exp_minus_1) auto

lemma bit_uword_bound: "bit (x :: uword) i \<Longrightarrow> i < 64"
  using bit_imp_le_length by fastforce

lemma uword_eq_iff: "x = (y :: uword) \<longleftrightarrow> (\<forall>i<64. bit x i = bit y i)"
  by (metis bit_uword_bound bit_eq_iff)

lemma uword_eq_0_iff: "x = (0 :: uword) \<longleftrightarrow> (\<forall>i<64. \<not> bit x i)"
  by (simp add: uword_eq_iff)

lemma uword_neq_0_iff: "x \<noteq> (0 :: uword) \<longleftrightarrow> (\<exists>i<64. bit x i)"
  by (simp add: uword_eq_0_iff)

lemma drop_bit_and_1_iff: "drop_bit i x AND 1 \<noteq> (0 :: uword) \<longleftrightarrow> bit x i"
  by (simp add: and_one_eq bit_iff_odd_drop_bit odd_iff_mod_2_eq_one)

lemma bit_push_bit_1 [simp]: "bit (push_bit n 1 :: uword) i \<longleftrightarrow> i = n \<and> n < 64"
  by (auto simp: bit_simps)

lemma takeWhile_upt_Least:
  assumes "\<exists>i<n. P i"
  shows "length (takeWhile (\<lambda>i. \<not> P i) [0..<n]) = (LEAST i. P i)"
proof (rule Least_equality [symmetric])
  let ?k = "length (takeWhile (\<lambda>i. \<not> P i) [0..<n])"
  have "?k < length [0..<n]"
    using assms by (metis atLeastLessThan_iff length_takeWhile_le linorder_not_le order.antisym
        set_upt takeWhile_eq_all_conv takeWhile_eq_take take_all zero_le)
  then show "P ?k"
    using nth_length_takeWhile [of "\<lambda>i. \<not> P i" "[0..<n]"] by simp
  show "?k \<le> y" if "P y" for y
  proof (rule ccontr)
    assume "\<not> ?k \<le> y"
    then have "y < ?k" by simp
    then have "[0..<n] ! y \<in> set (takeWhile (\<lambda>i. \<not> P i) [0..<n])"
      by (metis nth_mem takeWhile_nth)
    moreover have "[0..<n] ! y = y"
      using \<open>y < ?k\<close> \<open>?k < length [0..<n]\<close> by simp
    ultimately show False using that by (auto dest: set_takeWhileD)
  qed
qed

lemma lowest_set_bit:
  assumes "x \<noteq> 0"
  shows "get_lowest_set_bit_index x = (LEAST i. bit x i)"
  unfolding get_lowest_set_bit_index_def
  using assms by (intro takeWhile_upt_Least) (auto simp: uword_neq_0_iff)

lemma lowest_set_bit_is_set: "x \<noteq> 0 \<Longrightarrow> bit x (get_lowest_set_bit_index x)"
  using lowest_set_bit [of x] by (metis LeastI uword_neq_0_iff)

lemma lowest_set_bit_least: "x \<noteq> 0 \<Longrightarrow> bit x i \<Longrightarrow> get_lowest_set_bit_index x \<le> i"
  by (simp add: lowest_set_bit Least_le)

lemma lowest_set_bit_bound: "x \<noteq> 0 \<Longrightarrow> get_lowest_set_bit_index x < 64"
  using bit_uword_bound lowest_set_bit_is_set by blast

lemma count_set_bits_card: "count_set_bits x = card {i. bit x i}"
proof -
  have "set (filter (bit x) [0..<64]) = {i. bit x i}"
    by (auto dest: bit_uword_bound)
  then show ?thesis
    by (metis count_set_bits_def distinct_card distinct_filter distinct_upt)
qed

lemma finite_bits_uword [simp]: "finite {i. bit (x :: uword) i}"
  by (rule finite_subset [of _ "{..<64}"]) (auto dest: bit_uword_bound)

lemma highest_set_bit:
  assumes "x \<noteq> 0"
  shows "count_leading_zeros x < 64" "bit x (63 - count_leading_zeros x)"
    "bit x i \<Longrightarrow> i \<le> 63 - count_leading_zeros x"
proof -
  obtain j where j: "j < 64" "bit x j" using assms by (auto simp: uword_neq_0_iff)
  have ex: "\<exists>i<64. bit x (63 - i)"
    using j by (intro exI [of _ "63 - j"]) auto
  have eq: "count_leading_zeros x = (LEAST i. bit x (63 - i))"
    unfolding count_leading_zeros_def by (rule takeWhile_upt_Least [OF ex])
  then show b: "bit x (63 - count_leading_zeros x)"
    using ex by (metis LeastI)
  show lt: "count_leading_zeros x < 64"
    using eq ex by (metis LeastI_ex Least_le order.strict_trans1)
  show "i \<le> 63 - count_leading_zeros x" if "bit x i"
  proof -
    have "i < 64" using that by (rule bit_uword_bound)
    then have "count_leading_zeros x \<le> 63 - i"
      unfolding eq using that by (intro Least_le) auto
    then show ?thesis using \<open>i < 64\<close> by linarith
  qed
qed

lemma max_log2_range:
  assumes "x \<noteq> 0"
  shows "unat x \<le> 2 ^ max_log2 x" and "max_log2 x \<le> 64"
proof -
  let ?l = "min_log2 x"
  have l: "?l = 63 - count_leading_zeros x" "?l < 64"
    using highest_set_bit [OF assms] by (auto simp: min_log2_def)
  have "x = take_bit (Suc ?l) x"
    using highest_set_bit(3) [OF assms] l
    by (intro bit_eqI) (auto simp: bit_simps less_Suc_eq_le)
  then have "unat x = take_bit (Suc ?l) (unat x)"
    by (metis unsigned_take_bit_eq)
  then have lt: "unat x < 2 ^ Suc ?l"
    by (metis take_bit_nat_less_exp)
  have p: "unat (push_bit ?l 1 :: uword) = 2 ^ ?l"
    using l unsigned_push_bit_eq [of ?l "1 :: uword", where ?'a = nat]
    by (simp add: push_bit_nat_eq take_bit_nat_eq_self)
  show "unat x \<le> 2 ^ max_log2 x"
    using lt p by (auto simp: max_log2_def Let_def word_less_nat_alt)
  show "max_log2 x \<le> 64"
    using l by (auto simp: max_log2_def Let_def)
qed

lemma max_log2_least:
  assumes "x \<noteq> 0" "unat x \<le> 2 ^ k" shows "max_log2 x \<le> k"
proof -
  let ?l = "min_log2 x"
  have l: "bit x ?l" "?l < 64" using highest_set_bit [OF assms(1)] by (auto simp: min_log2_def)
  then have "bit (unat x) ?l" by (simp add: bit_unsigned_iff)
  then have le: "2 ^ ?l \<le> unat x"
    by (metis bit_take_bit_iff less_irrefl not_le take_bit_nat_eq_self)
  have p: "unat (push_bit ?l 1 :: uword) = 2 ^ ?l"
    using l unsigned_push_bit_eq [of ?l "1 :: uword", where ?'a = nat]
    by (simp add: push_bit_nat_eq take_bit_nat_eq_self)
  show ?thesis
  proof (cases "push_bit ?l 1 < x")
    case True
    then have "2 ^ ?l < unat x" unfolding word_less_nat_alt p .
    then have "(2 :: nat) ^ ?l < 2 ^ k" using assms(2) by (rule less_le_trans)
    then have "?l < k" by simp
    then show ?thesis using True by (simp add: max_log2_def)
  next
    case False
    have "(2 :: nat) ^ ?l \<le> 2 ^ k" using le assms(2) by linarith
    then show ?thesis using False by (simp add: max_log2_def)
  qed
qed

subsection \<open>Lemmas on lists\<close>

lemma length_vec_validate [simp]: "length (vec_validate z v i) = max (length v) (Suc i)"
  by (auto simp: vec_validate_def)

lemma nth_vec_validate:
  "k < max (length v) (Suc i) \<Longrightarrow> vec_validate z v i ! k = (if k < length v then v ! k else z)"
  by (auto simp: vec_validate_def nth_append)

lemma vec_validate_id: "i < length v \<Longrightarrow> vec_validate z v i = v"
  by (simp add: vec_validate_def)

lemma last_update_last: "length v = Suc n \<Longrightarrow> last (v[n := x]) = x"
  by (cases v rule: rev_cases) auto

end
