(* ===== verification/Bitmap.thy ===== *)
theory Bitmap
  imports Vpp_Prelude
begin

text \<open>
  The bitmaps of \<^verbatim>\<open>vppinfra/bitmap.h\<close>: vectors of 64-bit words with implied trailing
  zeros. The definitions follow the file's order. The sentinel \<open>~0\<close> of the search
  functions is \<open>None\<close> (no bitmap that fits in memory has a bit at that position); a
  read past the end of a vector, which C leaves undefined, is \<open>None\<close> as well.

  The lemmas describe every operation by the bits it leaves set (\<open>clib_bitmap_get\<close>),
  and show that the trimming operations keep the last word non-zero, so that two
  trimmed bitmaps are equal words for words exactly when they hold the same bits.
\<close>

unbundle bit_operations_syntax

type_synonym clib_bitmap_t = "uword list"

subsection \<open>Operations\<close>

definition clib_bitmap_is_zero :: "clib_bitmap_t \<Rightarrow> bool" where
  "clib_bitmap_is_zero ai = list_all (\<lambda>x. x = 0) ai"

definition clib_bitmap_is_equal :: "clib_bitmap_t \<Rightarrow> clib_bitmap_t \<Rightarrow> bool" where
  "clib_bitmap_is_equal a b =
     (if length a \<noteq> length b then False
      else list_all (\<lambda>i. a ! i = b ! i) [0..<length a])"

definition clib_bitmap_bytes :: "clib_bitmap_t \<Rightarrow> nat" where
  "clib_bitmap_bytes v = 8 * length v"

definition clib_bitmap_zero :: "clib_bitmap_t \<Rightarrow> clib_bitmap_t" where
  "clib_bitmap_zero v = map (\<lambda>_. 0) v"

definition clib_bitmap_alloc :: "nat \<Rightarrow> clib_bitmap_t" where
  "clib_bitmap_alloc n_bits = replicate ((n_bits + 64 - 1) div 64) 0"

definition clib_bitmap_vec_validate :: "clib_bitmap_t \<Rightarrow> nat \<Rightarrow> clib_bitmap_t" where
  "clib_bitmap_vec_validate v i = vec_validate 0 v i"

definition clib_bitmap_validate :: "clib_bitmap_t \<Rightarrow> nat \<Rightarrow> clib_bitmap_t" where
  "clib_bitmap_validate v n_bits = clib_bitmap_vec_validate v ((n_bits - 1) div 64)"

text \<open>
  \<open>vec_copy (DST, SRC)\<close> copies \<open>vec_len (DST)\<close> elements out of \<open>SRC\<close>: when the destination
  is the longer vector that reads beyond the source.
\<close>

definition vec_copy :: "'a list \<Rightarrow> 'a list \<Rightarrow> 'a list option" where
  "vec_copy dst src = (if length dst \<le> length src then Some (take (length dst) src) else None)"

definition clib_bitmap_copy :: "clib_bitmap_t \<Rightarrow> clib_bitmap_t \<Rightarrow> clib_bitmap_t option" where
  "clib_bitmap_copy dst src =
     (if length src \<noteq> 0
      then vec_copy (clib_bitmap_vec_validate dst (length src - 1)) src
      else Some [])"

definition remove_trailing_zeros :: "clib_bitmap_t \<Rightarrow> clib_bitmap_t" where
  "remove_trailing_zeros a = rev (dropWhile (\<lambda>x. x = 0) (rev a))"

text \<open>Clear bit \<open>i1\<close> of a word, then or in the new value there.\<close>

definition put_bit :: "uword \<Rightarrow> nat \<Rightarrow> bool \<Rightarrow> uword" where
  "put_bit a i1 b = (a AND NOT (push_bit i1 1)) OR push_bit i1 (of_bool b)"

definition clib_bitmap_set_no_check :: "clib_bitmap_t \<Rightarrow> nat \<Rightarrow> bool \<Rightarrow> bool \<times> clib_bitmap_t" where
  "clib_bitmap_set_no_check a i new_value =
     (let i0 = i div 64; i1 = i mod 64; ai = a ! i0;
          old_value = (ai AND push_bit i1 1 \<noteq> 0)
      in (old_value, a[i0 := put_bit ai i1 new_value]))"

definition clib_bitmap_set :: "clib_bitmap_t \<Rightarrow> nat \<Rightarrow> bool \<Rightarrow> clib_bitmap_t" where
  "clib_bitmap_set ai i value =
     (let i0 = i div 64; i1 = i mod 64 in
      if \<not> value \<and> length ai \<le> i0 then ai
      else let ai = clib_bitmap_vec_validate ai i0;
               a = put_bit (ai ! i0) i1 value;
               ai = ai[i0 := a]
           in if a = 0 then remove_trailing_zeros ai else ai)"

definition clib_bitmap_get :: "clib_bitmap_t \<Rightarrow> nat \<Rightarrow> bool" where
  "clib_bitmap_get ai i =
     (let i0 = i div 64; i1 = i mod 64
      in i0 < length ai \<and> drop_bit i1 (ai ! i0) AND 1 \<noteq> 0)"

definition clib_bitmap_get_no_check :: "clib_bitmap_t \<Rightarrow> nat \<Rightarrow> bool" where
  "clib_bitmap_get_no_check ai i =
     (let i0 = i div 64; i1 = i mod 64 in drop_bit i1 (ai ! i0) AND 1 \<noteq> 0)"

definition clib_bitmap_get_multiple_no_check :: "clib_bitmap_t \<Rightarrow> nat \<Rightarrow> nat \<Rightarrow> uword" where
  "clib_bitmap_get_multiple_no_check ai i n_bits =
     (let i0 = i div 64; i1 = i mod 64 in drop_bit i1 (ai ! i0) AND pow2_mask n_bits)"

definition clib_bitmap_get_multiple :: "clib_bitmap_t \<Rightarrow> nat \<Rightarrow> nat \<Rightarrow> uword" where
  "clib_bitmap_get_multiple bitmap i n_bits =
     (let l = length bitmap; i0 = i div 64; i1 = i mod 64;
          result =
            (if i0 < l
             then (if n_bits < 64 then drop_bit i1 (bitmap ! i0) AND (push_bit n_bits 1 - 1)
                   else drop_bit i1 (bitmap ! i0))
             else 0);
          i0 = i0 + 1
      in if 64 < i1 + n_bits \<and> i0 < l
         then let n_bits = n_bits - (64 - i1)
              in result OR push_bit (64 - i1) (bitmap ! i0 AND (push_bit n_bits 1 - 1))
         else result)"

definition clib_bitmap_set_multiple :: "clib_bitmap_t \<Rightarrow> nat \<Rightarrow> uword \<Rightarrow> nat \<Rightarrow> clib_bitmap_t" where
  "clib_bitmap_set_multiple bitmap i value n_bits =
     (let i0 = i div 64; i1 = i mod 64;
          bitmap = clib_bitmap_vec_validate bitmap ((i + n_bits - 1) div 64);
          l = length bitmap;
          m = (if n_bits < 64 then push_bit n_bits 1 - 1 else NOT 0);
          value = value AND m;
          bitmap = bitmap[i0 := (bitmap ! i0 AND NOT (push_bit i1 m)) OR push_bit i1 value];
          i0 = i0 + 1
      in if 64 < i1 + n_bits \<and> i0 < l
         then let t = 64 - i1;
                  value = drop_bit t value;
                  n_bits = n_bits - t;
                  m = push_bit n_bits 1 - 1
              in bitmap[i0 := (bitmap ! i0 AND NOT m) OR value]
         else bitmap)"

text \<open>The interior words of a region, \<open>a0 .. b0 - 1\<close>, are overwritten; \<open>a0\<close> ends at \<open>max a0 b0\<close>.\<close>

definition set_words :: "clib_bitmap_t \<Rightarrow> nat \<Rightarrow> nat \<Rightarrow> uword \<Rightarrow> clib_bitmap_t" where
  "set_words bitmap a0 b0 w = fold (\<lambda>a bm. bm[a := w]) [a0..<b0] bitmap"

definition clib_bitmap_set_region :: "clib_bitmap_t \<Rightarrow> nat \<Rightarrow> bool \<Rightarrow> nat \<Rightarrow> clib_bitmap_t" where
  "clib_bitmap_set_region bitmap i value n_bits =
     (let a0 = i div 64; a1 = i mod 64;
          i_end = i + n_bits - 1;
          b0 = i_end div 64; b1 = i_end mod 64;
          bitmap = clib_bitmap_vec_validate bitmap b0;
          mask = push_bit a1 (if n_bits < 64 then pow2_mask n_bits else NOT 0);
          bitmap = bitmap[a0 := (if value then bitmap ! a0 OR mask else bitmap ! a0 AND NOT mask)];
          bitmap = set_words bitmap (a0 + 1) b0 (if value then NOT 0 else 0);
          a0 = max (a0 + 1) b0
      in if a0 = b0
         then let mask = drop_bit (64 - b1 - 1) (NOT 0)
              in bitmap[a0 := (if value then bitmap ! a0 OR mask else bitmap ! a0 AND NOT mask)]
         else bitmap)"

text \<open>
  The AVX2 build skips eight zero words at a time before the word-by-word scan.
\<close>

function first_set_skip8 :: "clib_bitmap_t \<Rightarrow> nat \<Rightarrow> nat" where
  "first_set_skip8 ai i =
     (if i + 7 < length ai \<and> list_all (\<lambda>k. ai ! (i + k) = 0) [0..<8]
      then first_set_skip8 ai (i + 8) else i)"
  by pat_completeness auto
termination
  by (relation "measure (\<lambda>(ai, i). length ai - i)") auto

declare first_set_skip8.simps [simp del]

function first_set_scan :: "clib_bitmap_t \<Rightarrow> nat \<Rightarrow> nat option" where
  "first_set_scan ai i =
     (if i < length ai
      then if ai ! i \<noteq> 0 then Some (i * 64 + get_lowest_set_bit_index (ai ! i))
           else first_set_scan ai (i + 1)
      else None)"
  by pat_completeness auto
termination
  by (relation "measure (\<lambda>(ai, i). length ai - i)") auto

declare first_set_scan.simps [simp del]

definition clib_bitmap_first_set :: "clib_bitmap_t \<Rightarrow> nat option" where
  "clib_bitmap_first_set ai = first_set_scan ai (first_set_skip8 ai 0)"

fun last_set_scan :: "clib_bitmap_t \<Rightarrow> nat \<Rightarrow> nat option" where
  "last_set_scan ai 0 = None"
| "last_set_scan ai (Suc i) =
     (if ai ! i \<noteq> 0 then Some (Suc i * 64 - count_leading_zeros (ai ! i) - 1)
      else last_set_scan ai i)"

definition clib_bitmap_last_set :: "clib_bitmap_t \<Rightarrow> nat option" where
  "clib_bitmap_last_set ai = last_set_scan ai (length ai)"

function first_clear_scan :: "clib_bitmap_t \<Rightarrow> nat \<Rightarrow> nat" where
  "first_clear_scan ai i =
     (if i < length ai
      then if NOT (ai ! i) \<noteq> 0 then i * 64 + get_lowest_set_bit_index (NOT (ai ! i))
           else first_clear_scan ai (i + 1)
      else i * 64)"
  by pat_completeness auto
termination
  by (relation "measure (\<lambda>(ai, i). length ai - i)") auto

declare first_clear_scan.simps [simp del]

definition clib_bitmap_first_clear :: "clib_bitmap_t \<Rightarrow> nat" where
  "clib_bitmap_first_clear ai = first_clear_scan ai 0"

definition clib_bitmap_count_set_bits :: "clib_bitmap_t \<Rightarrow> nat" where
  "clib_bitmap_count_set_bits ai = fold (\<lambda>a n_set. n_set + count_set_bits a) ai 0"

text \<open>The two ALU macros: two bitmaps, and a bitmap with one bit position.\<close>

definition n_trailing_zeros :: "clib_bitmap_t \<Rightarrow> nat" where
  "n_trailing_zeros ai = fold (\<lambda>a n. if a \<noteq> 0 then 0 else n + 1) ai 0"

definition bitmap_alu ::
  "(uword \<Rightarrow> uword \<Rightarrow> uword) \<Rightarrow> bool \<Rightarrow> clib_bitmap_t \<Rightarrow> clib_bitmap_t \<Rightarrow> clib_bitmap_t" where
  "bitmap_alu body check_zero ai bi =
     (let bi_len = length bi;
          ai = (if 0 < bi_len then clib_bitmap_vec_validate ai (bi_len - 1) else ai);
          ai = map (\<lambda>i. body (ai ! i) (if i < bi_len then bi ! i else 0)) [0..<length ai]
      in if check_zero then take (length ai - n_trailing_zeros ai) ai else ai)"

definition clib_bitmap_and :: "clib_bitmap_t \<Rightarrow> clib_bitmap_t \<Rightarrow> clib_bitmap_t" where
  "clib_bitmap_and = bitmap_alu (\<lambda>a b. a AND b) True"

definition clib_bitmap_andnot :: "clib_bitmap_t \<Rightarrow> clib_bitmap_t \<Rightarrow> clib_bitmap_t" where
  "clib_bitmap_andnot = bitmap_alu (\<lambda>a b. a AND NOT b) True"

definition clib_bitmap_or :: "clib_bitmap_t \<Rightarrow> clib_bitmap_t \<Rightarrow> clib_bitmap_t" where
  "clib_bitmap_or = bitmap_alu (\<lambda>a b. a OR b) False"

definition clib_bitmap_xor :: "clib_bitmap_t \<Rightarrow> clib_bitmap_t \<Rightarrow> clib_bitmap_t" where
  "clib_bitmap_xor = bitmap_alu (\<lambda>a b. a XOR b) True"

definition bitmap_alui ::
  "(uword \<Rightarrow> uword \<Rightarrow> uword) \<Rightarrow> bool \<Rightarrow> clib_bitmap_t \<Rightarrow> nat \<Rightarrow> clib_bitmap_t" where
  "bitmap_alui body check_zero ai i =
     (let i0 = i div 64; i1 = i mod 64;
          ai = clib_bitmap_vec_validate ai i0;
          a = body (ai ! i0) (push_bit i1 1);
          ai = ai[i0 := a]
      in if check_zero \<and> a = 0 then remove_trailing_zeros ai else ai)"

definition clib_bitmap_andi :: "clib_bitmap_t \<Rightarrow> nat \<Rightarrow> clib_bitmap_t" where
  "clib_bitmap_andi = bitmap_alui (\<lambda>a b. a AND b) True"

definition clib_bitmap_andnoti :: "clib_bitmap_t \<Rightarrow> nat \<Rightarrow> clib_bitmap_t" where
  "clib_bitmap_andnoti = bitmap_alui (\<lambda>a b. a AND NOT b) True"

definition clib_bitmap_ori :: "clib_bitmap_t \<Rightarrow> nat \<Rightarrow> clib_bitmap_t" where
  "clib_bitmap_ori = bitmap_alui (\<lambda>a b. a OR b) False"

definition clib_bitmap_xori :: "clib_bitmap_t \<Rightarrow> nat \<Rightarrow> clib_bitmap_t" where
  "clib_bitmap_xori = bitmap_alui (\<lambda>a b. a XOR b) True"

definition bitmap_alui_notrim ::
  "(uword \<Rightarrow> uword \<Rightarrow> uword) \<Rightarrow> clib_bitmap_t \<Rightarrow> nat \<Rightarrow> clib_bitmap_t" where
  "bitmap_alui_notrim body ai i =
     (let i0 = i div 64; i1 = i mod 64;
          ai = clib_bitmap_vec_validate ai i0
      in ai[i0 := body (ai ! i0) (push_bit i1 1)])"

definition clib_bitmap_andnoti_notrim :: "clib_bitmap_t \<Rightarrow> nat \<Rightarrow> clib_bitmap_t" where
  "clib_bitmap_andnoti_notrim = bitmap_alui_notrim (\<lambda>a b. a AND NOT b)"

definition clib_bitmap_ori_notrim :: "clib_bitmap_t \<Rightarrow> nat \<Rightarrow> clib_bitmap_t" where
  "clib_bitmap_ori_notrim = bitmap_alui_notrim (\<lambda>a b. a OR b)"

definition clib_bitmap_next_set :: "clib_bitmap_t \<Rightarrow> nat \<Rightarrow> nat option" where
  "clib_bitmap_next_set ai i =
     (let i0 = i div 64; i1 = i mod 64 in
      if i0 < length ai
      then let t = push_bit i1 (drop_bit i1 (ai ! i0))
           in if t \<noteq> 0 then Some (get_lowest_set_bit_index t + i0 * 64)
              else first_set_scan ai (i0 + 1)
      else None)"

definition clib_bitmap_next_clear :: "clib_bitmap_t \<Rightarrow> nat \<Rightarrow> nat" where
  "clib_bitmap_next_clear ai i =
     (let i0 = i div 64; i1 = i mod 64 in
      if i0 < length ai
      then let t = push_bit i1 (drop_bit i1 (NOT (ai ! i0)))
           in if t \<noteq> 0 then get_lowest_set_bit_index t + i0 * 64
              else first_clear_scan ai (i0 + 1)
      else i)"

subsection \<open>Words with implied trailing zeros\<close>

definition word_at :: "clib_bitmap_t \<Rightarrow> nat \<Rightarrow> uword" where
  "word_at a k = (if k < length a then a ! k else 0)"

lemma get_word_at: "clib_bitmap_get a i \<longleftrightarrow> bit (word_at a (i div 64)) (i mod 64)"
  by (simp add: clib_bitmap_get_def Let_def word_at_def drop_bit_and_1_iff)

lemma word_at_beyond: "length a \<le> k \<Longrightarrow> word_at a k = 0"
  by (simp add: word_at_def)

lemma nth_word_at: "k < length a \<Longrightarrow> a ! k = word_at a k"
  by (simp add: word_at_def)

lemma word_at_validate [simp]: "word_at (clib_bitmap_vec_validate a n) k = word_at a k"
  by (auto simp: word_at_def clib_bitmap_vec_validate_def nth_vec_validate)

lemma length_validate [simp]: "length (clib_bitmap_vec_validate a n) = max (length a) (Suc n)"
  by (simp add: clib_bitmap_vec_validate_def)

lemma word_at_update:
  "word_at (a[n := x]) k = (if k = n \<and> n < length a then x else word_at a k)"
  by (auto simp: word_at_def)

lemma trailing_split:
  "\<exists>n. a = remove_trailing_zeros a @ replicate n 0"
proof -
  have "rev a = takeWhile (\<lambda>x. x = 0) (rev a) @ dropWhile (\<lambda>x. x = 0) (rev a)" by simp
  then have "a = rev (dropWhile (\<lambda>x. x = 0) (rev a)) @ rev (takeWhile (\<lambda>x. x = 0) (rev a))"
    by (metis rev_append rev_rev_ident)
  moreover have "rev (takeWhile (\<lambda>x. x = 0) (rev a))
      = replicate (length (takeWhile (\<lambda>x. x = 0) (rev a))) 0"
    by (intro replicate_eqI) (auto dest: set_takeWhileD)
  ultimately show ?thesis unfolding remove_trailing_zeros_def by metis
qed

lemma word_at_append_zeros: "word_at (a @ replicate n 0) k = word_at a k"
  by (auto simp: word_at_def nth_append)

lemma word_at_trim [simp]: "word_at (remove_trailing_zeros a) k = word_at a k"
  by (metis trailing_split word_at_append_zeros)

lemma bit_put_bit: "i1 < 64 \<Longrightarrow> bit (put_bit a i1 b) j \<longleftrightarrow> (if j = i1 then b else bit a j)"
  by (auto simp: put_bit_def bit_simps dest: bit_uword_bound)

lemma div_mod_64_eq: "(i :: nat) = j \<longleftrightarrow> i div 64 = j div 64 \<and> i mod 64 = j mod 64"
  by (metis div_mult_mod_eq)

subsection \<open>The bits each operation leaves set\<close>

lemma get_set [bitmap_simps]:
  "clib_bitmap_get (clib_bitmap_set a i v) j \<longleftrightarrow> (if j = i then v else clib_bitmap_get a j)"
proof (cases "\<not> v \<and> length a \<le> i div 64")
  case True
  then show ?thesis
    by (auto simp: clib_bitmap_set_def get_word_at word_at_beyond)
next
  case False
  let ?a = "clib_bitmap_vec_validate a (i div 64)"
  let ?x = "put_bit (?a ! (i div 64)) (i mod 64) v"
  have "word_at (clib_bitmap_set a i v) k = word_at (?a[i div 64 := ?x]) k" for k
    using False by (auto simp: clib_bitmap_set_def Let_def)
  moreover have "?a ! (i div 64) = word_at a (i div 64)"
    by (simp add: nth_word_at)
  ultimately show ?thesis
    by (auto simp: get_word_at word_at_update bit_put_bit div_mod_64_eq [of j i])
qed

lemma get_set_no_check [bitmap_simps]:
  assumes "i div 64 < length a"
  shows "clib_bitmap_get (snd (clib_bitmap_set_no_check a i v)) j
         \<longleftrightarrow> (if j = i then v else clib_bitmap_get a j)"
  using assms
  by (auto simp: clib_bitmap_set_no_check_def Let_def get_word_at word_at_update bit_put_bit
      div_mod_64_eq [of j i] nth_word_at)

lemma length_set_no_check [simp]:
  "length (snd (clib_bitmap_set_no_check a i v)) = length a"
  by (simp add: clib_bitmap_set_no_check_def Let_def)

lemma set_no_check_old:
  assumes "i div 64 < length a"
  shows "fst (clib_bitmap_set_no_check a i v) = clib_bitmap_get a i"
proof -
  have "x AND push_bit n 1 \<noteq> 0 \<longleftrightarrow> bit x n" if "n < 64" for x :: uword and n
    using that by (auto simp: uword_neq_0_iff bit_simps)
  then show ?thesis
    using assms by (simp add: clib_bitmap_set_no_check_def Let_def get_word_at nth_word_at)
qed

lemma get_no_check:
  "i div 64 < length a \<Longrightarrow> clib_bitmap_get_no_check a i = clib_bitmap_get a i"
  by (simp add: clib_bitmap_get_no_check_def clib_bitmap_get_def Let_def)

lemma get_zero [bitmap_simps]: "\<not> clib_bitmap_get (clib_bitmap_zero a) i"
  by (auto simp: get_word_at word_at_def clib_bitmap_zero_def)

lemma get_alloc [bitmap_simps]: "\<not> clib_bitmap_get (clib_bitmap_alloc n) i"
  by (auto simp: get_word_at word_at_def clib_bitmap_alloc_def)

lemma get_validate [bitmap_simps]: "clib_bitmap_get (clib_bitmap_validate a n) i = clib_bitmap_get a i"
  by (simp add: get_word_at clib_bitmap_validate_def)

lemma is_zero_iff: "clib_bitmap_is_zero a \<longleftrightarrow> (\<forall>i. \<not> clib_bitmap_get a i)"
proof
  assume "clib_bitmap_is_zero a"
  then show "\<forall>i. \<not> clib_bitmap_get a i"
    by (auto simp: clib_bitmap_is_zero_def list_all_length get_word_at word_at_def)
next
  assume none: "\<forall>i. \<not> clib_bitmap_get a i"
  have "a ! k = 0" if "k < length a" for k
  proof -
    have "\<not> bit (a ! k) j" if "j < 64" for j
      using none \<open>k < length a\<close> that
      by (auto simp: get_word_at word_at_def dest!: spec [of _ "k * 64 + j"])
    then show ?thesis by (simp add: uword_eq_0_iff)
  qed
  then show "clib_bitmap_is_zero a"
    by (auto simp: clib_bitmap_is_zero_def list_all_iff in_set_conv_nth)
qed

lemma word_at_eqI:
  assumes "\<And>i. clib_bitmap_get a i = clib_bitmap_get b i"
  shows "word_at a k = word_at b k"
proof -
  have "bit (word_at a k) j = bit (word_at b k) j" if "j < 64" for j
    using assms [of "k * 64 + j"] that by (simp add: get_word_at)
  then show ?thesis by (simp add: uword_eq_iff)
qed

subsection \<open>Trimmed bitmaps are canonical\<close>

definition bitmap_trimmed :: "clib_bitmap_t \<Rightarrow> bool" where
  "bitmap_trimmed a \<longleftrightarrow> a = [] \<or> last a \<noteq> 0"

lemma trimmed_remove_trailing_zeros [simp]: "bitmap_trimmed (remove_trailing_zeros a)"
  by (metis (mono_tags, lifting) bitmap_trimmed_def hd_dropWhile last_rev
      remove_trailing_zeros_def rev_is_Nil_conv)

lemma trimmed_length_le:
  assumes "bitmap_trimmed a" and "\<And>k. word_at a k = word_at b k"
  shows "length a \<le> length b"
proof (rule ccontr)
  assume "\<not> length a \<le> length b"
  then have lt: "length b < length a" by simp
  then have "a \<noteq> []" by auto
  with assms(1) have "word_at a (length a - 1) \<noteq> 0"
    by (simp add: bitmap_trimmed_def word_at_def last_conv_nth)
  with assms(2) have "word_at b (length a - 1) \<noteq> 0" by simp
  with lt show False by (simp add: word_at_def split: if_splits)
qed

lemma trimmed_canonical:
  assumes "bitmap_trimmed a" "bitmap_trimmed b"
    and "\<And>i. clib_bitmap_get a i = clib_bitmap_get b i"
  shows "a = b"
proof (rule nth_equalityI)
  have w: "word_at a k = word_at b k" for k using assms(3) by (rule word_at_eqI)
  show l: "length a = length b"
    using trimmed_length_le [OF assms(1), of b] trimmed_length_le [OF assms(2), of a] w
    by (simp add: le_antisym)
  show "a ! k = b ! k" if "k < length a" for k
    using w [of k] that l by (simp add: word_at_def)
qed

lemma is_equal_iff: "clib_bitmap_is_equal a b \<longleftrightarrow> a = b"
  by (auto simp: clib_bitmap_is_equal_def list_all_iff intro: nth_equalityI)

lemma trimmed_set: "bitmap_trimmed a \<Longrightarrow> bitmap_trimmed (clib_bitmap_set a i v)"
proof -
  assume a: "bitmap_trimmed a"
  let ?n = "i div 64"
  let ?a = "clib_bitmap_vec_validate a ?n"
  have "bitmap_trimmed (?a[?n := x])" if "x \<noteq> 0" for x
  proof (cases "length a \<le> Suc ?n")
    case True
    then have "length ?a = Suc ?n" by simp
    then have "last (?a[?n := x]) = x" by (rule last_update_last)
    with that show ?thesis by (simp add: bitmap_trimmed_def)
  next
    case False
    then have "?a = a" by (simp add: clib_bitmap_vec_validate_def vec_validate_id)
    moreover have "last (a[?n := x]) = last a"
      using False by (subst last_list_update) auto
    ultimately show ?thesis
      using a False by (auto simp: bitmap_trimmed_def)
  qed
  with a show ?thesis by (auto simp: clib_bitmap_set_def Let_def)
qed

subsection \<open>Searching\<close>

text \<open>\<open>least_from P lo j\<close>: \<open>j\<close> is the least number from \<open>lo\<close> on that satisfies \<open>P\<close>.\<close>

definition least_from :: "(nat \<Rightarrow> bool) \<Rightarrow> nat \<Rightarrow> nat \<Rightarrow> bool" where
  "least_from P lo j \<longleftrightarrow> P j \<and> lo \<le> j \<and> (\<forall>k. P k \<longrightarrow> lo \<le> k \<longrightarrow> j \<le> k)"

lemma least_from_unique: "least_from P lo j \<Longrightarrow> least_from P lo k \<Longrightarrow> j = k"
  by (meson le_antisym least_from_def)

lemma word_lowest_bit:
  assumes "w \<noteq> 0" and "\<And>k. n * 64 \<le> k \<Longrightarrow> k < n * 64 + 64 \<Longrightarrow> P k \<longleftrightarrow> bit w (k mod 64)"
  shows "least_from P (n * 64) (n * 64 + get_lowest_set_bit_index w)"
proof -
  let ?l = "get_lowest_set_bit_index w"
  have l: "?l < 64" "bit w ?l"
    using assms(1) by (auto intro: lowest_set_bit_bound lowest_set_bit_is_set)
  have "n * 64 + ?l \<le> k" if "P k" "n * 64 \<le> k" for k
  proof (cases "k < n * 64 + 64")
    case True
    with that assms(2) have "bit w (k mod 64)" by blast
    then have "?l \<le> k mod 64" using assms(1) by (rule lowest_set_bit_least [rotated])
    moreover have "k mod 64 = k - n * 64" using True that(2) by (simp add: mod_nat_eqI)
    ultimately show ?thesis using that(2) by linarith
  next
    case False
    with l show ?thesis by linarith
  qed
  moreover have "P (n * 64 + ?l)" using assms(2) [of "n * 64 + ?l"] l by simp
  ultimately show ?thesis by (simp add: least_from_def)
qed

lemma get_in_word:
  assumes "n * 64 \<le> k" "k < n * 64 + 64"
  shows "clib_bitmap_get a k \<longleftrightarrow> bit (word_at a n) (k mod 64)"
proof -
  have "k div 64 = n" using assms by linarith
  then show ?thesis by (simp add: get_word_at)
qed

lemma least_from_skip:
  assumes "\<And>k. n * 64 \<le> k \<Longrightarrow> k < n * 64 + 64 \<Longrightarrow> \<not> P k"
  shows "least_from P (n * 64) j \<longleftrightarrow> least_from P ((n + 1) * 64) j"
proof -
  have "n * 64 \<le> k \<longleftrightarrow> (n + 1) * 64 \<le> k" if "P k" for k
  proof -
    have "\<not> (n * 64 \<le> k \<and> k < n * 64 + 64)" using assms that by blast
    then show ?thesis by auto
  qed
  then show ?thesis by (auto simp: least_from_def)
qed

lemma first_set_scan_Some:
  "first_set_scan a i = Some j \<Longrightarrow> least_from (clib_bitmap_get a) (i * 64) j"
proof (induction a i rule: first_set_scan.induct)
  case (1 a i)
  show ?case
  proof (cases "a ! i = 0")
    case True
    with "1.prems" have lt: "i < length a" and r: "first_set_scan a (i + 1) = Some j"
      by (auto simp: first_set_scan.simps [of a i] split: if_splits)
    with True have "word_at a i = 0" by (simp add: word_at_def)
    then have "\<not> clib_bitmap_get a k" if "i * 64 \<le> k" "k < i * 64 + 64" for k
      using get_in_word [OF that] by simp
    then show ?thesis using "1.IH" [OF lt] True r by (subst least_from_skip) auto
  next
    case False
    with "1.prems" have "i < length a" "j = i * 64 + get_lowest_set_bit_index (word_at a i)"
      by (auto simp: first_set_scan.simps [of a i] word_at_def split: if_splits)
    with False show ?thesis
      using word_lowest_bit [of "word_at a i" i "clib_bitmap_get a"] get_in_word
      by (simp add: word_at_def)
  qed
qed

lemma first_set_scan_None:
  "first_set_scan a i = None \<Longrightarrow> i * 64 \<le> k \<Longrightarrow> \<not> clib_bitmap_get a k"
proof (induction a i rule: first_set_scan.induct)
  case (1 a i)
  show ?case
  proof (cases "i < length a")
    case True
    with "1.prems" have z: "a ! i = 0" and r: "first_set_scan a (i + 1) = None"
      by (auto simp: first_set_scan.simps [of a i] split: if_splits)
    show ?thesis
    proof (cases "(i + 1) * 64 \<le> k")
      case True
      with "1.IH" z r \<open>i < length a\<close> show ?thesis by blast
    next
      case False
      with z True "1.prems"(2) show ?thesis
        using get_in_word [of i k a] by (simp add: word_at_def)
    qed
  next
    case False
    with "1.prems"(2) have "length a \<le> k div 64" by linarith
    then show ?thesis by (simp add: get_word_at word_at_beyond)
  qed
qed

lemma first_set_skip8_scan: "first_set_scan a (first_set_skip8 a i) = first_set_scan a i"
proof (induction a i rule: first_set_skip8.induct)
  case (1 a i)
  show ?case
  proof (cases "i + 7 < length a \<and> list_all (\<lambda>k. a ! (i + k) = 0) [0..<8]")
    case True
    have "first_set_scan a i = first_set_scan a (i + n)" if "n \<le> 8" for n
      using that
    proof (induction n)
      case (Suc n)
      with True have "i + n < length a" "a ! (i + n) = 0"
        by (auto simp: list_all_iff)
      with Suc show ?case by (simp add: first_set_scan.simps [of a "i + n"])
    qed simp
    from this [of 8] True "1.IH" show ?thesis
      by (simp add: first_set_skip8.simps [of a i])
  next
    case False
    then have "first_set_skip8 a i = i" by (subst first_set_skip8.simps) (rule if_not_P)
    then show ?thesis by simp
  qed
qed

lemma first_set_spec:
  "case clib_bitmap_first_set a of
     None \<Rightarrow> \<forall>k. \<not> clib_bitmap_get a k
   | Some j \<Rightarrow> least_from (clib_bitmap_get a) 0 j"
  using first_set_scan_Some [of a 0] first_set_scan_None [of a 0]
  by (auto simp: clib_bitmap_first_set_def first_set_skip8_scan split: option.split)

lemma last_set_scan_spec:
  "n \<le> length a \<Longrightarrow>
   case last_set_scan a n of
     None \<Rightarrow> \<forall>k<n * 64. \<not> clib_bitmap_get a k
   | Some j \<Rightarrow> clib_bitmap_get a j \<and> j < n * 64 \<and> (\<forall>k<n * 64. clib_bitmap_get a k \<longrightarrow> k \<le> j)"
proof (induction n)
  case 0
  then show ?case by simp
next
  case (Suc n)
  have w: "clib_bitmap_get a k \<longleftrightarrow> bit (a ! n) (k mod 64)"
    if "n * 64 \<le> k" "k < Suc n * 64" for k
    using get_in_word [of n k a] that Suc.prems by (simp add: word_at_def)
  show ?case
  proof (cases "a ! n = 0")
    case True
    have up: "k < n * 64" if "clib_bitmap_get a k" "k < Suc n * 64" for k
      using w [of k] True that by (metis bit_0_eq bot_apply bot_bool_def linorder_not_le)
    have "n \<le> length a" using Suc.prems by simp
    note ih = Suc.IH [OF this]
    show ?thesis
    proof (cases "last_set_scan a n")
      case None
      with ih True up show ?thesis by auto
    next
      case (Some j)
      with ih True up show ?thesis by (auto intro: order.strict_trans2)
    qed
  next
    case False
    let ?c = "count_leading_zeros (a ! n)"
    let ?j = "n * 64 + (63 - ?c)"
    have j: "Suc n * 64 - ?c - 1 = ?j" using highest_set_bit(1) [OF False] by simp
    have "clib_bitmap_get a ?j"
      using w [of ?j] highest_set_bit(2) [OF False] by simp
    moreover have "k \<le> ?j" if "k < Suc n * 64" "clib_bitmap_get a k" for k
    proof (cases "n * 64 \<le> k")
      case True
      with that w have "bit (a ! n) (k mod 64)" by blast
      then have "k mod 64 \<le> 63 - ?c" using highest_set_bit(3) [OF False] by blast
      moreover have "k mod 64 = k - n * 64" using True that(1) by (simp add: mod_nat_eqI)
      ultimately show ?thesis using True by linarith
    qed auto
    ultimately show ?thesis using False j by simp
  qed
qed

lemma last_set_spec:
  "case clib_bitmap_last_set a of
     None \<Rightarrow> \<forall>k. \<not> clib_bitmap_get a k
   | Some j \<Rightarrow> clib_bitmap_get a j \<and> (\<forall>k. clib_bitmap_get a k \<longrightarrow> k \<le> j)"
proof -
  have "k < length a * 64" if "clib_bitmap_get a k" for k
    using that by (simp add: clib_bitmap_get_def Let_def) linarith
  then show ?thesis
    using last_set_scan_spec [of "length a" a]
    by (auto simp: clib_bitmap_last_set_def split: option.splits)
qed

lemma first_clear_scan_spec:
  "least_from (\<lambda>k. \<not> clib_bitmap_get a k) (i * 64) (first_clear_scan a i)"
proof (induction a i rule: first_clear_scan.induct)
  case (1 a i)
  show ?case
  proof (cases "i < length a")
    case lt: True
    have w: "\<not> clib_bitmap_get a k \<longleftrightarrow> bit (NOT (a ! i)) (k mod 64)"
      if "i * 64 \<le> k" "k < i * 64 + 64" for k
      using get_in_word [OF that, of a] lt by (simp add: word_at_def bit_not_iff)
    show ?thesis
    proof (cases "NOT (a ! i) = 0")
      case True
      then have "\<not> \<not> clib_bitmap_get a k" if "i * 64 \<le> k" "k < i * 64 + 64" for k
        using w [OF that] by simp
      then have "least_from (\<lambda>k. \<not> clib_bitmap_get a k) (i * 64) (first_clear_scan a (i + 1))"
        using "1.IH" lt True by (subst least_from_skip) auto
      with lt True show ?thesis by (simp add: first_clear_scan.simps [of a i])
    next
      case False
      with lt show ?thesis
        using word_lowest_bit [OF False, of i "\<lambda>k. \<not> clib_bitmap_get a k"] w
        by (simp add: first_clear_scan.simps [of a i])
    qed
  next
    case False
    then have "\<not> clib_bitmap_get a (i * 64)" by (simp add: get_word_at word_at_def)
    with False show ?thesis by (simp add: first_clear_scan.simps [of a i] least_from_def)
  qed
qed

lemma first_clear_spec:
  "least_from (\<lambda>k. \<not> clib_bitmap_get a k) 0 (clib_bitmap_first_clear a)"
  using first_clear_scan_spec [of a 0] by (simp add: clib_bitmap_first_clear_def)

text \<open>Both \<open>next\<close> searches mask off the bits of the first word below the start position.\<close>

lemma word_lowest_bit_above:
  assumes t: "t = push_bit (i mod 64) (drop_bit (i mod 64) w)" "t \<noteq> 0"
    and P: "\<And>k. i div 64 * 64 \<le> k \<Longrightarrow> k < i div 64 * 64 + 64 \<Longrightarrow> P k \<longleftrightarrow> bit w (k mod 64)"
  shows "least_from P i (get_lowest_set_bit_index t + i div 64 * 64)"
proof -
  let ?Q = "\<lambda>k. P k \<and> i \<le> k"
  have "least_from ?Q (i div 64 * 64) (i div 64 * 64 + get_lowest_set_bit_index t)"
  proof (rule word_lowest_bit [OF t(2)])
    fix k assume k: "i div 64 * 64 \<le> k" "k < i div 64 * 64 + 64"
    have "i \<le> k \<longleftrightarrow> i mod 64 \<le> k mod 64"
    proof -
      have "k div 64 = i div 64" using k by linarith
      then show ?thesis by (metis add_le_cancel_left div_mult_mod_eq)
    qed
    with P [OF k] show "P k \<and> i \<le> k \<longleftrightarrow> bit t (k mod 64)"
      unfolding t(1) by (auto simp: bit_simps)
  qed
  then show ?thesis
    unfolding least_from_def by (metis (no_types, lifting) add.commute div_times_less_eq_dividend
        order.trans)
qed

lemma no_bit_above:
  assumes "push_bit (i mod 64) (drop_bit (i mod 64) w) = (0 :: uword)"
    and P: "\<And>k. i div 64 * 64 \<le> k \<Longrightarrow> k < i div 64 * 64 + 64 \<Longrightarrow> P k \<longleftrightarrow> bit w (k mod 64)"
    and k: "i \<le> k" "k < (i div 64 + 1) * 64"
  shows "\<not> P k"
proof -
  have d: "k div 64 = i div 64" using k by (simp add: div_nat_eqI)
  then have "i mod 64 \<le> k mod 64" using k(1) by (metis add_le_cancel_left div_mult_mod_eq)
  moreover have "\<not> bit (push_bit (i mod 64) (drop_bit (i mod 64) w)) (k mod 64)"
    using assms(1) by simp
  ultimately have "\<not> bit w (k mod 64)" by (simp add: bit_simps)
  moreover have "i div 64 * 64 \<le> k" "k < i div 64 * 64 + 64" using d k by linarith+
  ultimately show ?thesis using P by blast
qed

lemma least_from_extend:
  assumes "least_from P m j" and "i \<le> m" and "\<And>k. i \<le> k \<Longrightarrow> k < m \<Longrightarrow> \<not> P k"
  shows "least_from P i j"
proof -
  have "j \<le> k" if "P k" "i \<le> k" for k
    using assms(1,3) that by (cases "k < m") (auto simp: least_from_def)
  with assms(1,2) show ?thesis by (simp add: least_from_def)
qed

lemma next_set_spec:
  "case clib_bitmap_next_set a i of
     None \<Rightarrow> \<forall>k\<ge>i. \<not> clib_bitmap_get a k
   | Some j \<Rightarrow> least_from (clib_bitmap_get a) i j"
proof (cases "i div 64 < length a")
  case lt: True
  let ?w = "a ! (i div 64)"
  let ?t = "push_bit (i mod 64) (drop_bit (i mod 64) ?w)"
  have w: "clib_bitmap_get a k \<longleftrightarrow> bit ?w (k mod 64)"
    if "i div 64 * 64 \<le> k" "k < i div 64 * 64 + 64" for k
    using get_in_word [OF that, of a] lt by (simp add: word_at_def)
  show ?thesis
  proof (cases "?t = 0")
    case True
    note none = no_bit_above [OF True w]
    have eq: "clib_bitmap_next_set a i = first_set_scan a (i div 64 + 1)"
      using lt True by (simp add: clib_bitmap_next_set_def Let_def)
    show ?thesis
    proof (cases "first_set_scan a (i div 64 + 1)")
      case None
      then show ?thesis
        using first_set_scan_None [OF None] none eq by (auto simp: not_less [symmetric])
    next
      case (Some j)
      have "least_from (clib_bitmap_get a) ((i div 64 + 1) * 64) j"
        using Some by (rule first_set_scan_Some)
      moreover have "i \<le> (i div 64 + 1) * 64" by simp
      ultimately have "least_from (clib_bitmap_get a) i j"
        using none by (rule least_from_extend)
      with eq Some show ?thesis by simp
    qed
  next
    case False
    with lt show ?thesis
      using word_lowest_bit_above [OF refl False, of "clib_bitmap_get a"] w
      by (simp add: clib_bitmap_next_set_def Let_def)
  qed
next
  case False
  have "\<not> clib_bitmap_get a k" if "i \<le> k" for k
    using False div_le_mono [OF that, of 64] by (simp add: get_word_at word_at_def)
  with False show ?thesis by (simp add: clib_bitmap_next_set_def)
qed

lemma next_clear_spec:
  "least_from (\<lambda>k. \<not> clib_bitmap_get a k) i (clib_bitmap_next_clear a i)"
proof (cases "i div 64 < length a")
  case lt: True
  let ?w = "NOT (a ! (i div 64))"
  let ?t = "push_bit (i mod 64) (drop_bit (i mod 64) ?w)"
  have w: "\<not> clib_bitmap_get a k \<longleftrightarrow> bit ?w (k mod 64)"
    if "i div 64 * 64 \<le> k" "k < i div 64 * 64 + 64" for k
    using get_in_word [OF that, of a] lt by (simp add: word_at_def bit_not_iff)
  show ?thesis
  proof (cases "?t = 0")
    case True
    note none = no_bit_above [OF True w]
    have "least_from (\<lambda>k. \<not> clib_bitmap_get a k) ((i div 64 + 1) * 64)
        (first_clear_scan a (i div 64 + 1))"
      by (rule first_clear_scan_spec)
    moreover have "i \<le> (i div 64 + 1) * 64" by simp
    ultimately have "least_from (\<lambda>k. \<not> clib_bitmap_get a k) i (first_clear_scan a (i div 64 + 1))"
      using none by (rule least_from_extend)
    with lt True show ?thesis by (simp add: clib_bitmap_next_clear_def Let_def)
  next
    case False
    with lt show ?thesis
      using word_lowest_bit_above [OF refl False, of "\<lambda>k. \<not> clib_bitmap_get a k"] w
      by (simp add: clib_bitmap_next_clear_def Let_def)
  qed
next
  case False
  then have "\<not> clib_bitmap_get a i" by (simp add: get_word_at word_at_def)
  with False show ?thesis by (simp add: clib_bitmap_next_clear_def least_from_def)
qed

subsection \<open>Runs of bits\<close>

lemma add_div_mod_64:
  fixes i j :: nat
  assumes "j < 64"
  shows "(i + j) div 64 = (if i mod 64 + j < 64 then i div 64 else i div 64 + 1)"
    and "(i + j) mod 64 = (if i mod 64 + j < 64 then i mod 64 + j else i mod 64 + j - 64)"
proof -
  obtain q r where qr: "i = r + 64 * q" "r < 64" by (metis mod_mult_div_eq mod_less_divisor zero_less_numeral)
  then have d: "i div 64 = q" "i mod 64 = r" by simp_all
  show "(i + j) div 64 = (if i mod 64 + j < 64 then i div 64 else i div 64 + 1)"
    unfolding d by (rule div_nat_eqI) (use qr assms in auto)
  then show "(i + j) mod 64 = (if i mod 64 + j < 64 then i mod 64 + j else i mod 64 + j - 64)"
    using qr assms d by (auto simp: minus_div_mult_eq_mod [symmetric])
qed

lemma bit_get_multiple [bitmap_simps]:
  assumes n: "n \<le> 64"
  shows "bit (clib_bitmap_get_multiple a i n) j \<longleftrightarrow> j < n \<and> clib_bitmap_get a (i + j)"
proof (cases "j < 64")
  case j: True
  define q r where qr: "q = i div 64" "r = i mod 64"
  define w1 w2 where w: "w1 = word_at a q" "w2 = word_at a (q + 1)"
  have r: "r < 64" by (simp add: qr)
  have beyond: "\<not> bit w1 (r + j)" if "\<not> r + j < 64"
    using that bit_uword_bound by blast
  have first: "bit (if q < length a then if n < 64 then drop_bit r (a ! q) AND (push_bit n 1 - 1)
      else drop_bit r (a ! q) else 0) j \<longleftrightarrow> j < n \<and> bit w1 (r + j)"
    using j n by (auto simp: w word_at_def bit_simps)
  have second: "bit (push_bit (64 - r) (a ! (q + 1) AND (push_bit (n - (64 - r)) 1 - 1))) j
      \<longleftrightarrow> \<not> r + j < 64 \<and> j < n \<and> bit w2 (r + j - 64)"
    if "64 < r + n" "q + 1 < length a"
    using j that n r by (auto simp: w word_at_def bit_push_bit_iff bit_and_iff add.commute)
  have none: "\<not> (\<not> r + j < 64 \<and> j < n \<and> bit w2 (r + j - 64))"
    if "\<not> (64 < r + n \<and> q + 1 < length a)"
    using that by (auto simp: w word_at_def)
  have get: "clib_bitmap_get a (i + j) \<longleftrightarrow> (if r + j < 64 then bit w1 (r + j) else bit w2 (r + j - 64))"
    by (simp add: get_word_at add_div_mod_64 [OF j] qr w)
  show ?thesis
  proof (cases "64 < r + n \<and> q + 1 < length a")
    case True
    then have "bit (clib_bitmap_get_multiple a i n) j \<longleftrightarrow>
        (j < n \<and> bit w1 (r + j)) \<or> (\<not> r + j < 64 \<and> j < n \<and> bit w2 (r + j - 64))"
      unfolding clib_bitmap_get_multiple_def Let_def qr [symmetric] first [symmetric]
      using second by (simp only: if_P bit_or_iff)
    with get beyond show ?thesis by auto
  next
    case False
    then have "bit (clib_bitmap_get_multiple a i n) j \<longleftrightarrow> j < n \<and> bit w1 (r + j)"
      unfolding clib_bitmap_get_multiple_def Let_def qr [symmetric] first [symmetric]
      by (simp only: if_False)
    with get beyond none [OF False] show ?thesis by auto
  qed
next
  case False
  with n show ?thesis by (auto dest: bit_uword_bound)
qed

lemma get_set_multiple [bitmap_simps]:
  assumes n: "0 < n" "n \<le> 64"
  shows "clib_bitmap_get (clib_bitmap_set_multiple a i v n) k \<longleftrightarrow>
         (if i \<le> k \<and> k < i + n then bit v (k - i) else clib_bitmap_get a k)"
proof -
  let ?q = "i div 64" and ?r = "i mod 64"
  let ?m = "if n < 64 then push_bit n 1 - 1 else NOT 0 :: uword"
  let ?x = "(word_at a ?q AND NOT (push_bit ?r ?m)) OR push_bit ?r (v AND ?m)"
  let ?y = "(word_at a (?q + 1) AND NOT (push_bit (n - (64 - ?r)) 1 - 1)) OR drop_bit (64 - ?r) (v AND ?m)"
  have m: "bit ?m t \<longleftrightarrow> t < n \<and> t < 64" for t by (auto simp: bit_not_iff)
  have e: "(i + n - 1) div 64 = (if ?r + n \<le> 64 then ?q else ?q + 1)"
    using add_div_mod_64(1) [of "n - 1" i] n by auto
  have w: "word_at (clib_bitmap_set_multiple a i v n) p =
      (if p = ?q then ?x else if p = ?q + 1 \<and> 64 < ?r + n then ?y else word_at a p)" for p
  proof -
    let ?b = "clib_bitmap_vec_validate a (if ?r + n \<le> 64 then ?q else ?q + 1)"
    have lb: "?q < length ?b" "64 < ?r + n \<Longrightarrow> ?q + 1 < length ?b" by auto
    have nth: "?b ! ?q = word_at a ?q" "64 < ?r + n \<Longrightarrow> ?b ! (?q + 1) = word_at a (?q + 1)"
      using lb nth_word_at [of ?q ?b] nth_word_at [of "?q + 1" ?b] by auto
    have "clib_bitmap_set_multiple a i v n =
        (if 64 < ?r + n then ?b[?q := ?x, ?q + 1 := ?y] else ?b[?q := ?x])"
      unfolding clib_bitmap_set_multiple_def Let_def e
      using lb nth by (cases "64 < ?r + n") (simp_all only: simp_thms if_True if_False
          length_list_update nth_list_update_neq n_not_Suc_n Suc_eq_plus1 [symmetric] not_False_eq_True)
    then show ?thesis using lb by (auto simp: word_at_update simp del: length_validate)
  qed
  have x: "bit ?x t \<longleftrightarrow> (if ?r \<le> t \<and> t < ?r + n then bit v (t - ?r) else bit (word_at a ?q) t)"
    if "t < 64" for t
    using that by (auto simp: bit_simps m)
  have y: "bit ?y t \<longleftrightarrow>
      (if t < ?r + n - 64 then bit v (t + 64 - ?r) else bit (word_at a (?q + 1)) t)"
    if "t < 64" "64 < ?r + n" for t
    using that n by (auto simp: bit_simps m add.commute)
  define X Y where XY: "X = ?x" "Y = ?y"
  note w = w [folded XY(1), folded XY(2)] and x = x [folded XY(1)] and y = y [folded XY(2)]
  define q r p t where pd: "q = i div 64" "r = i mod 64" "p = k div 64" "t = k mod 64"
  have i: "i = q * 64 + r" "r < 64" and k: "k = p * 64 + t" "t < 64"
    by (simp_all add: pd)
  have goal: "clib_bitmap_get (clib_bitmap_set_multiple a i v n) k \<longleftrightarrow>
      bit (word_at (clib_bitmap_set_multiple a i v n) p) t"
    "clib_bitmap_get a k \<longleftrightarrow> bit (word_at a p) t"
    by (simp_all add: get_word_at pd)
  consider "p = q" | "p = q + 1" | "p < q" | "q + 1 < p"
    by linarith
  then show ?thesis
  proof cases
    case 1
    then have "i \<le> k \<longleftrightarrow> r \<le> t" "k < i + n \<longleftrightarrow> t < r + n" "k - i = t - r"
      using k i by auto
    then show ?thesis unfolding goal w using 1 x [OF k(2)] by (simp add: pd(1,2) [symmetric])
  next
    case 2
    then have "i \<le> k" "k < i + n \<longleftrightarrow> t + 64 < r + n" "k - i = t + 64 - r"
      using k i by auto
    then show ?thesis unfolding goal w using 2 y [OF k(2)] by (auto simp: pd(1,2) [symmetric])
  next
    case 3
    then have "\<not> i \<le> k" using k i by auto
    then show ?thesis unfolding goal w using 3 by (simp add: pd(1,2) [symmetric])
  next
    case 4
    then have "\<not> k < i + n" using k i n by auto
    then show ?thesis unfolding goal w using 4 by (simp add: pd(1,2) [symmetric])
  qed
qed

lemma length_set_words [simp]: "length (set_words a m n w) = length a"
proof -
  have "length (fold (\<lambda>k bm. bm[k := w]) ks a) = length a" for ks
    by (induction ks arbitrary: a) auto
  then show ?thesis by (simp add: set_words_def)
qed

lemma word_at_set_words:
  "n \<le> length a \<Longrightarrow> word_at (set_words a m n w) k = (if m \<le> k \<and> k < n then w else word_at a k)"
proof (induction n)
  case (Suc n)
  then show ?case
    using length_set_words [of a m n w]
    by (cases "m \<le> n") (auto simp: set_words_def word_at_update less_Suc_eq)
qed (simp add: set_words_def)

text \<open>The masks of the first and the last word of a region.\<close>

definition region_word :: "bool \<Rightarrow> uword \<Rightarrow> uword \<Rightarrow> uword" where
  "region_word v w m = (if v then w OR m else w AND NOT m)"

lemma bit_region_word:
  "t < 64 \<Longrightarrow> bit (region_word v w m) t \<longleftrightarrow> (if bit m t then v else bit w t)"
  by (auto simp: region_word_def bit_simps)

lemma bit_first_mask:
  "r < 64 \<Longrightarrow> bit (push_bit r (if n < 64 then pow2_mask n else NOT 0) :: uword) t
     \<longleftrightarrow> t < 64 \<and> r \<le> t \<and> t < r + n"
  by (auto simp: bit_push_bit_iff bit_not_iff dest: bit_uword_bound)

lemma bit_last_mask:
  "r < 64 \<Longrightarrow> bit (drop_bit (64 - r - 1) (NOT 0) :: uword) t \<longleftrightarrow> t \<le> r"
  by (auto simp: bit_drop_bit_eq bit_not_iff bit_mask_iff)

lemma word_at_set_region:
  fixes a i n v
  defines "q \<equiv> i div 64" and "r \<equiv> i mod 64"
    and "bq \<equiv> (i + n - 1) div 64" and "br \<equiv> (i + n - 1) mod 64"
  assumes n: "0 < n"
  shows "word_at (clib_bitmap_set_region a i v n) p =
     (if p = q then region_word v (word_at a q) (push_bit r (if n < 64 then pow2_mask n else NOT 0))
      else if p = bq then region_word v (word_at a bq) (drop_bit (64 - br - 1) (NOT 0))
      else if q < p \<and> p < bq then (if v then NOT 0 else 0)
      else word_at a p)"
proof -
  define b where "b = clib_bitmap_vec_validate a bq"
  define m where "m = (push_bit r (if n < 64 then pow2_mask n else NOT 0) :: uword)"
  define c where "c = set_words (b[q := region_word v (b ! q) m]) (q + 1) bq (if v then NOT 0 else 0)"
  have le: "q \<le> bq" unfolding q_def bq_def using n by (intro div_le_mono) simp
  then have lb: "q < length b" "bq < length b" by (auto simp: b_def)
  have bw: "word_at b k = word_at a k" for k by (simp add: b_def)
  have cw: "word_at c k = (if k = q then region_word v (word_at a q) m
      else if q < k \<and> k < bq then (if v then NOT 0 else 0) else word_at a k)" for k
    using lb by (auto simp: c_def word_at_set_words word_at_update bw nth_word_at)
  have lc: "length c = length b" by (simp add: c_def)
  have eq: "clib_bitmap_set_region a i v n =
      (if max (q + 1) bq = bq
       then c[bq := region_word v (c ! bq) (drop_bit (64 - br - 1) (NOT 0))] else c)"
    unfolding clib_bitmap_set_region_def Let_def q_def [symmetric] r_def [symmetric]
      bq_def [symmetric] br_def [symmetric] b_def [symmetric] m_def [symmetric]
      region_word_def [symmetric] c_def [symmetric]
    by (simp only: max_absorb2 max_def split: if_split) simp
  have cb: "c ! bq = word_at c bq" using lb lc by (simp add: word_at_def)
  show ?thesis
  proof (cases "q = bq")
    case True
    then show ?thesis unfolding eq m_def [symmetric] by (simp add: cw)
  next
    case False
    with le have lt: "q < bq" by simp
    then have "max (q + 1) bq = bq" by simp
    with lt lb lc show ?thesis
      unfolding eq m_def [symmetric] cb by (auto simp: word_at_update cw)
  qed
qed

lemma get_set_region [bitmap_simps]:
  assumes n: "0 < n"
  shows "clib_bitmap_get (clib_bitmap_set_region a i v n) k \<longleftrightarrow>
         (if i \<le> k \<and> k < i + n then v else clib_bitmap_get a k)"
proof -
  define q r p t where pd: "q = i div 64" "r = i mod 64" "p = k div 64" "t = k mod 64"
  define bq br where bd: "bq = (i + n - 1) div 64" "br = (i + n - 1) mod 64"
  have i: "i = q * 64 + r" "r < 64" and k: "k = p * 64 + t" "t < 64"
    and e: "i + n - 1 = bq * 64 + br" "br < 64"
    by (simp_all add: pd bd)
  have le: "q \<le> bq" unfolding pd bd using n by (intro div_le_mono) simp
  have w: "clib_bitmap_get (clib_bitmap_set_region a i v n) k \<longleftrightarrow>
      bit (word_at (clib_bitmap_set_region a i v n) p) t"
    "clib_bitmap_get a k \<longleftrightarrow> bit (word_at a p) t"
    by (simp_all add: get_word_at pd)
  note wr = word_at_set_region [OF n, of a i v p, folded pd(1,2) bd]
  consider "p = q" | "p \<noteq> q" "p = bq" | "q < p" "p < bq" | "p < q \<or> bq < p"
    using le by linarith
  then show ?thesis
  proof cases
    case 1
    then have "i \<le> k \<and> k < i + n \<longleftrightarrow> r \<le> t \<and> t < r + n" using i k by auto
    with 1 show ?thesis
      unfolding w wr using bit_region_word [OF k(2)] bit_first_mask [OF i(2)] k(2) by simp
  next
    case 2
    with le have "q < bq" by simp
    then have "i \<le> k" using i k 2 by auto
    moreover have "k < i + n \<longleftrightarrow> t \<le> br" using e n k 2 by auto
    ultimately show ?thesis
      unfolding w wr using 2 bit_region_word [OF k(2)] bit_last_mask [OF e(2)] by simp
  next
    case 3
    then have "i \<le> k" "k < i + n" using i k e by auto
    with 3 k(2) show ?thesis unfolding w wr by (auto simp: bit_not_iff)
  next
    case 4
    then have "\<not> (i \<le> k \<and> k < i + n)" using i k e n by auto
    with 4 le show ?thesis unfolding w wr by auto
  qed
qed

subsection \<open>The ALU operations\<close>

lemma n_trailing_zeros_takeWhile:
  "n_trailing_zeros a = length (takeWhile (\<lambda>x. x = 0) (rev a))"
  unfolding n_trailing_zeros_def by (induction a rule: rev_induct) auto

lemma take_trailing_zeros: "take (length a - n_trailing_zeros a) a = remove_trailing_zeros a"
proof -
  have "rev (dropWhile (\<lambda>x. x = 0) (rev a)) = rev (drop (n_trailing_zeros a) (rev a))"
    by (simp add: dropWhile_eq_drop n_trailing_zeros_takeWhile)
  also have "\<dots> = take (length a - n_trailing_zeros a) a" by (simp add: rev_drop)
  finally show ?thesis by (simp add: remove_trailing_zeros_def)
qed

lemma word_at_alu:
  assumes "body 0 0 = 0"
  shows "word_at (bitmap_alu body c a b) k = body (word_at a k) (word_at b k)"
proof -
  define A where "A = (if 0 < length b then clib_bitmap_vec_validate a (length b - 1) else a)"
  have A: "word_at A k = word_at a k" "length a \<le> length A" "length b \<le> length A"
    by (auto simp: A_def)
  have "word_at (map (\<lambda>i. body (A ! i) (if i < length b then b ! i else 0)) [0..<length A]) k =
      body (word_at a k) (word_at b k)"
    using A assms by (cases "k < length A") (auto simp: word_at_def)
  then show ?thesis
    unfolding bitmap_alu_def Let_def A_def [symmetric] 
    by (simp only: take_trailing_zeros word_at_trim simp_thms split: if_split)
qed

lemma get_and [bitmap_simps]:
  "clib_bitmap_get (clib_bitmap_and a b) i \<longleftrightarrow> clib_bitmap_get a i \<and> clib_bitmap_get b i"
  by (simp add: get_word_at clib_bitmap_and_def word_at_alu bit_simps)

lemma get_andnot [bitmap_simps]:
  "clib_bitmap_get (clib_bitmap_andnot a b) i \<longleftrightarrow> clib_bitmap_get a i \<and> \<not> clib_bitmap_get b i"
  by (simp add: get_word_at clib_bitmap_andnot_def word_at_alu bit_simps)

lemma get_or [bitmap_simps]:
  "clib_bitmap_get (clib_bitmap_or a b) i \<longleftrightarrow> clib_bitmap_get a i \<or> clib_bitmap_get b i"
  by (simp add: get_word_at clib_bitmap_or_def word_at_alu bit_simps)

lemma get_xor [bitmap_simps]:
  "clib_bitmap_get (clib_bitmap_xor a b) i \<longleftrightarrow> clib_bitmap_get a i \<noteq> clib_bitmap_get b i"
  by (simp add: get_word_at clib_bitmap_xor_def word_at_alu bit_simps)

lemma trimmed_alu: "bitmap_trimmed (bitmap_alu body True a b)"
  unfolding bitmap_alu_def Let_def
  by (simp only: if_True take_trailing_zeros trimmed_remove_trailing_zeros)

lemma word_at_alui:
  "word_at (bitmap_alui body c a i) k =
     (if k = i div 64 then body (word_at a k) (push_bit (i mod 64) 1) else word_at a k)"
  by (auto simp: bitmap_alui_def Let_def word_at_update nth_word_at)

lemma word_at_alui_notrim:
  "word_at (bitmap_alui_notrim body a i) k =
     (if k = i div 64 then body (word_at a k) (push_bit (i mod 64) 1) else word_at a k)"
  by (auto simp: bitmap_alui_notrim_def Let_def word_at_update nth_word_at)

lemmas alui_simps = get_word_at word_at_alui word_at_alui_notrim bit_simps

lemma get_andnoti [bitmap_simps]:
  "clib_bitmap_get (clib_bitmap_andnoti a i) j \<longleftrightarrow> j \<noteq> i \<and> clib_bitmap_get a j"
  by (auto simp: clib_bitmap_andnoti_def alui_simps div_mod_64_eq [of j i] dest: bit_uword_bound)

lemma get_ori [bitmap_simps]:
  "clib_bitmap_get (clib_bitmap_ori a i) j \<longleftrightarrow> j = i \<or> clib_bitmap_get a j"
  by (auto simp: clib_bitmap_ori_def alui_simps div_mod_64_eq [of j i])

lemma get_xori [bitmap_simps]:
  "clib_bitmap_get (clib_bitmap_xori a i) j \<longleftrightarrow> clib_bitmap_get a j \<noteq> (j = i)"
  by (auto simp: clib_bitmap_xori_def alui_simps div_mod_64_eq [of j i])

lemma get_andnoti_notrim [bitmap_simps]:
  "clib_bitmap_get (clib_bitmap_andnoti_notrim a i) j \<longleftrightarrow> j \<noteq> i \<and> clib_bitmap_get a j"
  by (auto simp: clib_bitmap_andnoti_notrim_def alui_simps div_mod_64_eq [of j i]
      dest: bit_uword_bound)

lemma get_ori_notrim [bitmap_simps]:
  "clib_bitmap_get (clib_bitmap_ori_notrim a i) j \<longleftrightarrow> j = i \<or> clib_bitmap_get a j"
  by (auto simp: clib_bitmap_ori_notrim_def alui_simps div_mod_64_eq [of j i])

text \<open>\<open>andi\<close> masks one word only: the bits of every other word survive it.\<close>

lemma get_andi [bitmap_simps]:
  "clib_bitmap_get (clib_bitmap_andi a i) j \<longleftrightarrow>
     clib_bitmap_get a j \<and> (j = i \<or> j div 64 \<noteq> i div 64)"
  by (auto simp: clib_bitmap_andi_def alui_simps div_mod_64_eq [of j i])

subsection \<open>Counting\<close>

lemma get_bound: "clib_bitmap_get a i \<Longrightarrow> i < 64 * length a"
  by (simp add: clib_bitmap_get_def Let_def) linarith

lemma finite_bits [simp]: "finite {i. clib_bitmap_get a i}"
  by (rule finite_subset [of _ "{..<64 * length a}"]) (auto dest: get_bound)

lemma bits_append:
  "{i. clib_bitmap_get (a @ [w]) i} =
     {i. clib_bitmap_get a i} \<union> (\<lambda>j. 64 * length a + j) ` {j. bit w j}" (is "?l = ?r1 \<union> ?r2")
proof -
  have "i \<in> ?l \<longleftrightarrow> i \<in> ?r1 \<union> ?r2" for i
  proof -
    consider "i div 64 < length a" | "i div 64 = length a" | "length a < i div 64" by linarith
    then show ?thesis
    proof cases
      case 1
      then have "i \<notin> ?r2" by auto
      with 1 show ?thesis by (auto simp: get_word_at word_at_def nth_append)
    next
      case 2
      then have "i = 64 * length a + i mod 64" by (metis mult_div_mod_eq)
      then have "i \<in> ?r2 \<longleftrightarrow> bit w (i mod 64)" by (auto simp: image_iff dest: bit_uword_bound)
      with 2 show ?thesis by (auto simp: get_word_at word_at_def)
    next
      case 3
      then have "i \<notin> ?r2" by (auto dest!: bit_uword_bound)
      with 3 show ?thesis by (auto simp: get_word_at word_at_def)
    qed
  qed
  then show ?thesis by blast
qed

lemma count_set_bits_spec: "clib_bitmap_count_set_bits a = card {i. clib_bitmap_get a i}"
proof (induction a rule: rev_induct)
  case Nil
  then show ?case by (simp add: clib_bitmap_count_set_bits_def get_word_at word_at_def)
next
  case (snoc w a)
  have "card {i. clib_bitmap_get (a @ [w]) i} =
      card {i. clib_bitmap_get a i} + card ((\<lambda>j. 64 * length a + j) ` {j. bit w j})"
    unfolding bits_append by (rule card_Un_disjoint) (auto dest: get_bound)
  also have "card ((\<lambda>j. 64 * length a + j) ` {j. bit w j}) = count_set_bits w"
    by (simp add: card_image inj_on_def count_set_bits_card)
  finally show ?case using snoc by (simp add: clib_bitmap_count_set_bits_def)
qed

subsection \<open>Correctness of the component\<close>

text \<open>C22. The four vector operations compute intersection, difference, union and symmetric
  difference of the index sets, and leave a bitmap without trailing zero words.\<close>

theorem bitmap_alu_sets:
  "clib_bitmap_get (clib_bitmap_and a b) i = (clib_bitmap_get a i \<and> clib_bitmap_get b i) \<and>
   clib_bitmap_get (clib_bitmap_andnot a b) i = (clib_bitmap_get a i \<and> \<not> clib_bitmap_get b i) \<and>
   clib_bitmap_get (clib_bitmap_or a b) i = (clib_bitmap_get a i \<or> clib_bitmap_get b i) \<and>
   clib_bitmap_get (clib_bitmap_xor a b) i = (clib_bitmap_get a i \<noteq> clib_bitmap_get b i) \<and>
   bitmap_trimmed (clib_bitmap_and a b) \<and> bitmap_trimmed (clib_bitmap_andnot a b) \<and>
   bitmap_trimmed (clib_bitmap_xor a b)"
  by (simp add: bitmap_simps) (simp add: clib_bitmap_and_def clib_bitmap_andnot_def
      clib_bitmap_xor_def trimmed_alu)

text \<open>C23. On bitmaps without trailing zero words, which \<open>clib_bitmap_set\<close> maintains, the
  word-by-word comparison decides equality of the index sets.\<close>

theorem bitmap_equal_decides:
  assumes "bitmap_trimmed a" and "bitmap_trimmed b"
  shows "clib_bitmap_is_equal (clib_bitmap_set a i v) b \<longleftrightarrow>
    (\<forall>j. clib_bitmap_get b j = (if j = i then v else clib_bitmap_get a j))"
proof
  assume "\<forall>j. clib_bitmap_get b j = (if j = i then v else clib_bitmap_get a j)"
  then have "clib_bitmap_set a i v = b"
    by (intro trimmed_canonical trimmed_set assms) (simp add: get_set)
  then show "clib_bitmap_is_equal (clib_bitmap_set a i v) b" by (simp add: is_equal_iff)
qed (auto simp: is_equal_iff get_set)

theorem bitmap_equal_decides_witness:
  "bitmap_trimmed [5, 1] \<and> bitmap_trimmed [5] \<and>
   (clib_bitmap_is_equal (clib_bitmap_set [5, 1] 64 False) [5] \<longleftrightarrow>
    (\<forall>j. clib_bitmap_get [5] j = (if j = 64 then False else clib_bitmap_get [5, 1] j)))"
  using bitmap_equal_decides [of "[5, 1]" "[5]" 64 False] by (simp add: bitmap_trimmed_def)

text \<open>C24. A group of bits written with \<open>clib_bitmap_set_multiple\<close> is read back by
  \<open>clib_bitmap_get_multiple\<close>, across word boundaries and for every group size up to a
  word, and no other bit changes.\<close>

theorem bitmap_multiple_roundtrip:
  assumes "0 < n" and "n \<le> 64"
  shows "clib_bitmap_get_multiple (clib_bitmap_set_multiple a i v n) i n = v AND mask n \<and>
    (\<forall>k. k < i \<or> i + n \<le> k \<longrightarrow>
       clib_bitmap_get (clib_bitmap_set_multiple a i v n) k = clib_bitmap_get a k)"
  using assms
  by (auto simp: bitmap_simps bit_eq_iff bit_simps)

theorem bitmap_multiple_roundtrip_witness:
  "(0 :: nat) < 10 \<and> (10 :: nat) \<le> 64 \<and>
   clib_bitmap_get_multiple (clib_bitmap_set_multiple [] 60 0x2ab 10) 60 10 = 0x2ab"
  using bitmap_multiple_roundtrip [of 10 "[]" 60 "0x2ab"] by (simp add: mask_eq_exp_minus_1)

text \<open>C25. \<open>clib_bitmap_set_region\<close> writes exactly the bits \<open>i .. i + n - 1\<close>.\<close>

theorem bitmap_set_region_exact:
  assumes "0 < n"
  shows "clib_bitmap_get (clib_bitmap_set_region a i v n) k =
    (if i \<le> k \<and> k < i + n then v else clib_bitmap_get a k)"
  using assms by (rule get_set_region)

theorem bitmap_set_region_exact_witness:
  "(0 :: nat) < 130 \<and> clib_bitmap_get (clib_bitmap_set_region [] 60 True 130) 189 \<and>
   \<not> clib_bitmap_get (clib_bitmap_set_region [] 60 True 130) 190"
  using bitmap_set_region_exact [of 130 "[]" 60 True 189]
    bitmap_set_region_exact [of 130 "[]" 60 True 190]
  by (simp add: get_word_at word_at_def)

text \<open>C26. The searches return the least (greatest) set bit, or report that there is none; the
  vectorised skip of zero words in \<open>clib_bitmap_first_set\<close> does not change the result.\<close>

theorem bitmap_searches:
  "(case clib_bitmap_first_set a of None \<Rightarrow> \<forall>k. \<not> clib_bitmap_get a k
    | Some j \<Rightarrow> least_from (clib_bitmap_get a) 0 j) \<and>
   (case clib_bitmap_last_set a of None \<Rightarrow> \<forall>k. \<not> clib_bitmap_get a k
    | Some j \<Rightarrow> clib_bitmap_get a j \<and> (\<nexists>k. clib_bitmap_get a k \<and> j < k)) \<and>
   (case clib_bitmap_next_set a i of None \<Rightarrow> \<nexists>k. i \<le> k \<and> clib_bitmap_get a k
    | Some j \<Rightarrow> least_from (clib_bitmap_get a) i j) \<and>
   least_from (\<lambda>k. \<not> clib_bitmap_get a k) i (clib_bitmap_next_clear a i)"
  using first_set_spec [where a = a] last_set_spec [where a = a]
    next_set_spec [where a = a and i = i] next_clear_spec [where a = a and i = i]
  by (auto split: option.splits)

text \<open>C27. \<open>clib_bitmap_copy\<close> copies the source only when the destination is not longer: with
  a longer destination \<open>vec_copy\<close> reads past the end of the source.\<close>

theorem bitmap_copy_cases:
  "clib_bitmap_copy dst src =
     (if src = [] then Some [] else if length dst \<le> length src then Some src else None)"
  by (auto simp: clib_bitmap_copy_def vec_copy_def clib_bitmap_vec_validate_def
      length_vec_validate max_def)

end
