(* ===== verification/Pool.thy ===== *)
theory Pool
  imports Bitmap
begin

text \<open>
  The pools of \<^verbatim>\<open>vppinfra/pool.h\<close>: a vector of fixed-size elements with a stack of free
  indices and a bitmap that mirrors it. Freed elements keep their bytes until the slot is
  handed out again; a slot that is handed out holds whatever it held before (\<open>fresh\<close> for
  a slot the vector has just grown by), unless the zeroing variant is used. A NULL pool is
  the empty record. \<open>os_out_of_memory\<close>, which does not return, is \<open>None\<close>.

  The locale \<open>pool_interface\<close> states what the rest of VPP relies on: the active indices with
  their elements form a finite map that \<open>pool_get\<close>, \<open>pool_put\<close> and writes through
  \<open>pool_elt_at_index\<close> update pointwise. The interpretation at the end discharges its laws
  for the model; iteration visits the active indices in ascending order, each once.
\<close>

unbundle bit_operations_syntax

record 'a pool =
  elts :: "'a list"
  free_bitmap :: clib_bitmap_t
  free_indices :: "nat list"
  max_elts :: nat

definition pool_null :: "'a pool" where
  "pool_null = \<lparr>elts = [], free_bitmap = [], free_indices = [], max_elts = 0\<rparr>"

subsection \<open>Operations\<close>

text \<open>The vector of free indices is filled so that the lowest index is on top of the stack.\<close>

definition pool_init_fixed :: "'a \<Rightarrow> nat \<Rightarrow> 'a pool" where
  "pool_init_fixed fresh n =
     (let b = clib_bitmap_alloc n;
          b = set_words b 0 (n div 64) (NOT 0);
          i = n mod 64
      in \<lparr>elts = replicate n fresh,
          free_bitmap = (if i \<noteq> 0 then b[n div 64 := pow2_mask i] else b),
          free_indices = map (\<lambda>i. (n - 1) - i) [0..<n],
          max_elts = n\<rparr>)"

definition pool_validate :: "'a pool \<Rightarrow> bool" where
  "pool_validate p \<longleftrightarrow>
     clib_bitmap_count_set_bits (free_bitmap p) = length (free_indices p) \<and>
     list_all (\<lambda>i. clib_bitmap_get (free_bitmap p) i) (free_indices p)"

definition pool_elts :: "'a pool \<Rightarrow> nat" where
  "pool_elts p = length (elts p) - length (free_indices p)"

definition pool_get :: "'a \<Rightarrow> 'a pool \<Rightarrow> (nat \<times> 'a pool) option" where
  "pool_get fresh p =
     (let n_free = length (free_indices p) in
      if n_free \<noteq> 0
      then let index = free_indices p ! (n_free - 1)
           in Some (index,
                p\<lparr>free_bitmap := clib_bitmap_andnoti_notrim (free_bitmap p) index,
                  free_indices := take (n_free - 1) (free_indices p)\<rparr>)
      else if max_elts p \<noteq> 0 then None
      else Some (length (elts p), p\<lparr>elts := elts p @ [fresh]\<rparr>))"

definition pool_get_zero :: "'a \<Rightarrow> 'a pool \<Rightarrow> (nat \<times> 'a pool) option" where
  "pool_get_zero zero p =
     (case pool_get zero p of None \<Rightarrow> None
      | Some (e, p) \<Rightarrow> Some (e, p\<lparr>elts := (elts p)[e := zero]\<rparr>))"

definition pool_is_free_index :: "'a pool \<Rightarrow> nat \<Rightarrow> bool" where
  "pool_is_free_index p index =
     (if index < length (elts p) then clib_bitmap_get (free_bitmap p) index else True)"

definition pool_put_index :: "'a pool \<Rightarrow> nat \<Rightarrow> 'a pool" where
  "pool_put_index p index =
     p\<lparr>free_bitmap := clib_bitmap_ori_notrim (free_bitmap p) index,
       free_indices := free_indices p @ [index]\<rparr>"

definition pool_elt_at_index :: "'a pool \<Rightarrow> nat \<Rightarrow> 'a" where
  "pool_elt_at_index p i = elts p ! i"

text \<open>A write through the pointer \<open>pool_elt_at_index (p, i)\<close>.\<close>

definition pool_write :: "'a pool \<Rightarrow> nat \<Rightarrow> 'a \<Rightarrow> 'a pool" where
  "pool_write p i x = p\<lparr>elts := (elts p)[i := x]\<rparr>"

definition pool_alloc :: "nat \<Rightarrow> 'a pool \<Rightarrow> 'a pool option" where
  "pool_alloc n_elts p =
     (if max_elts p \<noteq> 0 then None
      else let n = length (elts p) + n_elts
           in Some (p\<lparr>free_bitmap :=
                clib_bitmap_validate (free_bitmap p) (if n \<noteq> 0 then n else 1)\<rparr>))"

definition pool_dup :: "'a pool \<Rightarrow> 'a pool option" where
  "pool_dup p =
     (if max_elts p \<noteq> 0 then None
      else if length (elts p) \<noteq> 0
      then Some \<lparr>elts = elts p, free_bitmap = free_bitmap p,
                 free_indices = free_indices p, max_elts = 0\<rparr>
      else Some pool_null)"

definition pool_get_first_index :: "'a pool \<Rightarrow> nat" where
  "pool_get_first_index p = clib_bitmap_first_clear (free_bitmap p)"

definition pool_get_next_index :: "'a pool \<Rightarrow> nat \<Rightarrow> nat" where
  "pool_get_next_index p lst = clib_bitmap_next_clear (free_bitmap p) (lst + 1)"

definition pool_next_index :: "'a pool \<Rightarrow> nat \<Rightarrow> nat option" where
  "pool_next_index p i =
     (let rv = i + 1;
          rv = (if rv < length (elts p) then Some (clib_bitmap_next_clear (free_bitmap p) rv) else None)
      in case rv of None \<Rightarrow> None
         | Some rv \<Rightarrow> if rv < length (elts p) then Some rv else None)"

lemma next_index_gt: "i < pool_get_next_index p i"
  using next_clear_spec [of "free_bitmap p" "i + 1"]
  by (simp add: pool_get_next_index_def least_from_def)

text \<open>\<open>pool_foreach\<close>: the indices at which the loop body runs, in order.\<close>

function pool_foreach_from :: "'a pool \<Rightarrow> nat \<Rightarrow> nat list" where
  "pool_foreach_from p i =
     (if i < length (elts p) then i # pool_foreach_from p (pool_get_next_index p i) else [])"
  by pat_completeness auto
termination
  by (relation "measure (\<lambda>(p, i). length (elts p) - i)")
     (auto intro: diff_less_mono2 next_index_gt)

declare pool_foreach_from.simps [simp del]

definition pool_foreach :: "'a pool \<Rightarrow> nat list" where
  "pool_foreach p = pool_foreach_from p (pool_get_first_index p)"

text \<open>\<open>pool_flush\<close> collects the indices first, then frees them one by one.\<close>

definition pool_flush :: "('a \<Rightarrow> 's \<Rightarrow> 's) \<Rightarrow> 'a pool \<Rightarrow> 's \<Rightarrow> 'a pool \<times> 's" where
  "pool_flush body p s =
     fold (\<lambda>i (p, s). (pool_put_index p i, body (pool_elt_at_index p i) s))
       (pool_foreach p) (p, s)"

subsection \<open>Well-formed pools\<close>

definition pool_active :: "'a pool \<Rightarrow> nat set" where
  "pool_active p = {i. i < length (elts p) \<and> i \<notin> set (free_indices p)}"

definition pool_wf :: "'a pool \<Rightarrow> bool" where
  "pool_wf p \<longleftrightarrow>
     distinct (free_indices p) \<and>
     (\<forall>i. clib_bitmap_get (free_bitmap p) i \<longleftrightarrow> i \<in> set (free_indices p)) \<and>
     (\<forall>i\<in>set (free_indices p). i < length (elts p)) \<and>
     (max_elts p \<noteq> 0 \<longrightarrow> length (elts p) = max_elts p)"

lemma pool_wf_null [simp]: "pool_wf pool_null" and pool_active_null [simp]: "pool_active pool_null = {}"
  by (simp_all add: pool_wf_def pool_active_def pool_null_def get_word_at word_at_def)

lemma is_free_iff: "pool_wf p \<Longrightarrow> pool_is_free_index p i \<longleftrightarrow> i \<notin> pool_active p"
  by (auto simp: pool_wf_def pool_is_free_index_def pool_active_def)

lemma pool_wf_validate: "pool_wf p \<Longrightarrow> pool_validate p"
proof -
  assume wf: "pool_wf p"
  then have "{i. clib_bitmap_get (free_bitmap p) i} = set (free_indices p)"
    by (auto simp: pool_wf_def)
  with wf show ?thesis
    by (auto simp: pool_validate_def count_set_bits_spec list_all_iff pool_wf_def distinct_card)
qed

lemma finite_pool_active [simp]: "finite (pool_active p)"
  by (rule finite_subset [of _ "{..<length (elts p)}"]) (auto simp: pool_active_def)

lemma pool_elts_card: "pool_wf p \<Longrightarrow> pool_elts p = card (pool_active p)"
proof -
  assume wf: "pool_wf p"
  have "pool_active p = {..<length (elts p)} - set (free_indices p)"
    by (auto simp: pool_active_def)
  moreover have "set (free_indices p) \<subseteq> {..<length (elts p)}"
    using wf by (auto simp: pool_wf_def)
  ultimately show ?thesis
    using wf by (simp add: pool_elts_def card_Diff_subset distinct_card pool_wf_def)
qed

lemma free_indices_snoc:
  assumes "free_indices p \<noteq> []"
  obtains fs i where "free_indices p = fs @ [i]"
  using assms by (meson rev_exhaust)

lemma pool_get_wf:
  assumes "pool_wf p" and "pool_get z p = Some (i, q)"
  shows "pool_wf q" and "i \<notin> pool_active p" and "pool_active q = insert i (pool_active p)"
    and "\<And>j. j \<in> pool_active p \<Longrightarrow> pool_elt_at_index q j = pool_elt_at_index p j"
    and "i < length (elts q)"
proof -
  consider (free) fs where "free_indices p = fs @ [i]"
      "q = p\<lparr>free_bitmap := clib_bitmap_andnoti_notrim (free_bitmap p) i, free_indices := fs\<rparr>"
    | (grow) "free_indices p = []" "max_elts p = 0" "i = length (elts p)"
      "q = p\<lparr>elts := elts p @ [z]\<rparr>"
    using assms(2)
    by (cases "free_indices p" rule: rev_cases) (auto simp: pool_get_def Let_def split: if_splits)
  then have "pool_wf q \<and> i \<notin> pool_active p \<and> pool_active q = insert i (pool_active p) \<and>
      (\<forall>j\<in>pool_active p. pool_elt_at_index q j = pool_elt_at_index p j) \<and> i < length (elts q)"
  proof cases
    case free
    with assms(1) show ?thesis
      by (auto simp: pool_wf_def pool_active_def pool_elt_at_index_def bitmap_simps)
  next
    case grow
    with assms(1) show ?thesis
      by (auto simp: pool_wf_def pool_active_def pool_elt_at_index_def nth_append less_Suc_eq)
  qed
  then show "pool_wf q" "i \<notin> pool_active p" "pool_active q = insert i (pool_active p)"
    "\<And>j. j \<in> pool_active p \<Longrightarrow> pool_elt_at_index q j = pool_elt_at_index p j" "i < length (elts q)"
    by auto
qed

lemma pool_get_some: "max_elts p = 0 \<Longrightarrow> \<exists>i q. pool_get z p = Some (i, q)"
  by (auto simp: pool_get_def Let_def)

lemma pool_get_max_elts: "pool_get z p = Some (i, q) \<Longrightarrow> max_elts q = max_elts p"
  by (auto simp: pool_get_def Let_def split: if_splits)

lemma pool_put_wf:
  assumes "pool_wf p" and "i \<in> pool_active p"
  shows "pool_wf (pool_put_index p i)"
    and "pool_active (pool_put_index p i) = pool_active p - {i}"
    and "pool_elt_at_index (pool_put_index p i) j = pool_elt_at_index p j"
  using assms
  by (auto simp: pool_wf_def pool_active_def pool_put_index_def pool_elt_at_index_def bitmap_simps)

lemma pool_write_wf:
  shows "pool_wf (pool_write p i x) = pool_wf p"
    and "pool_active (pool_write p i x) = pool_active p"
    and "i \<in> pool_active p \<Longrightarrow>
         pool_elt_at_index (pool_write p i x) j = (if j = i then x else pool_elt_at_index p j)"
  by (auto simp: pool_wf_def pool_active_def pool_write_def pool_elt_at_index_def)

lemma pool_put_get:
  assumes "pool_wf p" and "i \<in> pool_active p"
  shows "\<exists>q. pool_get z (pool_put_index p i) = Some (i, q) \<and> pool_active q = pool_active p \<and>
    (\<forall>j. pool_elt_at_index q j = pool_elt_at_index p j)"
  using assms
  by (auto simp: pool_get_def pool_put_index_def Let_def pool_active_def pool_elt_at_index_def)

subsection \<open>Fixed-size pools, reservation, duplication\<close>

lemma get_init_fixed: "clib_bitmap_get (free_bitmap (pool_init_fixed z n)) i \<longleftrightarrow> i < n"
proof -
  define q r where "q = n div 64" and "r = n mod 64"
  define b where "b = set_words (clib_bitmap_alloc n) 0 q (NOT 0)"
  have n: "n = q * 64 + r" "r < 64" by (simp_all add: q_def r_def)
  have len: "length b = (if r = 0 then q else q + 1)"
    using n by (auto simp: b_def clib_bitmap_alloc_def)
  have w: "word_at b k = (if k < q then NOT 0 else 0)" for k
    using n by (subst b_def, subst word_at_set_words)
      (auto simp: clib_bitmap_alloc_def word_at_def)
  have wi: "word_at (if r \<noteq> 0 then b[q := pow2_mask r] else b) k =
      (if k < q then NOT 0 else if k = q then pow2_mask r else 0)" for k
    using len by (auto simp: word_at_update w pow2_mask_def)
  define iq ir where "iq = i div 64" and "ir = i mod 64"
  have i: "i = iq * 64 + ir" "ir < 64" by (simp_all add: iq_def ir_def)
  have "clib_bitmap_get (free_bitmap (pool_init_fixed z n)) i \<longleftrightarrow>
      bit (word_at (if r \<noteq> 0 then b[q := pow2_mask r] else b) iq) ir"
    by (simp add: pool_init_fixed_def Let_def get_word_at iq_def ir_def b_def q_def r_def)
  also have "\<dots> \<longleftrightarrow> iq < q \<or> iq = q \<and> ir < r"
    unfolding wi using i(2) n(2) by (auto simp: bit_pow2_mask bit_not_iff)
  also have "\<dots> \<longleftrightarrow> i < n"
    using i n by (cases iq q rule: linorder_cases) linarith+
  finally show ?thesis .
qed

lemma pool_init_fixed_wf:
  shows "pool_wf (pool_init_fixed z n)" and "pool_active (pool_init_fixed z n) = {}"
proof -
  have inj: "inj_on (\<lambda>i. (n - 1) - i) {0..<n}" by (auto simp: inj_on_def)
  have "(\<lambda>i. (n - 1) - i) ` {0..<n} = {0..<n}"
  proof (intro equalityI subsetI)
    fix x assume "x \<in> {0..<n}"
    then have "x = (n - 1) - (n - 1 - x)" "n - 1 - x \<in> {0..<n}" by auto
    then show "x \<in> (\<lambda>i. (n - 1) - i) ` {0..<n}" by blast
  qed auto
  then have free: "set (free_indices (pool_init_fixed z n)) = {0..<n}"
    by (simp add: pool_init_fixed_def Let_def)
  with inj show "pool_wf (pool_init_fixed z n)" "pool_active (pool_init_fixed z n) = {}"
    using get_init_fixed [of z n]
    by (auto simp: pool_wf_def pool_active_def pool_init_fixed_def Let_def distinct_map)
qed

lemma pool_alloc_wf:
  assumes "pool_wf p" and "pool_alloc n p = Some q"
  shows "pool_wf q" and "pool_active q = pool_active p" and "elts q = elts p"
  using assms
  by (auto simp: pool_alloc_def pool_wf_def pool_active_def Let_def get_validate split: if_splits)

lemma pool_dup_wf:
  assumes "pool_wf p" and "pool_dup p = Some q"
  shows "pool_wf q" and "pool_active q = pool_active p"
    and "i \<in> pool_active p \<Longrightarrow> pool_elt_at_index q i = pool_elt_at_index p i"
  using assms
  by (auto simp: pool_dup_def pool_wf_def pool_active_def pool_elt_at_index_def pool_null_def
      get_word_at word_at_def split: if_splits)

subsection \<open>Iteration\<close>

lemma least_from_active:
  assumes "pool_wf p" and "least_from (\<lambda>k. \<not> clib_bitmap_get (free_bitmap p) k) i n"
  shows "n < length (elts p) \<Longrightarrow> n \<in> pool_active p"
    and "k \<in> pool_active p \<Longrightarrow> i \<le> k \<Longrightarrow> n \<le> k" and "i \<le> n"
proof -
  show "n < length (elts p) \<Longrightarrow> n \<in> pool_active p" and "i \<le> n"
    using assms by (auto simp: least_from_def pool_wf_def pool_active_def)
  assume k: "k \<in> pool_active p" "i \<le> k"
  have "\<not> clib_bitmap_get (free_bitmap p) k"
    using assms(1) k(1) by (simp add: pool_wf_def pool_active_def)
  with assms(2) k(2) show "n \<le> k"
    by (auto simp: least_from_def not_le [symmetric])
qed

lemma pool_foreach_from_spec:
  assumes "pool_wf p" and "i < length (elts p) \<Longrightarrow> i \<in> pool_active p"
  shows "set (pool_foreach_from p i) = {j \<in> pool_active p. i \<le> j} \<and>
    sorted_wrt (<) (pool_foreach_from p i)"
  using assms
proof (induction p i rule: pool_foreach_from.induct)
  case (1 p i)
  define n where "n = pool_get_next_index p i"
  note nxt = least_from_active
    [OF "1.prems"(1) next_clear_spec [of _ "i + 1"], folded pool_get_next_index_def n_def]
  note step = pool_foreach_from.simps [of p i]
  show ?case
  proof (cases "i < length (elts p)")
    case True
    with "1.IH" [OF True "1.prems"(1)] nxt(1)
    have "set (pool_foreach_from p n) = {j \<in> pool_active p. n \<le> j}"
      "sorted_wrt (<) (pool_foreach_from p n)" by (simp_all add: n_def)
    moreover have "{j \<in> pool_active p. i \<le> j} = insert i {j \<in> pool_active p. n \<le> j}"
    proof -
      have "i \<le> j \<longleftrightarrow> j = i \<or> n \<le> j" if "j \<in> pool_active p" for j
        using nxt(2) [OF that] nxt(3) by linarith
      then show ?thesis using True "1.prems"(2) by blast
    qed
    ultimately show ?thesis
      using True nxt(3)
      by (simp add: step n_def [symmetric])
  next
    case False
    then show ?thesis by (auto simp: step pool_active_def)
  qed
qed

lemma pool_foreach_spec:
  assumes "pool_wf p"
  shows "pool_foreach p = sorted_list_of_set (pool_active p)"
proof -
  define f where "f = pool_get_first_index p"
  note first = least_from_active
    [OF assms first_clear_spec, folded pool_get_first_index_def f_def]
  have "set (pool_foreach p) = pool_active p \<and> sorted_wrt (<) (pool_foreach p)"
    using pool_foreach_from_spec [OF assms, of f] first by (auto simp: pool_foreach_def f_def)
  then show ?thesis
    by (metis finite_pool_active sorted_list_of_set.idem_if_sorted_distinct strict_sorted_iff)
qed

lemma pool_flush_fold:
  assumes "pool_wf p" and "distinct is" and "set is \<subseteq> pool_active p"
  shows "let (q, t) = fold (\<lambda>i (p, s). (pool_put_index p i, body (pool_elt_at_index p i) s)) is (p, s)
    in pool_wf q \<and> pool_active q = pool_active p - set is \<and>
       t = fold (\<lambda>i. body (pool_elt_at_index p i)) is s"
  using assms
proof (induction "is" arbitrary: p s)
  case (Cons i "is")
  then have i: "i \<in> pool_active p" by simp
  note put = pool_put_wf [OF Cons.prems(1) i]
  from Cons.prems put have "set is \<subseteq> pool_active (pool_put_index p i)" by auto
  with Cons.IH [OF put(1), of "body (pool_elt_at_index p i) s"] Cons.prems(2) put(2,3)
  show ?case by (auto simp: Let_def split: prod.splits)
qed simp

lemma pool_flush_spec:
  assumes "pool_wf p" and "pool_flush body p s = (q, t)"
  shows "pool_wf q" and "pool_active q = {}"
    and "t = fold (\<lambda>i. body (pool_elt_at_index p i)) (sorted_list_of_set (pool_active p)) s"
  using pool_flush_fold [OF assms(1), of "pool_foreach p" body s] assms
  by (simp_all add: pool_foreach_spec pool_flush_def)

lemma pool_next_index_spec:
  assumes "pool_wf p"
  shows "pool_next_index p i =
    (if \<exists>k\<in>pool_active p. i < k then Some (LEAST k. k \<in> pool_active p \<and> i < k) else None)"
proof -
  define n where "n = clib_bitmap_next_clear (free_bitmap p) (i + 1)"
  note nxt = least_from_active [OF assms next_clear_spec [of _ "i + 1"], folded n_def]
  have val: "pool_next_index p i = (if n < length (elts p) then Some n else None)"
    using nxt(3) unfolding pool_next_index_def Let_def n_def [symmetric] by auto
  show ?thesis
  proof (cases "n < length (elts p)")
    case True
    with nxt have "(LEAST k. k \<in> pool_active p \<and> i < k) = n"
      by (intro Least_equality) (auto simp: Suc_le_eq)
    with True val nxt(1,3) show ?thesis by (auto simp: Suc_le_eq)
  next
    case False
    have "\<not> (\<exists>k\<in>pool_active p. i < k)"
    proof
      assume "\<exists>k\<in>pool_active p. i < k"
      then obtain k where "k \<in> pool_active p" "i < k" by blast
      with nxt(2) [of k] False show "False" by (simp add: pool_active_def)
    qed
    with val False show ?thesis by simp
  qed
qed

subsection \<open>The interface the clients use\<close>

locale pool_interface =
  fixes invar :: "'p \<Rightarrow> bool"
    and active :: "'p \<Rightarrow> nat set"
    and elt :: "'p \<Rightarrow> nat \<Rightarrow> 'a"
    and get :: "'a \<Rightarrow> 'p \<Rightarrow> (nat \<times> 'p) option"
    and put :: "'p \<Rightarrow> nat \<Rightarrow> 'p"
    and wr :: "'p \<Rightarrow> nat \<Rightarrow> 'a \<Rightarrow> 'p"
  assumes get_invar: "invar p \<Longrightarrow> get z p = Some (i, q) \<Longrightarrow> invar q"
    and get_new: "invar p \<Longrightarrow> get z p = Some (i, q) \<Longrightarrow> i \<notin> active p"
    and get_active: "invar p \<Longrightarrow> get z p = Some (i, q) \<Longrightarrow> active q = insert i (active p)"
    and get_elt: "invar p \<Longrightarrow> get z p = Some (i, q) \<Longrightarrow> j \<in> active p \<Longrightarrow> elt q j = elt p j"
    and put_invar: "invar p \<Longrightarrow> i \<in> active p \<Longrightarrow> invar (put p i)"
    and put_active: "invar p \<Longrightarrow> i \<in> active p \<Longrightarrow> active (put p i) = active p - {i}"
    and put_elt: "invar p \<Longrightarrow> i \<in> active p \<Longrightarrow> j \<in> active p - {i} \<Longrightarrow> elt (put p i) j = elt p j"
    and wr_invar: "invar p \<Longrightarrow> i \<in> active p \<Longrightarrow> invar (wr p i x)"
    and wr_active: "invar p \<Longrightarrow> i \<in> active p \<Longrightarrow> active (wr p i x) = active p"
    and wr_elt: "invar p \<Longrightarrow> i \<in> active p \<Longrightarrow> elt (wr p i x) j = (if j = i then x else elt p j)"
begin

definition view :: "'p \<Rightarrow> nat \<rightharpoonup> 'a" where
  "view p i = (if i \<in> active p then Some (elt p i) else None)"

lemma view_get_wr:
  assumes "invar p" and "get z p = Some (i, q)"
  shows "view (wr q i x) = (view p)(i \<mapsto> x)" and "view p i = None" and "invar (wr q i x)"
proof -
  note g = get_invar [OF assms] get_new [OF assms] get_active [OF assms] get_elt [OF assms]
  then show "invar (wr q i x)" "view p i = None"
    by (auto simp: view_def wr_invar)
  show "view (wr q i x) = (view p)(i \<mapsto> x)"
    by (rule ext) (simp add: view_def wr_active wr_elt g)
qed

lemma view_put:
  assumes "invar p" and "i \<in> active p"
  shows "view (put p i) = (view p)(i := None)"
  by (rule ext) (simp add: view_def put_active put_elt assms)

lemma view_wr:
  assumes "invar p" and "i \<in> active p"
  shows "view (wr p i x) = (view p)(i \<mapsto> x)"
  by (rule ext) (simp add: view_def wr_active wr_elt assms)

lemma active_dom: "active p = dom (view p)"
  by (auto simp: view_def dom_def)

end

text \<open>The finite map a pool represents, and the interpretation on the model.\<close>

definition pool_map :: "'a pool \<Rightarrow> nat \<rightharpoonup> 'a" where
  "pool_map p i = (if i \<in> pool_active p then Some (pool_elt_at_index p i) else None)"

interpretation vpp_pool: pool_interface pool_wf pool_active pool_elt_at_index pool_get
    pool_put_index pool_write
  by unfold_locales (simp_all add: pool_get_wf pool_put_wf pool_write_wf)

lemma view_pool_map: "vpp_pool.view p = pool_map p"
  by (auto simp: vpp_pool.view_def pool_map_def)

lemmas pool_map_get_write = vpp_pool.view_get_wr [unfolded view_pool_map]
lemmas pool_map_put = vpp_pool.view_put [unfolded view_pool_map]
lemmas pool_map_write = vpp_pool.view_wr [unfolded view_pool_map]
lemmas pool_active_dom = vpp_pool.active_dom [unfolded view_pool_map]

lemma pool_map_null [simp]: "pool_map pool_null = Map.empty"
  by (auto simp: pool_map_def)

subsection \<open>Correctness of the component\<close>

text \<open>C28. A pool is a finite map: allocating and initialising an element adds a binding at an
  index that was not in use, a write updates one binding, releasing an index removes one
  binding, and each of them keeps the pool well-formed.\<close>

theorem pool_is_map:
  assumes "pool_wf p"
  shows "(pool_get z p = Some (i, q) \<longrightarrow>
      pool_map p i = None \<and> pool_map (pool_write q i x) = (pool_map p)(i \<mapsto> x) \<and>
      pool_wf (pool_write q i x)) \<and>
    (j \<in> dom (pool_map p) \<longrightarrow>
      pool_map (pool_write p j x) = (pool_map p)(j \<mapsto> x) \<and>
      pool_map (pool_put_index p j) = (pool_map p)(j := None) \<and> pool_wf (pool_put_index p j))"
  using pool_map_get_write [OF assms] pool_map_put [OF assms] pool_map_write [OF assms]
    pool_put_wf(1) [OF assms]
  by (simp add: pool_active_dom)

theorem pool_is_map_witness:
  "\<exists>q. pool_wf (pool_null :: nat pool) \<and> pool_get 0 (pool_null :: nat pool) = Some (0, q) \<and>
     pool_map (pool_write q 0 7) = [0 \<mapsto> 7] \<and>
     pool_map (pool_put_index (pool_write q 0 7) 0) = Map.empty"
proof -
  obtain q where q: "pool_get 0 (pool_null :: nat pool) = Some (0, q)"
    by (simp add: pool_get_def pool_null_def)
  with pool_is_map [of "pool_null :: nat pool" 0 0 q 7 0]
  have w: "pool_map (pool_write q 0 7) = [0 \<mapsto> 7]" "pool_wf (pool_write q 0 7)" by simp_all
  with q pool_is_map [of "pool_write q 0 7" 0 0 q 7 0] show ?thesis by auto
qed

text \<open>C29. \<open>pool_foreach\<close> visits the active indices in ascending order, each exactly once, and
  \<open>pool_elts\<close> is their number.\<close>

theorem pool_foreach_visits:
  assumes "pool_wf p"
  shows "pool_foreach p = sorted_list_of_set (pool_active p) \<and>
    length (pool_foreach p) = pool_elts p"
  by (simp add: pool_foreach_spec [OF assms] pool_elts_card [OF assms])

theorem pool_foreach_visits_witness:
  "pool_foreach (pool_init_fixed (0 :: nat) 3) = []"
  using pool_foreach_visits [OF pool_init_fixed_wf(1), of "0 :: nat" 3]
  by (simp add: pool_init_fixed_wf(2))

text \<open>C30. A fixed-size pool fails to allocate exactly when all its elements are in use; a
  growing pool never fails.\<close>

theorem pool_get_fails:
  assumes "pool_wf p"
  shows "pool_get z p = None \<longleftrightarrow> max_elts p \<noteq> 0 \<and> pool_elts p = max_elts p"
proof -
  have "length (free_indices p) \<le> length (elts p)"
    using assms card_mono [of "{..<length (elts p)}" "set (free_indices p)"]
    by (auto simp: pool_wf_def distinct_card)
  with assms show ?thesis
    by (cases "free_indices p") (auto simp: pool_get_def pool_elts_def Let_def pool_wf_def)
qed

theorem pool_get_fails_witness:
  "pool_get 0 (pool_init_fixed (0 :: nat) 3) \<noteq> None"
  using pool_get_fails [OF pool_init_fixed_wf(1), of 0 "0 :: nat" 3]
  by (auto simp: pool_elts_card pool_init_fixed_wf)

end
