(* ===== verification/Ip4_Address.thy ===== *)
theory Ip4_Address
  imports Vpp_Prelude
begin

text \<open>
  IPv4 addresses as \<^verbatim>\<open>vnet/ip/ip4_packet.h\<close> has them: a 32-bit word in network byte order that
  is also read as octets (\<open>as_u8\<close>) and as 16-bit halves (\<open>as_u16\<close>); the byte swaps of
  \<^verbatim>\<open>vppinfra/byte_order.h\<close> on a little-endian host; the prefix masks set up by
  \<open>ip4_lookup_init\<close>. \<open>addr_val\<close> is the numerical value of an address; the lemmas express
  octets, halves and masking as division and remainder of that value.
\<close>

unbundle bit_operations_syntax

type_synonym ip4_address = u32

definition clib_byte_swap_u16 :: "u16 \<Rightarrow> u16" where
  "clib_byte_swap_u16 x = push_bit 8 x OR drop_bit 8 x"

definition clib_byte_swap_u32 :: "u32 \<Rightarrow> u32" where
  "clib_byte_swap_u32 x =
     push_bit 24 x OR push_bit 8 (x AND 0xff00) OR (drop_bit 8 x AND 0xff00) OR drop_bit 24 x"

definition clib_host_to_net_u16 :: "u16 \<Rightarrow> u16" where
  "clib_host_to_net_u16 x = clib_byte_swap_u16 x"

definition clib_net_to_host_u16 :: "u16 \<Rightarrow> u16" where
  "clib_net_to_host_u16 x = clib_host_to_net_u16 x"

definition clib_host_to_net_u32 :: "u32 \<Rightarrow> u32" where
  "clib_host_to_net_u32 x = clib_byte_swap_u32 x"

definition clib_net_to_host_u32 :: "u32 \<Rightarrow> u32" where
  "clib_net_to_host_u32 x = clib_host_to_net_u32 x"

text \<open>The members \<open>as_u8[i]\<close> and \<open>as_u16[0]\<close> of the union, on a little-endian host.\<close>

definition as_u8 :: "ip4_address \<Rightarrow> nat \<Rightarrow> u8" where
  "as_u8 a i = ucast (drop_bit (8 * i) a)"

definition as_u16_0 :: "ip4_address \<Rightarrow> u16" where
  "as_u16_0 a = ucast a"

definition fib_masks :: "nat \<Rightarrow> u32" where
  "fib_masks i = clib_host_to_net_u32
     (if i < 32 then ucast (push_bit (32 - i) (pow2_mask i)) else NOT 0)"

definition ip4_destination_matches_route :: "ip4_address \<Rightarrow> ip4_address \<Rightarrow> nat \<Rightarrow> bool" where
  "ip4_destination_matches_route key dest dest_length \<longleftrightarrow>
     0 = ((key XOR dest) AND fib_masks dest_length)"

subsection \<open>Values\<close>

definition addr_val :: "ip4_address \<Rightarrow> nat" where
  "addr_val a = unat (clib_net_to_host_u32 a)"

lemma bit_ff00_u32:
  "bit (0xff00 :: u32) j \<longleftrightarrow> 8 \<le> j \<and> j < 16"
  "bit (0xff0000 :: u32) j \<longleftrightarrow> 16 \<le> j \<and> j < 24"
proof -
  have e: "(0xff00 :: u32) = push_bit 8 (mask 8)" "(0xff0000 :: u32) = push_bit 16 (mask 8)"
    by (simp_all add: mask_eq_exp_minus_1 push_bit_eq_mult)
  show "bit (0xff00 :: u32) j \<longleftrightarrow> 8 \<le> j \<and> j < 16" unfolding e by (auto simp: bit_simps)
  show "bit (0xff0000 :: u32) j \<longleftrightarrow> 16 \<le> j \<and> j < 24" unfolding e by (auto simp: bit_simps)
qed

lemma bit_byte_swap_u32_octet:
  assumes "r < 8" and "q < 4"
  shows "bit (clib_byte_swap_u32 x) (8 * q + r) \<longleftrightarrow> bit x (8 * (3 - q) + r)"
proof -
  have "q = 0 \<or> q = 1 \<or> q = 2 \<or> q = 3" using assms(2) by linarith
  moreover have "\<not> bit x (r + 32)" "\<not> bit x (r + 40)" "\<not> bit x (r + 48)"
    using bit_imp_le_length [of x] by fastforce+
  ultimately show ?thesis
    using assms(1)
    by (elim disjE) (auto simp: clib_byte_swap_u32_def bit_simps bit_ff00_u32 ac_simps
        simp del: bit_numeral_word_iff)
qed

lemma bit_byte_swap_u32:
  "bit (clib_byte_swap_u32 x) j \<longleftrightarrow> j < 32 \<and> bit x (8 * (3 - j div 8) + j mod 8)"
proof (cases "j < 32")
  case True
  then have "j mod 8 < 8" "j div 8 < 4" by simp_all
  from bit_byte_swap_u32_octet [OF this, of x] True show ?thesis by simp
next
  case False
  then show ?thesis using bit_imp_le_length [of "clib_byte_swap_u32 x" j] by auto
qed

lemma byte_swap_u32_swap [simp]: "clib_byte_swap_u32 (clib_byte_swap_u32 x) = x"
proof (rule bit_word_eqI)
  fix j assume "j < LENGTH(32)"
  then have j: "j < 32" by simp
  define q r where "q = j div 8" and "r = j mod 8"
  have jq: "j = 8 * q + r" "r < 8" by (simp_all add: q_def r_def)
  with j have q: "q \<le> 3" by linarith
  have "(8 * (3 - q) + r) div 8 = 3 - q" "(8 * (3 - q) + r) mod 8 = r" using jq(2) by simp_all
  moreover have "8 * (3 - q) + r < 32" using q jq(2) by linarith
  ultimately show "bit (clib_byte_swap_u32 (clib_byte_swap_u32 x)) j = bit x j"
    using j q jq by (simp add: bit_byte_swap_u32 q_def [symmetric] r_def [symmetric])
qed

lemma bit_byte_swap_u16:
  "bit (clib_byte_swap_u16 x) j \<longleftrightarrow> j < 16 \<and> bit x (if j < 8 then j + 8 else j - 8)"
proof -
  have "\<not> bit x (j + 8)" if "8 \<le> j" using bit_imp_le_length [of x "j + 8"] that by auto
  then show ?thesis by (auto simp: clib_byte_swap_u16_def bit_simps ac_simps)
qed

lemma byte_swap_u16_swap [simp]: "clib_byte_swap_u16 (clib_byte_swap_u16 x) = x"
  by (rule bit_word_eqI) (auto simp: bit_byte_swap_u16)

lemma byte_swap_u32_and:
  "clib_byte_swap_u32 (x AND y) = clib_byte_swap_u32 x AND clib_byte_swap_u32 y"
  by (rule bit_word_eqI) (auto simp: bit_byte_swap_u32 bit_and_iff)

lemma byte_swap_u32_xor:
  "clib_byte_swap_u32 (x XOR y) = clib_byte_swap_u32 x XOR clib_byte_swap_u32 y"
  by (rule bit_word_eqI) (auto simp: bit_byte_swap_u32 bit_xor_iff)

lemma byte_swap_u32_inj: "clib_byte_swap_u32 x = clib_byte_swap_u32 y \<longleftrightarrow> x = y"
  by (metis byte_swap_u32_swap)

lemmas byte_order_defs = clib_net_to_host_u32_def clib_host_to_net_u32_def
  clib_net_to_host_u16_def clib_host_to_net_u16_def

lemma addr_val_less [simp]: "addr_val a < 2 ^ 32"
  using unsigned_less [of "clib_net_to_host_u32 a", where 'a = nat] by (simp add: addr_val_def)

lemma addr_val_inj: "addr_val a = addr_val b \<longleftrightarrow> a = b"
  by (simp add: addr_val_def byte_order_defs byte_swap_u32_inj flip: word_unat_eq_iff)

lemma addr_val_of_nat: "x < 2 ^ 32 \<Longrightarrow> addr_val (clib_host_to_net_u32 (of_nat x)) = x"
  by (simp add: addr_val_def byte_order_defs unat_of_nat)

lemma addr_val_div: "addr_val a div 2 ^ n = unat (drop_bit n (clib_byte_swap_u32 a))"
proof -
  have "unat (drop_bit n (clib_byte_swap_u32 a)) = drop_bit n (unat (clib_byte_swap_u32 a))"
    by (rule bit_eqI) (auto simp: bit_simps dest: bit_imp_le_length)
  then show ?thesis by (simp add: addr_val_def byte_order_defs drop_bit_eq_div)
qed

lemma as_u8_val:
  assumes "i < 4"
  shows "unat (as_u8 a i) = addr_val a div 256 ^ (3 - i) mod 256"
proof -
  have "(256 :: nat) ^ (3 - i) = 2 ^ (8 * (3 - i))" by (simp add: power_mult)
  then have "addr_val a div 256 ^ (3 - i) mod 256 =
      take_bit 8 (unat (drop_bit (8 * (3 - i)) (clib_byte_swap_u32 a)))"
    by (simp add: addr_val_div take_bit_eq_mod)
  also have "\<dots> = unat (as_u8 a i)"
  proof (rule bit_eqI)
    fix n
    show "bit (take_bit 8 (unat (drop_bit (8 * (3 - i)) (clib_byte_swap_u32 a)))) n =
        bit (unat (as_u8 a i)) n"
      using assms bit_byte_swap_u32_octet [of n "3 - i" a]
      by (cases "n < 8") (auto simp: as_u8_def bit_simps ac_simps)
  qed
  finally show ?thesis by simp
qed

lemma as_u16_val: "unat (clib_net_to_host_u16 (as_u16_0 a)) = addr_val a div 65536"
proof -
  have "addr_val a div 65536 = unat (drop_bit 16 (clib_byte_swap_u32 a))"
    using addr_val_div [of a 16] by simp
  also have "\<dots> = unat (clib_net_to_host_u16 (as_u16_0 a))"
  proof (rule bit_eqI)
    fix n :: nat
    consider "n < 8" | "8 \<le> n" "n < 16" | "16 \<le> n" by linarith
    then show "bit (unat (drop_bit 16 (clib_byte_swap_u32 a))) n =
        bit (unat (clib_net_to_host_u16 (as_u16_0 a))) n"
      using bit_byte_swap_u32_octet [of n 2 a] bit_byte_swap_u32_octet [of "n - 8" 3 a]
        bit_imp_le_length [of "clib_byte_swap_u32 a" "16 + n"]
      by cases (auto simp: as_u16_0_def byte_order_defs bit_simps bit_byte_swap_u16 ac_simps)
  qed
  finally show ?thesis by simp
qed

lemma bit_fib_masks_host:
  assumes "n \<le> 32"
  shows "bit (clib_byte_swap_u32 (fib_masks n)) j \<longleftrightarrow> 32 - n \<le> j \<and> j < 32"
  using assms
  by (auto simp: fib_masks_def byte_order_defs bit_simps bit_pow2_mask)

lemma addr_val_mask:
  assumes "n \<le> 32"
  shows "addr_val (a AND fib_masks n) = addr_val a div 2 ^ (32 - n) * 2 ^ (32 - n)"
proof -
  have "addr_val (a AND fib_masks n) = push_bit (32 - n) (drop_bit (32 - n) (addr_val a))"
    using assms bit_imp_le_length [of "clib_byte_swap_u32 a"]
    by (auto simp: addr_val_def byte_order_defs byte_swap_u32_and bit_eq_iff bit_simps
        bit_fib_masks_host)
  then show ?thesis by (simp add: push_bit_eq_mult drop_bit_eq_div)
qed

lemma matches_route_iff:
  assumes "n \<le> 32"
  shows "ip4_destination_matches_route a b n \<longleftrightarrow>
    addr_val a div 2 ^ (32 - n) = addr_val b div 2 ^ (32 - n)"
proof -
  have "ip4_destination_matches_route a b n \<longleftrightarrow> a AND fib_masks n = b AND fib_masks n"
    by (auto simp: ip4_destination_matches_route_def bit_eq_iff bit_simps)
  also have "\<dots> \<longleftrightarrow> addr_val (a AND fib_masks n) = addr_val (b AND fib_masks n)"
    by (simp add: addr_val_inj)
  finally show ?thesis by (simp add: addr_val_mask assms)
qed

end
