(* ===== verification/Lpm.thy ===== *)
theory Lpm
  imports Ip4_Address
begin

text \<open>
  The specification of IPv4 forwarding: a route table is a map from prefixes to adjacency
  (load-balance) indices, and a lookup returns the longest matching prefix. A prefix of length
  \<open>n\<close> is the number formed by the \<open>n\<close> leading bits of its addresses. Index 0 is the miss
  adjacency, which an address without any matching route resolves to.

  \<open>lpm_table\<close> is the contract between the forwarding tables and their users: what a table
  does for a sequence of route updates is proved once here, for every implementation.
\<close>

type_synonym prefix = "nat \<times> nat"
type_synonym 'r routes = "prefix \<rightharpoonup> 'r"

definition prefix_of :: "nat \<Rightarrow> nat \<Rightarrow> nat" where
  "prefix_of n x = x div 2 ^ (32 - n)"

primrec lpm :: "'r routes \<Rightarrow> nat \<Rightarrow> nat \<Rightarrow> (nat \<times> 'r) option" where
  "lpm R 0 x = map_option (Pair 0) (R (0, prefix_of 0 x))"
| "lpm R (Suc n) x =
     (case R (Suc n, prefix_of (Suc n) x) of Some a \<Rightarrow> Some (Suc n, a) | None \<Rightarrow> lpm R n x)"

definition or_miss :: "(nat \<times> u32) option \<Rightarrow> nat \<times> u32" where
  "or_miss r = (case r of None \<Rightarrow> (0, 0) | Some r \<Rightarrow> r)"

definition best :: "u32 routes \<Rightarrow> nat \<Rightarrow> nat \<times> u32" where
  "best R x = or_miss (lpm R 32 x)"

text \<open>The covering route of a prefix: the longest match among the strictly shorter ones.\<close>

definition cover :: "u32 routes \<Rightarrow> nat \<Rightarrow> nat \<Rightarrow> nat \<times> u32" where
  "cover R n p = (if n = 0 then (0, 0) else or_miss (lpm R (n - 1) (p * 2 ^ (32 - n))))"

subsection \<open>Longest match\<close>

lemma lpm_Some_iff:
  "lpm R n x = Some (m, b) \<longleftrightarrow>
     m \<le> n \<and> R (m, prefix_of m x) = Some b \<and> (\<forall>l. m < l \<and> l \<le> n \<longrightarrow> R (l, prefix_of l x) = None)"
proof (induction n)
  case (Suc n)
  show ?case
  proof (cases "R (Suc n, prefix_of (Suc n) x)")
    case None
    then show ?thesis using Suc.IH by (auto simp: le_Suc_eq)
  next
    case (Some a)
    then show ?thesis by (auto simp: le_Suc_eq)
  qed
qed (auto simp: prefix_of_def)

lemma lpm_None_iff: "lpm R n x = None \<longleftrightarrow> (\<forall>l\<le>n. R (l, prefix_of l x) = None)"
  by (induction n) (auto simp: le_Suc_eq split: option.splits)

lemma prefix_of_mono:
  assumes "prefix_of n x = prefix_of n y" and "m \<le> n" and "n \<le> 32"
  shows "prefix_of m x = prefix_of m y"
proof -
  have "(2 :: nat) ^ (32 - m) = 2 ^ (32 - n) * 2 ^ (n - m)"
    using assms(2,3) by (simp flip: power_add)
  then show ?thesis using assms(1) by (simp add: prefix_of_def div_mult2_eq)
qed

lemma prefix_of_self: "n \<le> 32 \<Longrightarrow> prefix_of n (p * 2 ^ (32 - n)) = p"
  by (simp add: prefix_of_def)

lemma lpm_cong: "prefix_of n x = prefix_of n y \<Longrightarrow> n \<le> 32 \<Longrightarrow> lpm R n x = lpm R n y"
proof (induction n)
  case 0
  then show ?case by simp
next
  case (Suc n)
  then have "lpm R n x = lpm R n y"
    using prefix_of_mono [of "Suc n" x y n] by simp
  with Suc.prems show ?case by (simp split: option.split)
qed

lemma lpm_add:
  assumes "l \<le> n"
  shows "lpm (R((l, p) \<mapsto> a)) n x =
    (if prefix_of l x = p
     then case lpm R n x of None \<Rightarrow> Some (l, a) | Some (m, b) \<Rightarrow> if m \<le> l then Some (l, a) else Some (m, b)
     else lpm R n x)"
proof (cases "prefix_of l x = p")
  case match: True
  show ?thesis
  proof (cases "lpm R n x")
    case None
    then have "lpm (R((l, p) \<mapsto> a)) n x = Some (l, a)"
      using match assms by (auto simp: lpm_Some_iff lpm_None_iff)
    with None match show ?thesis by simp
  next
    case (Some r)
    then obtain m b where r: "lpm R n x = Some (m, b)" by (cases r) auto
    then have "lpm (R((l, p) \<mapsto> a)) n x = (if m \<le> l then Some (l, a) else Some (m, b))"
      using match assms by (auto simp: lpm_Some_iff)
    with r match show ?thesis by simp
  qed
next
  case False
  have "lpm (R((l, p) \<mapsto> a)) k x = lpm R k x" for k
    using False by (induction k) (auto split: option.split)
  with False show ?thesis by simp
qed

lemma best_add:
  assumes "l \<le> 32"
  shows "best (R((l, p) \<mapsto> a)) x =
    (if prefix_of l x = p \<and> fst (best R x) \<le> l then (l, a) else best R x)"
  using assms by (auto simp: best_def or_miss_def lpm_add split: option.splits)

text \<open>Within a block of \<open>2 ^ (32 - n)\<close> addresses all lookups that resolve to a route of length at
  most \<open>n\<close> resolve to the same one.\<close>

lemma best_uniform:
  assumes "prefix_of n x = prefix_of n y" "n \<le> 32"
    and "fst (best R x) \<le> n" "fst (best R y) \<le> n"
  shows "best R x = best R y"
proof -
  have down: "lpm R 32 z = lpm R n z" if "fst (best R z) \<le> n" for z
  proof (cases "lpm R 32 z")
    case None
    with assms(2) have "lpm R n z = None" by (simp add: lpm_None_iff)
    with None show ?thesis by simp
  next
    case (Some r)
    with that assms(2) have "lpm R n z = Some r"
      by (cases r) (auto simp: best_def or_miss_def lpm_Some_iff)
    with Some show ?thesis by simp
  qed
  show ?thesis
    unfolding best_def down [OF assms(3)] down [OF assms(4)] lpm_cong [OF assms(1,2), of R] ..
qed

text \<open>Every route has its own index, different from the miss index.\<close>

definition own_index :: "u32 routes \<Rightarrow> prefix \<Rightarrow> u32 \<Rightarrow> bool" where
  "own_index R k a \<longleftrightarrow> R k = Some a \<and> a \<noteq> 0 \<and> (\<forall>k'. R k' = Some a \<longrightarrow> k' = k)"

lemma own_indexD:
  assumes "own_index R k a"
  shows "R k = Some a" and "a \<noteq> 0" and "R k' = Some a \<Longrightarrow> k' = k"
  using assms unfolding own_index_def by blast+

lemma best_own_index:
  assumes own: "own_index R (l, p) a" and a: "snd (best R x) = a"
  shows "prefix_of l x = p" and "lpm R 32 x = Some (l, a)"
proof -
  have "lpm R 32 x \<noteq> None"
    using a own_indexD(2) [OF own] by (auto simp: best_def or_miss_def split: option.splits)
  then obtain m where m: "lpm R 32 x = Some (m, a)"
    using a by (auto simp: best_def or_miss_def)
  then have "R (m, prefix_of m x) = Some a" by (simp add: lpm_Some_iff)
  from own_indexD(3) [OF own this] m show "prefix_of l x = p" "lpm R 32 x = Some (l, a)" by auto
qed

lemma lpm_del:
  assumes "lpm R 32 x \<noteq> Some (l, a)" and "R (l, p) = Some a" and "l \<le> 32"
  shows "lpm (R((l, p) := None)) 32 x = lpm R 32 x"
proof (cases "lpm R 32 x")
  case None
  then have "lpm (R((l, p) := None)) 32 x = None" by (simp add: lpm_None_iff)
  with None show ?thesis by simp
next
  case (Some r)
  then obtain m b where r: "lpm R 32 x = Some (m, b)" by (cases r) auto
  with assms have "(m, prefix_of m x) \<noteq> (l, p)" by (auto simp: lpm_Some_iff)
  with r have "lpm (R((l, p) := None)) 32 x = Some (m, b)" by (auto simp: lpm_Some_iff)
  with r show ?thesis by simp
qed

lemma lpm_below:
  assumes "lpm R 32 x = Some (l, a)" and "prefix_of l x = p"
  shows "lpm (R((l, p) := None)) 32 x = (if l = 0 then None else lpm R (l - 1) x)"
proof -
  have l: "l \<le> 32" "\<And>k. l < k \<Longrightarrow> k \<le> 32 \<Longrightarrow> R (k, prefix_of k x) = None"
    using assms by (auto simp: lpm_Some_iff)
  have above: "lpm (R((l, p) := None)) k x = lpm (R((l, p) := None)) l x" if "l \<le> k" "k \<le> 32" for k
    using that l(2)
  proof (induction k)
    case (Suc k)
    then show ?case by (cases "l = Suc k") auto
  qed simp
  have below: "lpm (R((l, p) := None)) k x = lpm R k x" if "k < l" for k
    using that by (induction k) (auto split: option.split)
  show ?thesis
    using above [of 32] l(1) below [of "l - 1"] assms(2) by (cases l) auto
qed

lemma best_del:
  assumes own: "own_index R (l, p) a" and l: "l \<le> 32"
  shows "best (R((l, p) := None)) x = (if snd (best R x) = a then cover R l p else best R x)"
proof (cases "snd (best R x) = a")
  case True
  note b = best_own_index [OF own True]
  have "lpm R (l - 1) x = lpm R (l - 1) (p * 2 ^ (32 - l))" if "l \<noteq> 0"
  proof (rule lpm_cong)
    have "prefix_of l x = prefix_of l (p * 2 ^ (32 - l))" using b l by (simp add: prefix_of_self)
    then show "prefix_of (l - 1) x = prefix_of (l - 1) (p * 2 ^ (32 - l))"
      by (rule prefix_of_mono) (use l in auto)
  qed (use l in simp)
  then have "lpm (R((l, p) := None)) 32 x =
      (if l = 0 then None else lpm R (l - 1) (p * 2 ^ (32 - l)))"
    using lpm_below [OF b(2,1)] by simp
  with True show ?thesis by (simp add: best_def cover_def or_miss_def)
next
  case False
  then have "lpm R 32 x \<noteq> Some (l, a)" by (auto simp: best_def or_miss_def)
  with own l have "lpm (R((l, p) := None)) 32 x = lpm R 32 x"
    by (intro lpm_del own_indexD)
  with False show ?thesis by (simp add: best_def)
qed

text \<open>The cover of a prefix does not depend on the prefix itself.\<close>

lemma cover_upd: "cover (R((l, p) := x)) l q = cover R l q"
proof -
  have "n < l \<Longrightarrow> lpm (R((l, p) := x)) n y = lpm R n y" for n y
    by (induction n) (auto split: option.splits)
  then show ?thesis by (simp add: cover_def)
qed

lemma cover_less: "n \<noteq> 0 \<Longrightarrow> fst (cover R n p) < n"
  by (auto simp: cover_def or_miss_def lpm_Some_iff split: option.splits)

lemma best_le: "fst (best R x) \<le> 32"
  by (auto simp: best_def or_miss_def lpm_Some_iff split: option.splits)

lemma own_index_length:
  assumes "own_index R (l, p) a" and "best R x = (n, a)"
  shows "n = l"
  using best_own_index(2) [OF assms(1), of x] assms(2) by (auto simp: best_def or_miss_def)

subsection \<open>Route updates\<close>

text \<open>What the FIB asks of a forwarding table: set the index of a prefix, or remove a prefix; on
  removal it passes the current index of the prefix and its cover.\<close>

datatype route_update = Add_route ip4_address nat u32 | Del_route ip4_address nat

definition route_key :: "ip4_address \<Rightarrow> nat \<Rightarrow> prefix" where
  "route_key dst len = (len, prefix_of len (addr_val dst))"

primrec upd_routes :: "route_update \<Rightarrow> u32 routes \<Rightarrow> u32 routes" where
  "upd_routes (Add_route dst len adj) R = R(route_key dst len \<mapsto> adj)"
| "upd_routes (Del_route dst len) R = R(route_key dst len := None)"

primrec upd_ok :: "route_update \<Rightarrow> u32 routes \<Rightarrow> bool" where
  "upd_ok (Add_route dst len adj) R \<longleftrightarrow> len \<le> 32 \<and> unat adj < 2 ^ 31"
| "upd_ok (Del_route dst len) R \<longleftrightarrow> len \<le> 32 \<and>
     (\<exists>adj. own_index R (route_key dst len) adj \<and> unat adj < 2 ^ 31) \<and>
     unat (snd (cover R len (prefix_of len (addr_val dst)))) < 2 ^ 31"

primrec upds_ok :: "route_update list \<Rightarrow> u32 routes \<Rightarrow> bool" where
  "upds_ok [] R \<longleftrightarrow> True"
| "upds_ok (u # us) R \<longleftrightarrow> upd_ok u R \<and> upds_ok us (upd_routes u R)"

text \<open>One update on a table, and a sequence of them; the routes are those the FIB knows.\<close>

type_synonym 's table_add = "'s \<Rightarrow> ip4_address \<Rightarrow> nat \<Rightarrow> u32 \<Rightarrow> 's option"
type_synonym 's table_del = "'s \<Rightarrow> ip4_address \<Rightarrow> nat \<Rightarrow> u32 \<Rightarrow> nat \<Rightarrow> u32 \<Rightarrow> 's option"

primrec table_upd :: "'s table_add \<Rightarrow> 's table_del \<Rightarrow> route_update \<Rightarrow> u32 routes \<Rightarrow> 's \<Rightarrow> 's option" where
  "table_upd add del (Add_route dst len adj) R s = add s dst len adj"
| "table_upd add del (Del_route dst len) R s =
     (let c = cover R len (prefix_of len (addr_val dst))
      in del s dst len (the (R (route_key dst len))) (fst c) (snd c))"

primrec table_run :: "'s table_add \<Rightarrow> 's table_del \<Rightarrow> route_update list \<Rightarrow> u32 routes \<Rightarrow> 's \<Rightarrow> 's option" where
  "table_run add del [] R s = Some s"
| "table_run add del (u # us) R s =
     Option.bind (table_upd add del u R s) (table_run add del us (upd_routes u R))"

locale lpm_table =
  fixes rep :: "'s \<Rightarrow> u32 routes \<Rightarrow> bool"
    and room :: "nat \<Rightarrow> 's \<Rightarrow> bool"
    and add :: "'s table_add"
    and del :: "'s table_del"
    and lookup :: "'s \<Rightarrow> ip4_address \<Rightarrow> u32"
  assumes add_rep: "rep s R \<Longrightarrow> room (Suc n) s \<Longrightarrow> len \<le> 32 \<Longrightarrow> unat adj < 2 ^ 31 \<Longrightarrow>
      \<exists>s'. add s dst len adj = Some s' \<and> rep s' (R(route_key dst len \<mapsto> adj)) \<and> room n s'"
    and del_rep: "rep s R \<Longrightarrow> room n s \<Longrightarrow> len \<le> 32 \<Longrightarrow> own_index R (route_key dst len) adj \<Longrightarrow>
      unat adj < 2 ^ 31 \<Longrightarrow> cover R len (prefix_of len (addr_val dst)) = c \<Longrightarrow> unat (snd c) < 2 ^ 31 \<Longrightarrow>
      \<exists>s'. del s dst len adj (fst c) (snd c) = Some s' \<and> rep s' (R(route_key dst len := None)) \<and> room n s'"
    and room_mono: "room (Suc n) s \<Longrightarrow> room n s"
    and lookup_rep: "rep s R \<Longrightarrow> lookup s dst = snd (best R (addr_val dst))"
begin

lemma upd_rep:
  assumes "rep s R" "room (Suc n) s" "upd_ok u R"
  shows "\<exists>s'. table_upd add del u R s = Some s' \<and> rep s' (upd_routes u R) \<and> room n s'"
proof (cases u)
  case (Add_route dst len adj)
  with assms add_rep [OF assms(1,2)] show ?thesis by auto
next
  case (Del_route dst len)
  with assms(3) obtain adj where adj: "own_index R (route_key dst len) adj" "unat adj < 2 ^ 31"
    and l: "len \<le> 32" and c: "unat (snd (cover R len (prefix_of len (addr_val dst)))) < 2 ^ 31"
    by auto
  from del_rep [OF assms(1) room_mono [OF assms(2)] l adj refl c] own_indexD(1) [OF adj(1)]
  show ?thesis by (auto simp: Del_route Let_def)
qed

lemma run_rep_room:
  assumes "rep s R" "room (length us + n) s" "upds_ok us R"
  shows "\<exists>s'. table_run add del us R s = Some s' \<and> rep s' (fold upd_routes us R) \<and> room n s'"
  using assms
proof (induction us arbitrary: s R)
  case (Cons u us)
  then obtain s' where "table_upd add del u R s = Some s'" "rep s' (upd_routes u R)" "room (length us + n) s'"
    using upd_rep [OF Cons.prems(1)] by fastforce
  with Cons show ?case by simp
qed simp

lemma run_lookup:
  assumes "rep s R" "room (length us) s" "upds_ok us R"
  shows "\<exists>s'. table_run add del us R s = Some s' \<and>
    (\<forall>dst. lookup s' dst = snd (best (fold upd_routes us R) (addr_val dst)))"
  using run_rep_room [of s R us 0] assms lookup_rep by fastforce

end

end
