(* ===== verification/Mtrie_Tree.thy ===== *)
theory Mtrie_Tree
  imports Lpm
begin

text \<open>
  The multiway trie as a tree: a slot holds either a terminal leaf (prefix length and
  adjacency index) or a ply of 256 slots. The functions of this theory are the effect of
  route insertion and removal on such trees; the lemmas show that they turn the longest-match
  function of the old routes into that of the new ones. \<open>Mtrie\<close> shows that the plies in the
  pool implement these functions.
\<close>

datatype node = Lf nat u32 | Nd "nat \<Rightarrow> node"

text \<open>Octet \<open>k\<close> of an address, the most significant first.\<close>

definition oct :: "nat \<Rightarrow> nat \<Rightarrow> nat" where
  "oct k x = x div 256 ^ (3 - k) mod 256"

primrec lkn :: "node \<Rightarrow> nat \<Rightarrow> nat \<Rightarrow> nat \<times> u32" where
  "lkn (Lf n a) k x = (n, a)"
| "lkn (Nd f) k x = lkn (f (oct k x)) (Suc k) x"

text \<open>Slots of a ply at depth \<open>k\<close> that a prefix of length \<open>l\<close> with address \<open>q\<close> covers (or, when
  the prefix is longer than the slots' regions, the one slot that leads to it).\<close>

definition in_rng :: "nat \<Rightarrow> nat \<Rightarrow> nat \<Rightarrow> nat \<Rightarrow> bool" where
  "in_rng k l q i \<longleftrightarrow> oct k q \<le> i \<and> i < oct k q + 2 ^ min 8 (8 * Suc k - l)"

primrec fill_node :: "nat \<Rightarrow> u32 \<Rightarrow> node \<Rightarrow> node" where
  "fill_node l a (Lf n b) = (if n \<le> l then Lf l a else Lf n b)"
| "fill_node l a (Nd f) = Nd (\<lambda>i. fill_node l a (f i))"

primrec expand :: "node \<Rightarrow> nat \<Rightarrow> node" where
  "expand (Lf n b) = (\<lambda>_. Lf n b)"
| "expand (Nd g) = g"

function ins :: "nat \<Rightarrow> nat \<Rightarrow> nat \<Rightarrow> u32 \<Rightarrow> (nat \<Rightarrow> node) \<Rightarrow> nat \<Rightarrow> node" where
  "ins k l q a f =
     (if l \<le> 8 * Suc k then (\<lambda>i. if in_rng k l q i then fill_node l a (f i) else f i)
      else f(oct k q := Nd (ins (Suc k) l q a (expand (f (oct k q))))))"
  by pat_completeness auto
termination by (relation "measure (\<lambda>(k, l, q, a, f). l - 8 * k)") auto

declare ins.simps [simp del]

definition empty_at :: "nat \<Rightarrow> node \<Rightarrow> bool" where
  "empty_at k t = (case t of Lf n a \<Rightarrow> n \<le> 8 * k | Nd f \<Rightarrow> False)"

definition all_empty :: "nat \<Rightarrow> (nat \<Rightarrow> node) \<Rightarrow> bool" where
  "all_empty k f \<longleftrightarrow> (\<forall>i<256. empty_at k (f i))"

text \<open>Removal of the leaves with index \<open>a\<close> under the prefix, replaced by the cover \<open>c\<close>; a ply
  left without a leaf of its own is replaced by the cover.\<close>

primrec del_if :: "node \<Rightarrow> bool \<Rightarrow> nat \<Rightarrow> nat \<Rightarrow> u32 \<Rightarrow> nat \<times> u32 \<Rightarrow> nat \<Rightarrow> node" where
  "del_if (Lf n b) act l q a c k = (if act \<and> b = a then Lf (fst c) (snd c) else Lf n b)"
| "del_if (Nd f) act l q a c k =
     (let f' = (\<lambda>i. del_if (f i) (act \<and> in_rng k l q i) l q a c (Suc k))
      in if act \<and> all_empty k f' then Lf (fst c) (snd c) else Nd f')"

definition deln :: "nat \<Rightarrow> nat \<Rightarrow> u32 \<Rightarrow> nat \<times> u32 \<Rightarrow> nat \<Rightarrow> node \<Rightarrow> node" where
  "deln l q a c k t = del_if t True l q a c k"

definition del_slots :: "nat \<Rightarrow> nat \<Rightarrow> u32 \<Rightarrow> nat \<times> u32 \<Rightarrow> nat \<Rightarrow> (nat \<Rightarrow> node) \<Rightarrow> nat \<Rightarrow> node" where
  "del_slots l q a c k f = (\<lambda>i. if in_rng k l q i then deln l q a c (Suc k) (f i) else f i)"

primrec wfn :: "node \<Rightarrow> nat \<Rightarrow> bool" where
  "wfn (Lf n a) k \<longleftrightarrow> n \<le> 8 * k"
| "wfn (Nd f) k \<longleftrightarrow> k < 4 \<and> (\<forall>i<256. wfn (f i) (Suc k)) \<and>
     \<not> (\<forall>i<256. case f i of Lf n a \<Rightarrow> n \<le> 8 * k | Nd g \<Rightarrow> False)"

lemma del_if_False [simp]: "del_if t False l q a c k = t"
  by (induction t arbitrary: k) auto

lemma deln_simps [simp]:
  "deln l q a c k (Lf n b) = (if b = a then Lf (fst c) (snd c) else Lf n b)"
  "deln l q a c k (Nd f) =
    (if all_empty k (del_slots l q a c k f) then Lf (fst c) (snd c) else Nd (del_slots l q a c k f))"
proof -
  have "(\<lambda>i. del_if (f i) (in_rng k l q i) l q a c (Suc k)) = del_slots l q a c k f"
    by (simp add: fun_eq_iff del_slots_def deln_def)
  then show "deln l q a c k (Nd f) =
    (if all_empty k (del_slots l q a c k f) then Lf (fst c) (snd c) else Nd (del_slots l q a c k f))"
    by (simp add: deln_def)
qed (simp add: deln_def)

lemma wfn_Nd: "wfn (Nd f) k \<longleftrightarrow> k < 4 \<and> (\<forall>i<256. wfn (f i) (Suc k)) \<and> \<not> all_empty k f"
  by (simp add: all_empty_def empty_at_def)

declare wfn.simps(2) [simp del] wfn_Nd [simp]

lemma empty_at_simps [simp]: "empty_at k (Lf n a) \<longleftrightarrow> n \<le> 8 * k" "\<not> empty_at k (Nd f)"
  by (simp_all add: empty_at_def)

subsection \<open>Octets and prefixes\<close>

lemma oct_less [simp]: "oct k x < 256"
  by (simp add: oct_def)

lemma pow_256: "(256 :: nat) ^ n = 2 ^ (8 * n)"
  by (simp add: power_mult)

lemma prefix_of_oct: "k < 4 \<Longrightarrow> oct k x = prefix_of (8 * Suc k) x mod 256"
  by (simp add: oct_def prefix_of_def pow_256 diff_mult_distrib2)

lemma prefix_of_Suc: "k < 4 \<Longrightarrow> prefix_of (8 * Suc k) x = prefix_of (8 * k) x * 256 + oct k x"
proof -
  assume k: "k < 4"
  have "32 - 8 * k = (32 - 8 * Suc k) + 8" using k by simp
  then have "prefix_of (8 * k) x = prefix_of (8 * Suc k) x div 256"
    by (simp only: prefix_of_def power_add div_mult2_eq) simp
  then show ?thesis by (simp only: prefix_of_oct [OF k] div_mult_mod_eq)
qed

text \<open>The address \<open>x\<close> agrees with the prefix on the bits that depth \<open>k\<close> has consumed.\<close>

definition agree :: "nat \<Rightarrow> nat \<Rightarrow> nat \<Rightarrow> nat \<Rightarrow> bool" where
  "agree k l q x \<longleftrightarrow> prefix_of (min l (8 * k)) x = prefix_of (min l (8 * k)) q"

lemma agree_0 [simp]: "x < 2 ^ 32 \<Longrightarrow> q < 2 ^ 32 \<Longrightarrow> agree 0 l q x"
  by (simp add: agree_def prefix_of_def)

lemma agree_full: "l \<le> 8 * k \<Longrightarrow> agree k l q x \<longleftrightarrow> prefix_of l x = prefix_of l q"
  by (simp add: agree_def min_def)

lemma div_range:
  fixes x q m :: nat
  assumes "q mod 2 ^ m = 0"
  shows "x div 2 ^ m = q div 2 ^ m \<longleftrightarrow> q \<le> x \<and> x < q + 2 ^ m"
proof -
  obtain t where q: "q = t * 2 ^ m" using assms by (metis dvd_def mod_eq_0_iff_dvd mult.commute)
  have "x div 2 ^ m = t \<longleftrightarrow> t \<le> x div 2 ^ m \<and> x div 2 ^ m < Suc t" by linarith
  also have "\<dots> \<longleftrightarrow> t * 2 ^ m \<le> x \<and> x < t * 2 ^ m + 2 ^ m"
    by (simp add: less_eq_div_iff_mult_less_eq div_less_iff_less_mult add.commute)
  finally show ?thesis using q by simp
qed

lemma agree_Suc:
  assumes k: "k < 4" and l: "l \<le> 32" and q: "q mod 2 ^ (32 - l) = 0" and ag: "agree k l q x"
  shows "agree (Suc k) l q x \<longleftrightarrow> in_rng k l q (oct k x)"
proof (cases "l \<le> 8 * k")
  case True
  then have m: "min 8 (8 * Suc k - l) = 8" by simp
  have "32 - l = 8 + 8 * (3 - k) + (8 * k - l)" using True k by simp
  then have "(2 :: nat) ^ (32 - l) = 2 ^ 8 * 256 ^ (3 - k) * 2 ^ (8 * k - l)"
    by (simp only: power_add pow_256)
  then have "oct k q = 0"
    using q by (auto simp: oct_def mod_eq_0_iff_dvd dvd_def mult.assoc)
  then have "in_rng k l q (oct k x)" unfolding in_rng_def m by simp
  moreover have "agree (Suc k) l q x" using True ag by (simp add: agree_full)
  ultimately show ?thesis by simp
next
  case False
  define X Q where "X = prefix_of (8 * Suc k) x" and "Q = prefix_of (8 * Suc k) q"
  define m where "m = 8 * Suc k - l"
  have hi: "X div 256 = Q div 256"
    using ag False prefix_of_Suc [OF k, of x] prefix_of_Suc [OF k, of q]
    by (simp add: X_def Q_def agree_def min_def)
  have o: "oct k x = X mod 256" "oct k q = Q mod 256"
    using k by (simp_all add: prefix_of_oct X_def Q_def del: mult_Suc_right)
  show ?thesis
  proof (cases "l \<le> 8 * Suc k")
    case True
    have m8: "m \<le> 8" "min 8 (8 * Suc k - l) = m" using False True by (auto simp: m_def)
    have e: "32 - l = (32 - 8 * Suc k) + m" using True k by (simp add: m_def)
    have "agree (Suc k) l q x \<longleftrightarrow> X div 2 ^ m = Q div 2 ^ m"
      using True by (simp only: agree_full X_def Q_def prefix_of_def e power_add div_mult2_eq)
    also have "\<dots> \<longleftrightarrow> Q \<le> X \<and> X < Q + 2 ^ m"
    proof (rule div_range)
      have "2 ^ (32 - 8 * Suc k) * 2 ^ m dvd q" using q by (simp add: e power_add mod_eq_0_iff_dvd)
      then show "Q mod 2 ^ m = 0"
        unfolding Q_def prefix_of_def mod_eq_0_iff_dvd by (metis dvd_div_iff_mult dvd_mult_left mult.commute power_not_zero zero_neq_numeral)
    qed
    also have "\<dots> \<longleftrightarrow> Q mod 256 \<le> X mod 256 \<and> X mod 256 < Q mod 256 + 2 ^ m"
      using div_mult_mod_eq [of X 256] div_mult_mod_eq [of Q 256] hi by linarith
    finally show ?thesis by (simp only: in_rng_def o m8)
  next
    case long: False
    then have "8 * Suc k - l = 0" "min l (8 * Suc k) = 8 * Suc k" by auto
    then have "agree (Suc k) l q x \<longleftrightarrow> X = Q" "in_rng k l q (oct k x) \<longleftrightarrow> X mod 256 = Q mod 256"
      by (auto simp: agree_def X_def Q_def in_rng_def o simp del: mult_Suc_right)
    then show ?thesis using hi div_mult_mod_eq [of X 256] div_mult_mod_eq [of Q 256] by metis
  qed
qed

lemma oct_dvd:
  assumes "k < 4" "l \<le> 32" "q mod 2 ^ (32 - l) = 0"
  shows "2 ^ min 8 (8 * Suc k - l) dvd oct k q"
proof (cases "l \<le> 8 * Suc k")
  case True
  define m where "m = 8 * Suc k - l"
  have "32 - l = (32 - 8 * Suc k) + m" using True assms(1) by (simp add: m_def)
  then have "2 ^ (32 - 8 * Suc k) * 2 ^ m dvd q" using assms(3) by (simp add: power_add mod_eq_0_iff_dvd)
  then have "2 ^ m dvd prefix_of (8 * Suc k) q"
    unfolding prefix_of_def
    by (metis dvd_div_iff_mult dvd_mult_left mult.commute power_not_zero zero_neq_numeral)
  then have "2 ^ min 8 m dvd prefix_of (8 * Suc k) q"
    by (rule dvd_trans [rotated]) (simp add: le_imp_power_dvd)
  moreover have "(2 :: nat) ^ min 8 m dvd 2 ^ 8" by (rule le_imp_power_dvd) simp
  ultimately show ?thesis
    using assms(1) unfolding m_def by (simp add: prefix_of_oct dvd_mod del: mult_Suc_right)
next
  case False
  then show ?thesis by simp
qed

lemma rng_le:
  assumes "k < 4" "l \<le> 32" "q mod 2 ^ (32 - l) = 0"
  shows "oct k q + 2 ^ min 8 (8 * Suc k - l) \<le> 256"
proof -
  let ?m = "min 8 (8 * Suc k - l)"
  obtain t where t: "oct k q = 2 ^ ?m * t" using oct_dvd [OF assms] by (auto simp: dvd_def)
  have e: "(256 :: nat) = 2 ^ ?m * 2 ^ (8 - ?m)" by (simp flip: power_add)
  have "2 ^ ?m * t < 2 ^ ?m * 2 ^ (8 - ?m)" using oct_less [of k q] t e by metis
  then have "Suc t \<le> 2 ^ (8 - ?m)" by simp
  then have "2 ^ ?m * Suc t \<le> 2 ^ ?m * 2 ^ (8 - ?m)" by (rule mult_le_mono2)
  then show ?thesis unfolding t e by simp
qed

text \<open>A prefix shorter than the region of the ply covers all its slots.\<close>

lemma in_rng_whole:
  assumes "k < 4" "l \<le> 8 * k" "q mod 2 ^ (32 - l) = 0" "i < 256"
  shows "in_rng k l q i"
proof -
  have m: "min 8 (8 * Suc k - l) = 8" using assms(2) by simp
  have "2 ^ 8 dvd oct k q" using oct_dvd [of k l q] assms(1-3) unfolding m by simp
  then have "oct k q = 0" using oct_less [of k q] by (simp add: dvd_eq_mod_eq_0)
  then show ?thesis unfolding in_rng_def m using assms(4) by simp
qed

subsection \<open>Insertion\<close>

lemma lkn_fill: "lkn (fill_node l a t) k x = (if fst (lkn t k x) \<le> l then (l, a) else lkn t k x)"
  by (induction t arbitrary: k) auto

lemma lkn_expand [simp]: "lkn (expand t (oct k x)) (Suc k) x = lkn t k x"
  by (cases t) auto

lemma lkn_ins:
  assumes "k < 4" "l \<le> 32" "q mod 2 ^ (32 - l) = 0" "agree k l q x"
  shows "lkn (Nd (ins k l q a f)) k x =
    (if prefix_of l x = prefix_of l q \<and> fst (lkn (Nd f) k x) \<le> l then (l, a) else lkn (Nd f) k x)"
  using assms
proof (induction k l q a f rule: ins.induct)
  case (1 k l q a f)
  note rng = agree_Suc [OF "1.prems"]
  show ?case
  proof (cases "l \<le> 8 * Suc k")
    case True
    then have "ins k l q a f = (\<lambda>i. if in_rng k l q i then fill_node l a (f i) else f i)"
      by (subst ins.simps) simp
    then show ?thesis
      using rng agree_full [OF True, of q x] by (simp add: lkn_fill)
  next
    case False
    then have k: "Suc k < 4" using "1.prems" by simp
    have step: "ins k l q a f =
        f(oct k q := Nd (ins (Suc k) l q a (expand (f (oct k q)))))"
      using False by (subst ins.simps) simp
    have e: "in_rng k l q i \<longleftrightarrow> i = oct k q" for i using False by (auto simp: in_rng_def)
    have no: "prefix_of l x \<noteq> prefix_of l q" if "oct k x \<noteq> oct k q"
    proof
      assume "prefix_of l x = prefix_of l q"
      then have "agree (Suc k) l q x"
        using prefix_of_mono [of l x q "8 * Suc k"] False "1.prems"(2)
        by (simp add: agree_def min_def del: mult_Suc_right)
      with rng e that show False by simp
    qed
    show ?thesis
    proof (cases "oct k x = oct k q")
      case True
      then have "agree (Suc k) l q x" using rng e by simp
      from "1.IH" [OF False k "1.prems"(2,3) this] show ?thesis
        by (simp add: step True)
    next
      case False': False
      with no show ?thesis by (simp add: step)
    qed
  qed
qed

lemma wfn_mono: "wfn (Lf n b) k \<Longrightarrow> k \<le> j \<Longrightarrow> wfn (Lf n b) j"
  by simp

lemma empty_at_fill: "l \<le> 8 * k \<Longrightarrow> empty_at k (fill_node l a t) = empty_at k t"
  by (cases t) auto

lemma all_empty_fill: "l \<le> 8 * k \<Longrightarrow> all_empty k (\<lambda>i. fill_node l a (f i)) = all_empty k f"
  by (simp add: all_empty_def empty_at_fill)

lemma wfn_fill: "wfn t k \<Longrightarrow> l \<le> 8 * k \<Longrightarrow> wfn (fill_node l a t) k"
  by (induction t arbitrary: k) (auto simp: all_empty_fill)

lemma wfn_expand: "wfn t (Suc k) \<Longrightarrow> Suc k < 4 \<Longrightarrow> i < 256 \<Longrightarrow> wfn (expand t i) (Suc (Suc k))"
  by (cases t) auto

lemma in_rng_self [simp]: "in_rng k l q (oct k q)"
  by (simp add: in_rng_def)

lemma ins_not_all_empty:
  assumes "8 * k < l"
  shows "\<not> all_empty k (ins k l q a f)"
proof -
  have "\<not> empty_at k (ins k l q a f (oct k q))"
    using assms by (subst ins.simps) (cases "f (oct k q)", auto)
  then show ?thesis using oct_less [of k q] unfolding all_empty_def by blast
qed

lemma wfn_ins:
  assumes "k < 4" "l \<le> 32" and "\<And>i. i < 256 \<Longrightarrow> wfn (f i) (Suc k)" and "i < 256"
  shows "wfn (ins k l q a f i) (Suc k)"
  using assms
proof (induction k l q a f arbitrary: i rule: ins.induct)
  case (1 k l q a f)
  show ?case
  proof (cases "l \<le> 8 * Suc k")
    case True
    with "1.prems" show ?thesis
      by (subst ins.simps) (auto intro!: wfn_fill simp del: mult_Suc_right)
  next
    case False
    then have k: "Suc k < 4" using "1.prems" by simp
    have sub: "wfn (ins (Suc k) l q a (expand (f (oct k q))) j) (Suc (Suc k))" if "j < 256" for j
      using "1.IH" [OF False k "1.prems"(2) _ that] "1.prems"(3) wfn_expand k by simp
    have "\<not> all_empty (Suc k) (ins (Suc k) l q a (expand (f (oct k q))))"
      using False by (intro ins_not_all_empty) simp
    with sub k False "1.prems" show ?thesis by (subst ins.simps) auto
  qed
qed

subsection \<open>Removal\<close>

text \<open>\<open>represents R k v t\<close>: in the region of addresses with \<open>8 * k\<close> leading bits \<open>v\<close>, the node
  answers with the longest match of \<open>R\<close>.\<close>

definition represents :: "u32 routes \<Rightarrow> nat \<Rightarrow> nat \<Rightarrow> node \<Rightarrow> bool" where
  "represents R k v t \<longleftrightarrow> (\<forall>x<2 ^ 32. prefix_of (8 * k) x = v \<longrightarrow> lkn t k x = best R x)"

lemma representsD: "represents R k v t \<Longrightarrow> x < 2 ^ 32 \<Longrightarrow> prefix_of (8 * k) x = v \<Longrightarrow> lkn t k x = best R x"
  by (simp add: represents_def)

lemma region_slot:
  assumes "k < 4" and "i < 256"
  shows "prefix_of (8 * Suc k) x = v * 256 + i \<longleftrightarrow> prefix_of (8 * k) x = v \<and> oct k x = i"
proof
  assume "prefix_of (8 * Suc k) x = v * 256 + i"
  then have e: "prefix_of (8 * k) x * 256 + oct k x = v * 256 + i"
    using prefix_of_Suc [OF assms(1), of x] by simp
  then have "(prefix_of (8 * k) x * 256 + oct k x) div 256 = (v * 256 + i) div 256" by simp
  with assms(2) have "prefix_of (8 * k) x = v" by simp
  with e show "prefix_of (8 * k) x = v \<and> oct k x = i" by simp
qed (simp add: prefix_of_Suc assms del: mult_Suc_right)

lemma represents_Nd:
  assumes "k < 4"
  shows "represents R k v (Nd f) \<longleftrightarrow> (\<forall>i<256. represents R (Suc k) (v * 256 + i) (f i))"
proof safe
  fix i :: nat assume r: "represents R k v (Nd f)" and i: "i < 256"
  show "represents R (Suc k) (v * 256 + i) (f i)"
    unfolding represents_def region_slot [OF assms i] using representsD [OF r] by auto
next
  assume "\<forall>i<256. represents R (Suc k) (v * 256 + i) (f i)"
  then have "lkn (f (oct k x)) (Suc k) x = best R x"
    if "x < 2 ^ 32" "prefix_of (8 * k) x = v" for x
    using that oct_less [of k x] unfolding represents_def by (metis region_slot assms)
  then show "represents R k v (Nd f)" by (simp add: represents_def)
qed

lemma region_inhabited:
  assumes "k \<le> 4" "v < 256 ^ k"
  obtains x where "x < 2 ^ 32" "prefix_of (8 * k) x = v"
proof
  have e: "(2 :: nat) ^ 32 = 256 ^ k * 2 ^ (32 - 8 * k)"
    using assms(1) by (simp only: pow_256 flip: power_add) simp
  show "v * 2 ^ (32 - 8 * k) < 2 ^ 32" unfolding e using assms(2) by simp
  show "prefix_of (8 * k) (v * 2 ^ (32 - 8 * k)) = v" by (simp add: prefix_of_def)
qed

lemma represents_Lf:
  assumes "represents R k v (Lf n b)" and "k \<le> 4" and "v < 256 ^ k"
  obtains x where "x < 2 ^ 32" "prefix_of (8 * k) x = v" "best R x = (n, b)"
  using region_inhabited [OF assms(2,3)] representsD [OF assms(1)] by (metis lkn.simps(1))

lemma slot_region_less: "v < 256 ^ k \<Longrightarrow> i < 256 \<Longrightarrow> v * 256 + i < 256 ^ Suc k"
  for v i :: nat
  by simp

lemma cover_le: "fst (cover R l p) \<le> l"
  using cover_less [of l R p] by (cases "l = 0") (auto simp: cover_def)

lemma leaf_length:
  assumes "own_index R (l, p) a" "represents R k v (Lf n a)" "k \<le> 4" "v < 256 ^ k"
  shows "n = l"
  using represents_Lf [OF assms(2-4)] own_index_length [OF assms(1)] by metis

text \<open>A prefix that covers the whole ply does not change which of its slots are its own.\<close>

lemma deln_shallow:
  assumes "own_index R (l, p) a" "l \<le> 8 * k" "wfn t (Suc k)" "represents R (Suc k) v t"
    "Suc k \<le> 4" "v < 256 ^ Suc k"
  shows "empty_at k (deln l q a (cover R l p) (Suc k) t) = empty_at k t"
  using assms
proof (induction t arbitrary: k v)
  case (Lf n b)
  then show ?case
    using leaf_length [of R l p a "Suc k" v n] cover_le [of R l p] by (auto simp del: mult_Suc_right)
next
  case (Nd g)
  let ?c = "cover R l p"
  have k: "Suc k < 4" using Nd.prems(3) by simp
  have "empty_at (Suc k) (del_slots l q a ?c (Suc k) g i) = empty_at (Suc k) (g i)" if i: "i < 256" for i
  proof (cases "in_rng (Suc k) l q i")
    case True
    have "represents R (Suc (Suc k)) (v * 256 + i) (g i)" "wfn (g i) (Suc (Suc k))"
      using Nd.prems(3,4) i k by (simp_all add: represents_Nd)
    with Nd.IH [of "g i" "Suc k" "v * 256 + i"] Nd.prems i k True show ?thesis
      by (simp add: del_slots_def)
  qed (simp add: del_slots_def)
  then have "\<not> all_empty (Suc k) (del_slots l q a ?c (Suc k) g)"
    using Nd.prems(3) by (simp add: all_empty_def)
  then show ?case by simp
qed

lemma not_in_rng_best:
  assumes own: "own_index R (l, prefix_of l q) a" and "k < 4" "l \<le> 32" "q mod 2 ^ (32 - l) = 0"
    and "agree k l q x" "\<not> in_rng k l q (oct k x)"
  shows "best (R((l, prefix_of l q) := None)) x = best R x"
proof -
  have "\<not> agree (Suc k) l q x" using agree_Suc [OF assms(2-5)] assms(6) by simp
  then have "prefix_of l x \<noteq> prefix_of l q"
    using prefix_of_mono [of l x q "min l (8 * Suc k)"] assms(3) unfolding agree_def by fastforce
  with best_own_index(1) [OF own] have "snd (best R x) \<noteq> a" by blast
  then show ?thesis using best_del [OF own assms(3)] by simp
qed

lemma del_slots_represents:
  assumes own: "own_index R (l, prefix_of l q) a" and lq: "l \<le> 32" "q mod 2 ^ (32 - l) = 0"
    and k: "k < 4" and ag: "\<And>x. x < 2 ^ 32 \<Longrightarrow> prefix_of (8 * k) x = v \<Longrightarrow> agree k l q x"
    and rep: "\<And>i. i < 256 \<Longrightarrow> represents R (Suc k) (v * 256 + i) (f i)"
    and IH: "\<And>i. i < 256 \<Longrightarrow>
      (\<And>x. x < 2 ^ 32 \<Longrightarrow> prefix_of (8 * Suc k) x = v * 256 + i \<Longrightarrow> agree (Suc k) l q x) \<Longrightarrow>
      represents R' (Suc k) (v * 256 + i) (deln l q a c (Suc k) (f i))"
    and R': "R' = R((l, prefix_of l q) := None)" and i: "i < 256"
  shows "represents R' (Suc k) (v * 256 + i) (del_slots l q a c k f i)"
proof (cases "in_rng k l q i")
  case True
  have "agree (Suc k) l q x" if "x < 2 ^ 32" "prefix_of (8 * Suc k) x = v * 256 + i" for x
    using that ag True agree_Suc [OF k lq] unfolding region_slot [OF k i] by blast
  from IH [OF i this] True show ?thesis by (simp add: del_slots_def)
next
  case False
  have "best R' x = best R x" if "x < 2 ^ 32" "prefix_of (8 * k) x = v" "oct k x = i" for x
    using not_in_rng_best [OF own k lq ag] that False unfolding R' by simp
  with rep [OF i] False show ?thesis
    unfolding represents_def region_slot [OF k i] by (simp add: del_slots_def)
qed

text \<open>A ply that has lost all its own leaves answers with the cover throughout its region.\<close>

lemma collapse_is_cover:
  assumes k: "k < 4" and v: "v < 256 ^ k" and rep: "represents R' k v (Nd (del_slots l q a c k f))"
    and ne: "\<not> all_empty k f" and emp: "all_empty k (del_slots l q a c k f)"
  shows "represents R' k v (Lf (fst c) (snd c))" and "fst c \<le> 8 * k"
proof -
  let ?f = "del_slots l q a c k f"
  obtain i where i: "i < 256" "\<not> empty_at k (f i)" "empty_at k (?f i)"
    using ne emp by (auto simp: all_empty_def)
  then have fi: "?f i = Lf (fst c) (snd c)"
    by (cases "f i") (auto simp: del_slots_def split: if_splits)
  with i(3) show le: "fst c \<le> 8 * k" by simp
  have "represents R' (Suc k) (v * 256 + i) (Lf (fst c) (snd c))"
    using rep i(1) k fi by (metis represents_Nd)
  then obtain y where y: "y < 2 ^ 32" "prefix_of (8 * Suc k) y = v * 256 + i" "best R' y = c"
    using represents_Lf [of R' "Suc k"] slot_region_less [OF v i(1)] k by (metis Suc_leI prod.collapse)
  have "best R' x = c" if x: "x < 2 ^ 32" "prefix_of (8 * k) x = v" for x
  proof -
    have "best R' x = lkn (Nd ?f) k x" using representsD [OF rep x] by simp
    moreover have "empty_at k (?f (oct k x))" using emp by (simp add: all_empty_def)
    ultimately have "fst (best R' x) \<le> 8 * k" by (cases "?f (oct k x)") auto
    moreover have "prefix_of (8 * k) x = prefix_of (8 * k) y"
      using x(2) y(2) region_slot [OF k i(1)] by simp
    ultimately show ?thesis using best_uniform [of "8 * k" x y R'] k le y(3) by simp
  qed
  then show "represents R' k v (Lf (fst c) (snd c))" by (simp add: represents_def)
qed

lemma deln_represents:
  assumes own: "own_index R (l, prefix_of l q) a" and lq: "l \<le> 32" "q mod 2 ^ (32 - l) = 0"
    and R': "R' = R((l, prefix_of l q) := None)" and c: "c = cover R l (prefix_of l q)"
  shows "wfn t k \<Longrightarrow> k \<le> 4 \<Longrightarrow> v < 256 ^ k \<Longrightarrow> represents R k v t \<Longrightarrow>
    (\<And>x. x < 2 ^ 32 \<Longrightarrow> prefix_of (8 * k) x = v \<Longrightarrow> agree k l q x) \<Longrightarrow>
    represents R' k v (deln l q a c k t) \<and> wfn (deln l q a c k t) k"
proof (induction t arbitrary: k v)
  case (Lf n b)
  have "best R' x = (if b = a then c else (n, b))" if "x < 2 ^ 32" "prefix_of (8 * k) x = v" for x
    using representsD [OF Lf.prems(4) that, symmetric] best_del [OF own lq(1), of x, folded R' c]
    by simp
  moreover have "fst c \<le> 8 * k" if "b = a"
    using leaf_length [OF own, of k v n] cover_le [of R l "prefix_of l q"] Lf.prems that c by auto
  ultimately show ?case using Lf.prems(1) unfolding represents_def by simp
next
  case (Nd f)
  have k: "k < 4" using Nd.prems(1) by simp
  have rep: "represents R (Suc k) (v * 256 + i) (f i)" if "i < 256" for i
    using Nd.prems(4) k that by (simp add: represents_Nd)
  have sub: "represents R' (Suc k) (v * 256 + i) (deln l q a c (Suc k) (f i)) \<and>
      wfn (deln l q a c (Suc k) (f i)) (Suc k)"
    if "i < 256" "\<And>x. x < 2 ^ 32 \<Longrightarrow> prefix_of (8 * Suc k) x = v * 256 + i \<Longrightarrow> agree (Suc k) l q x" for i
    using Nd.IH [of "f i" "Suc k" "v * 256 + i"] Nd.prems(1,3) k rep that by simp
  have r: "represents R' k v (Nd (del_slots l q a c k f))"
    using del_slots_represents [OF own lq k Nd.prems(5) rep _ R'] sub k by (simp add: represents_Nd)
  have slots: "wfn (del_slots l q a c k f i) (Suc k)" if i: "i < 256" for i
  proof (cases "in_rng k l q i")
    case True
    have "agree (Suc k) l q x" if "x < 2 ^ 32" "prefix_of (8 * Suc k) x = v * 256 + i" for x
      using that Nd.prems(5) True agree_Suc [OF k lq] unfolding region_slot [OF k i] by blast
    with sub [OF i] True show ?thesis by (simp add: del_slots_def)
  next
    case False
    with Nd.prems(1) i show ?thesis by (simp add: del_slots_def)
  qed
  show ?case
    using collapse_is_cover [OF k Nd.prems(3) r] r slots k Nd.prems(1) by simp
qed

text \<open>Once every slot of a ply is empty, the slots that removal has not visited yet would not be
  changed by it.\<close>

lemma all_empty_early:
  assumes own: "own_index R (l, prefix_of l q) a" and c: "c = cover R l (prefix_of l q)"
    and wf: "wfn (Nd f) k" and v: "v < 256 ^ k" and rep: "represents R k v (Nd f)"
    and g: "\<And>i. i < 256 \<Longrightarrow> g i = f i \<or> g i = del_slots l q a c k f i"
    and emp: "all_empty k g" and i: "i < 256" and gi: "g i = f i"
  shows "del_slots l q a c k f i = f i"
proof -
  have k: "k < 4" using wf by simp
  have ri: "represents R (Suc k) (v * 256 + j) (f j)" if "j < 256" for j
    using rep k that by (simp add: represents_Nd)
  have e: "empty_at k (f i)" using emp i gi by (auto simp: all_empty_def)
  then obtain n b where fi: "f i = Lf n b" "n \<le> 8 * k" by (cases "f i") auto
  have "b \<noteq> a"
  proof
    assume "b = a"
    then have "n = l"
      using leaf_length [OF own, of "Suc k" "v * 256 + i" n] ri [OF i] fi k v i by simp
    with fi have l: "l \<le> 8 * k" by simp
    have "empty_at k (g j) = empty_at k (f j)" if "j < 256" for j
      using g [OF that] deln_shallow [OF own l _ ri [OF that], of q] wf k v that c
      by (auto simp: del_slots_def split: if_splits)
    with emp wf show False by (simp add: all_empty_def)
  qed
  with fi show ?thesis by (simp add: del_slots_def)
qed

text \<open>The slots of a root, which is never released.\<close>

lemma del_slots_root:
  assumes own: "own_index R (l, prefix_of l q) a" and lq: "l \<le> 32" "q mod 2 ^ (32 - l) = 0"
    and R': "R' = R((l, prefix_of l q) := None)" and c: "c = cover R l (prefix_of l q)"
    and k: "k < 4" and v: "v < 256 ^ k" and wf: "\<And>i. i < 256 \<Longrightarrow> wfn (f i) (Suc k)"
    and rep: "represents R k v (Nd f)"
    and ag: "\<And>x. x < 2 ^ 32 \<Longrightarrow> prefix_of (8 * k) x = v \<Longrightarrow> agree k l q x"
  shows "represents R' k v (Nd (del_slots l q a c k f))"
    and "i < 256 \<Longrightarrow> wfn (del_slots l q a c k f i) (Suc k)"
proof -
  have ri: "represents R (Suc k) (v * 256 + i) (f i)" if "i < 256" for i
    using rep k that by (simp add: represents_Nd)
  have sub: "represents R' (Suc k) (v * 256 + i) (deln l q a c (Suc k) (f i)) \<and>
      wfn (deln l q a c (Suc k) (f i)) (Suc k)"
    if "i < 256" "\<And>x. x < 2 ^ 32 \<Longrightarrow> prefix_of (8 * Suc k) x = v * 256 + i \<Longrightarrow> agree (Suc k) l q x" for i
    using deln_represents [OF own lq R' c wf _ _ ri that(2)] that(1) k v by simp
  show "represents R' k v (Nd (del_slots l q a c k f))"
    using del_slots_represents [OF own lq k ag ri _ R'] sub k by (simp add: represents_Nd)
  assume i: "i < 256"
  have "agree (Suc k) l q x" if "in_rng k l q i" "x < 2 ^ 32" "prefix_of (8 * Suc k) x = v * 256 + i" for x
    using that ag agree_Suc [OF k lq] unfolding region_slot [OF k i] by blast
  with sub [OF i] wf [OF i] show "wfn (del_slots l q a c k f i) (Suc k)" by (simp add: del_slots_def)
qed

subsection \<open>A root of 65536 slots\<close>

lemma agree_2:
  assumes "l \<le> 32" "q mod 2 ^ (32 - l) = 0"
  shows "agree 2 l q x \<longleftrightarrow>
    prefix_of 16 q \<le> prefix_of 16 x \<and> prefix_of 16 x < prefix_of 16 q + 2 ^ (16 - l)"
proof (cases "l \<le> 16")
  case True
  have e: "32 - l = 16 + (16 - l)" using True by simp
  have "agree 2 l q x \<longleftrightarrow> prefix_of 16 x div 2 ^ (16 - l) = prefix_of 16 q div 2 ^ (16 - l)"
    using True by (simp add: agree_def min_def) (simp only: prefix_of_def e power_add div_mult2_eq, simp)
  also have "\<dots> \<longleftrightarrow> prefix_of 16 q \<le> prefix_of 16 x \<and> prefix_of 16 x < prefix_of 16 q + 2 ^ (16 - l)"
  proof (rule div_range)
    have "2 ^ 16 * 2 ^ (16 - l) dvd q" using assms(2) unfolding e power_add by (simp add: mod_eq_0_iff_dvd)
    then obtain t where "q = 2 ^ 16 * (2 ^ (16 - l) * t)" by (auto simp: dvd_def mult.assoc)
    then show "prefix_of 16 q mod 2 ^ (16 - l) = 0" by (simp add: prefix_of_def)
  qed
  finally show ?thesis .
next
  case False
  then show ?thesis by (auto simp: agree_def min_def)
qed

definition ins16 :: "nat \<Rightarrow> nat \<Rightarrow> u32 \<Rightarrow> (nat \<Rightarrow> node) \<Rightarrow> nat \<Rightarrow> node" where
  "ins16 l q a f =
     (let Q = prefix_of 16 q in
      if l \<le> 16 then (\<lambda>s. if Q \<le> s \<and> s < Q + 2 ^ (16 - l) then fill_node l a (f s) else f s)
      else f(Q := Nd (ins 2 l q a (expand (f Q)))))"

definition del16 :: "nat \<Rightarrow> nat \<Rightarrow> u32 \<Rightarrow> nat \<times> u32 \<Rightarrow> (nat \<Rightarrow> node) \<Rightarrow> nat \<Rightarrow> node" where
  "del16 l q a c f =
     (let Q = prefix_of 16 q in
      (\<lambda>s. if Q \<le> s \<and> s < Q + 2 ^ (16 - l) then deln l q a c 2 (f s) else f s))"

lemma lkn_ins16:
  assumes lq: "l \<le> 32" "q mod 2 ^ (32 - l) = 0" and s: "prefix_of 16 x = s"
  shows "lkn (ins16 l q a f s) 2 x =
    (if prefix_of l x = prefix_of l q \<and> fst (lkn (f s) 2 x) \<le> l then (l, a) else lkn (f s) 2 x)"
proof (cases "l \<le> 16")
  case True
  then show ?thesis
    using agree_2 [OF lq, of x] s agree_full [of l 2 q x] by (auto simp: ins16_def Let_def lkn_fill)
next
  case False
  show ?thesis
  proof (cases "s = prefix_of 16 q")
    case True
    then have "agree 2 l q x" using False s by (simp add: agree_def min_def)
    moreover have "lkn (Nd (expand t)) 2 x = lkn t 2 x" for t by (cases t) simp_all
    ultimately show ?thesis
      using lkn_ins [OF _ lq, of 2 x a "expand (f s)"] True False
      by (simp add: ins16_def Let_def del: lkn.simps)
  next
    case neq: False
    have "prefix_of l x \<noteq> prefix_of l q"
      using prefix_of_mono [of l x q 16] False lq(1) s neq by auto
    with neq False show ?thesis by (simp add: ins16_def Let_def)
  qed
qed

lemma wfn_ins16:
  assumes "l \<le> 32" and wf: "wfn (f s) 2" "wfn (f (prefix_of 16 q)) 2"
  shows "wfn (ins16 l q a f s) 2"
proof (cases "l \<le> 16")
  case True
  then show ?thesis using wf wfn_fill [of "f s" 2 l a] by (simp add: ins16_def Let_def)
next
  case False
  have "wfn (expand (f (prefix_of 16 q)) i) (Suc 2)" if "i < 256" for i
    using wf(2) that by (cases "f (prefix_of 16 q)") auto
  then have "wfn (ins 2 l q a (expand (f (prefix_of 16 q))) i) (Suc 2)" if "i < 256" for i
    using wfn_ins [of 2 l "expand (f (prefix_of 16 q))" i] assms(1) that by simp
  with ins_not_all_empty [of 2 l q a] False wf show ?thesis by (simp add: ins16_def Let_def)
qed

lemma represents_ins16:
  assumes "l \<le> 32" "q mod 2 ^ (32 - l) = 0" "represents R 2 s (f s)"
  shows "represents (R((l, prefix_of l q) \<mapsto> a)) 2 s (ins16 l q a f s)"
  using assms lkn_ins16 [OF assms(1,2)] best_add [OF assms(1)]
  by (simp add: represents_def)

lemma represents_ins:
  assumes "l \<le> 32" "q < 2 ^ 32" "q mod 2 ^ (32 - l) = 0" "represents R 0 0 (Nd f)"
  shows "represents (R((l, prefix_of l q) \<mapsto> a)) 0 0 (Nd (ins 0 l q a f))"
  unfolding represents_def
proof (intro allI impI)
  fix x :: nat assume x: "x < 2 ^ 32" "prefix_of (8 * 0) x = 0"
  from lkn_ins [of 0 l q x a f] assms x representsD [OF assms(4) x] best_add [OF assms(1)]
  show "lkn (Nd (ins 0 l q a f)) 0 x = best (R((l, prefix_of l q) \<mapsto> a)) x"
    by (simp del: lkn.simps)
qed

lemma del16_ok:
  assumes own: "own_index R (l, prefix_of l q) a" and lq: "l \<le> 32" "q mod 2 ^ (32 - l) = 0"
    and R': "R' = R((l, prefix_of l q) := None)" and c: "c = cover R l (prefix_of l q)"
    and s: "s < 65536" and f: "wfn (f s) 2" "represents R 2 s (f s)"
  shows "represents R' 2 s (del16 l q a c f s) \<and> wfn (del16 l q a c f s) 2"
proof (cases "prefix_of 16 q \<le> s \<and> s < prefix_of 16 q + 2 ^ (16 - l)")
  case True
  have "agree 2 l q x" if "prefix_of (8 * 2) x = s" for x
    using True agree_2 [OF lq, of x] that by simp
  with deln_represents [OF own lq R' c f(1) _ _ f(2)] s True show ?thesis
    by (simp add: del16_def Let_def)
next
  case False
  have "best R' x = best R x" if "prefix_of 16 x = s" for x
  proof -
    have "\<not> agree 2 l q x" using False agree_2 [OF lq, of x] that by simp
    then have "prefix_of l x \<noteq> prefix_of l q"
      using prefix_of_mono [of l x q "min l 16"] lq(1) unfolding agree_def by fastforce
    with best_own_index(1) [OF own] have "snd (best R x) \<noteq> a" by blast
    then show ?thesis using best_del [OF own lq(1)] by (simp add: R')
  qed
  with f False show ?thesis by (auto simp: del16_def Let_def represents_def)
qed

end
