(* ===== verification/Mtrie.thy ===== *)
theory Mtrie
  imports Pool Mtrie_Tree "HOL-Library.Monad_Syntax"
begin

text \<open>
  The IPv4 forwarding tries of \<^verbatim>\<open>vnet/ip/ip4_mtrie.h\<close> and \<^verbatim>\<open>vnet/ip/ip4_mtrie.c\<close>: plies of 256
  slots in the global pool \<open>ip4_ply_pool\<close>, under a root of 256 slots (the 8-8-8-8 trie, its root a
  ply of the pool) or of 65536 slots (the 16-8-8 trie, its root embedded). A slot is a 32-bit word:
  \<open>1 + 2 * adj_index\<close> for a terminal leaf, \<open>2 * ply_index\<close> for a sub-ply.

  The arrays of a ply are functions from slot numbers. The pool is the state the operations
  thread; the result \<open>None\<close> stands for an access outside the arrays of the address (the
  assertion \<open>dst_address_byte_index < 4\<close>) or for running out of the recursion depth given to
  \<open>set_ply_with_more_specific_leaf\<close>, which the lemmas show not to happen.
\<close>

unbundle bit_operations_syntax

record ip4_mtrie_8_ply =
  leaves :: "nat \<Rightarrow> u32"
  dst_address_bits_of_leaves :: "nat \<Rightarrow> nat"
  n_non_empty_leafs :: int
  dst_address_bits_base :: nat

record ip4_mtrie_16 =
  root_leaves :: "nat \<Rightarrow> u32"
  root_bits :: "nat \<Rightarrow> nat"

type_synonym ply_pool = "ip4_mtrie_8_ply pool"

record ip4_mtrie_set_unset_leaf_args =
  dst_address :: ip4_address
  dst_address_length :: nat
  adj_index :: u32
  cover_address_length :: nat
  cover_adj_index :: u32

subsection \<open>Leaves and plies\<close>

definition ip4_mtrie_leaf_is_terminal :: "u32 \<Rightarrow> bool" where
  "ip4_mtrie_leaf_is_terminal n \<longleftrightarrow> n AND 1 \<noteq> 0"

definition ip4_mtrie_leaf_get_adj_index :: "u32 \<Rightarrow> u32" where
  "ip4_mtrie_leaf_get_adj_index n = drop_bit 1 n"

definition IP4_MTRIE_LEAF_EMPTY :: u32 where
  "IP4_MTRIE_LEAF_EMPTY = 1 + 2 * 0"

definition ip4_mtrie_leaf_set_adj_index :: "u32 \<Rightarrow> u32" where
  "ip4_mtrie_leaf_set_adj_index i = 1 + 2 * i"

definition ip4_mtrie_leaf_is_next_ply :: "u32 \<Rightarrow> bool" where
  "ip4_mtrie_leaf_is_next_ply n \<longleftrightarrow> n AND 1 = 0"

definition ip4_mtrie_leaf_get_next_ply_index :: "u32 \<Rightarrow> nat" where
  "ip4_mtrie_leaf_get_next_ply_index n = unat (drop_bit 1 n)"

definition ip4_mtrie_leaf_set_next_ply_index :: "nat \<Rightarrow> u32" where
  "ip4_mtrie_leaf_set_next_ply_index i = 0 + 2 * of_nat i"

definition ip4_mtrie_leaf_is_non_empty :: "ip4_mtrie_8_ply \<Rightarrow> nat \<Rightarrow> int" where
  "ip4_mtrie_leaf_is_non_empty p dst_byte =
     (if dst_address_bits_base p < dst_address_bits_of_leaves p dst_byte then 1 else 0)"

definition ply_8_init :: "u32 \<Rightarrow> nat \<Rightarrow> nat \<Rightarrow> ip4_mtrie_8_ply" where
  "ply_8_init init prefix_len ply_base_len =
     \<lparr>leaves = (\<lambda>_. init),
      dst_address_bits_of_leaves = (\<lambda>_. prefix_len),
      n_non_empty_leafs = (if ply_base_len < prefix_len then 256 else 0),
      dst_address_bits_base = ply_base_len\<rparr>"

definition ply_16_init :: "u32 \<Rightarrow> nat \<Rightarrow> ip4_mtrie_16" where
  "ply_16_init init prefix_len = \<lparr>root_leaves = (\<lambda>_. init), root_bits = (\<lambda>_. prefix_len)\<rparr>"

definition ply_create :: "ply_pool \<Rightarrow> u32 \<Rightarrow> nat \<Rightarrow> nat \<Rightarrow> (u32 \<times> ply_pool) option" where
  "ply_create P init_leaf leaf_prefix_len ply_base_len =
     do { let ply = ply_8_init init_leaf leaf_prefix_len ply_base_len;
          (p, P) \<leftarrow> pool_get ply P;
          Some (ip4_mtrie_leaf_set_next_ply_index p, pool_write P p ply) }"

definition ip4_mtrie_16_init :: ip4_mtrie_16 where
  "ip4_mtrie_16_init = ply_16_init IP4_MTRIE_LEAF_EMPTY 0"

definition ip4_mtrie_8_init :: "ply_pool \<Rightarrow> (nat \<times> ply_pool) option" where
  "ip4_mtrie_8_init P =
     do { let ply = ply_8_init IP4_MTRIE_LEAF_EMPTY 0 0;
          (root, P) \<leftarrow> pool_get ply P;
          Some (root, pool_write P root ply) }"

text \<open>Both releases assert that the trie has been emptied down to its root.\<close>

definition ip4_mtrie_16_free :: "ip4_mtrie_16 \<Rightarrow> unit option" where
  "ip4_mtrie_16_free m =
     (if list_all (\<lambda>i. \<not> ip4_mtrie_leaf_is_next_ply (root_leaves m i)) [0..<65536] then Some () else None)"

definition ip4_mtrie_8_free :: "nat \<Rightarrow> ply_pool \<Rightarrow> ply_pool option" where
  "ip4_mtrie_8_free root P =
     (let ply = pool_elt_at_index P root in
      if list_all (\<lambda>i. \<not> ip4_mtrie_leaf_is_next_ply (leaves ply i)) [0..<256]
      then Some (pool_put_index P root) else None)"

text \<open>Loops whose body may fail.\<close>

primrec foldo :: "('a \<Rightarrow> 's \<Rightarrow> 's option) \<Rightarrow> 'a list \<Rightarrow> 's \<Rightarrow> 's option" where
  "foldo f [] s = Some s"
| "foldo f (x # xs) s = Option.bind (f x s) (foldo f xs)"

lemma foldo_cong [fundef_cong]:
  "xs = ys \<Longrightarrow> s = t \<Longrightarrow> (\<And>x s. x \<in> set ys \<Longrightarrow> f x s = g x s) \<Longrightarrow> foldo f xs s = foldo g ys t"
proof (induction ys arbitrary: xs s t)
  case (Cons y ys)
  then have "foldo f ys u = foldo g ys u" for u by simp
  with Cons.prems show ?case by (cases "g y t") simp_all
qed simp

subsection \<open>Route insertion\<close>

text \<open>A store of leaf \<open>l\<close> with prefix length \<open>n\<close> in slot \<open>i\<close>.\<close>

definition store :: "ip4_mtrie_8_ply \<Rightarrow> nat \<Rightarrow> u32 \<Rightarrow> nat \<Rightarrow> ip4_mtrie_8_ply" where
  "store p i l n = p\<lparr>leaves := (leaves p)(i := l),
     dst_address_bits_of_leaves := (dst_address_bits_of_leaves p)(i := n)\<rparr>"

text \<open>The same with the count of non-empty leaves adjusted before and after.\<close>

definition replace_leaf :: "ip4_mtrie_8_ply \<Rightarrow> nat \<Rightarrow> u32 \<Rightarrow> nat \<Rightarrow> ip4_mtrie_8_ply" where
  "replace_leaf p i l n =
     (let c = n_non_empty_leafs p - ip4_mtrie_leaf_is_non_empty p i;
          p = store p i l n
      in p\<lparr>n_non_empty_leafs := c + ip4_mtrie_leaf_is_non_empty p i\<rparr>)"

primrec set_ply_with_more_specific_leaf ::
  "nat \<Rightarrow> u32 \<Rightarrow> nat \<Rightarrow> nat \<Rightarrow> ply_pool \<Rightarrow> ply_pool option" where
  "set_ply_with_more_specific_leaf 0 new_leaf bits ply P = None"
| "set_ply_with_more_specific_leaf (Suc depth) new_leaf bits ply P =
     foldo (\<lambda>i P.
       let p = pool_elt_at_index P ply; old_leaf = leaves p i in
       if \<not> ip4_mtrie_leaf_is_terminal old_leaf
       then set_ply_with_more_specific_leaf depth new_leaf bits
              (ip4_mtrie_leaf_get_next_ply_index old_leaf) P
       else if dst_address_bits_of_leaves p i \<le> bits
       then let p = store p i new_leaf bits
            in Some (pool_write P ply
                 (p\<lparr>n_non_empty_leafs := n_non_empty_leafs p + ip4_mtrie_leaf_is_non_empty p i\<rparr>))
       else Some P) [0..<256] P"

text \<open>Plies are nested at most four deep.\<close>

definition max_depth :: nat where
  "max_depth = 4"

function set_leaf :: "ip4_mtrie_set_unset_leaf_args \<Rightarrow> nat \<Rightarrow> nat \<Rightarrow> ply_pool \<Rightarrow> ply_pool option" where
  "set_leaf a old_ply_index dst_address_byte_index P =
     (if 4 \<le> dst_address_byte_index then None else
      let n_dst_bits_next_plies = int (dst_address_length a) - 8 * (int dst_address_byte_index + 1);
          dst_byte = unat (as_u8 (dst_address a) dst_address_byte_index)
      in
      if n_dst_bits_next_plies \<le> 0
      then
        let n_dst_bits_this_ply = nat (min 8 (- n_dst_bits_next_plies)) in
        foldo (\<lambda>i P.
          let old_ply = pool_elt_at_index P old_ply_index; old_leaf = leaves old_ply i in
          if dst_address_bits_of_leaves old_ply i \<le> dst_address_length a
          then let new_leaf = ip4_mtrie_leaf_set_adj_index (adj_index a) in
               if ip4_mtrie_leaf_is_terminal old_leaf
               then Some (pool_write P old_ply_index
                      (replace_leaf old_ply i new_leaf (dst_address_length a)))
               else set_ply_with_more_specific_leaf max_depth new_leaf (dst_address_length a)
                      (ip4_mtrie_leaf_get_next_ply_index old_leaf) P
          else if \<not> ip4_mtrie_leaf_is_terminal old_leaf
          then set_leaf a (ip4_mtrie_leaf_get_next_ply_index old_leaf)
                 (dst_address_byte_index + 1) P
          else Some P) [dst_byte ..< dst_byte + 2 ^ n_dst_bits_this_ply] P
      else
        let old_ply = pool_elt_at_index P old_ply_index;
            old_leaf = leaves old_ply dst_byte;
            ply_base_len = 8 * (dst_address_byte_index + 1)
        in
        if ip4_mtrie_leaf_is_terminal old_leaf
        then do { let c = n_non_empty_leafs old_ply - ip4_mtrie_leaf_is_non_empty old_ply dst_byte;
                  let P = pool_write P old_ply_index (old_ply\<lparr>n_non_empty_leafs := c\<rparr>);
                  (new_leaf, P) \<leftarrow> ply_create P old_leaf
                     (dst_address_bits_of_leaves old_ply dst_byte) ply_base_len;
                  let old_ply = store (pool_elt_at_index P old_ply_index) dst_byte new_leaf ply_base_len;
                  let old_ply = old_ply\<lparr>n_non_empty_leafs := n_non_empty_leafs old_ply +
                                           ip4_mtrie_leaf_is_non_empty old_ply dst_byte\<rparr>;
                  set_leaf a (ip4_mtrie_leaf_get_next_ply_index new_leaf)
                    (dst_address_byte_index + 1) (pool_write P old_ply_index old_ply) }
        else set_leaf a (ip4_mtrie_leaf_get_next_ply_index old_leaf)
               (dst_address_byte_index + 1) P)"
  by pat_completeness auto
termination
  by (relation "measure (\<lambda>(a, p, k, P). 4 - k)") auto

declare set_leaf.simps [simp del]

text \<open>Slot \<open>i\<close> after \<open>dst_byte\<close> in a root of 65536 slots: the array index is in network order.\<close>

definition root_slot :: "u16 \<Rightarrow> nat \<Rightarrow> nat" where
  "root_slot dst_byte i =
     unat (clib_host_to_net_u16 (clib_net_to_host_u16 dst_byte + of_nat i))"

definition root_store :: "ip4_mtrie_16 \<Rightarrow> nat \<Rightarrow> u32 \<Rightarrow> nat \<Rightarrow> ip4_mtrie_16" where
  "root_store m i l n = m\<lparr>root_leaves := (root_leaves m)(i := l), root_bits := (root_bits m)(i := n)\<rparr>"

definition set_root_leaf ::
  "ip4_mtrie_set_unset_leaf_args \<Rightarrow> ip4_mtrie_16 \<times> ply_pool \<Rightarrow> (ip4_mtrie_16 \<times> ply_pool) option" where
  "set_root_leaf a s =
     (let n_dst_bits_next_plies = int (dst_address_length a) - 16;
          dst_byte = as_u16_0 (dst_address a)
      in
      if n_dst_bits_next_plies \<le> 0
      then
        let n_dst_bits_this_ply = 16 - dst_address_length a in
        foldo (\<lambda>i (m, P).
          let slot = root_slot dst_byte i; old_leaf = root_leaves m slot in
          if root_bits m slot \<le> dst_address_length a
          then let new_leaf = ip4_mtrie_leaf_set_adj_index (adj_index a) in
               if ip4_mtrie_leaf_is_terminal old_leaf
               then Some (root_store m slot new_leaf (dst_address_length a), P)
               else do { P \<leftarrow> set_ply_with_more_specific_leaf max_depth new_leaf (dst_address_length a)
                           (ip4_mtrie_leaf_get_next_ply_index old_leaf) P;
                         Some (m, P) }
          else if \<not> ip4_mtrie_leaf_is_terminal old_leaf
          then do { P \<leftarrow> set_leaf a (ip4_mtrie_leaf_get_next_ply_index old_leaf) 2 P; Some (m, P) }
          else Some (m, P)) [0 ..< 2 ^ n_dst_bits_this_ply] s
      else
        let (m, P) = s; slot = unat dst_byte; old_leaf = root_leaves m slot in
        if ip4_mtrie_leaf_is_terminal old_leaf
        then do { (new_leaf, P) \<leftarrow> ply_create P old_leaf (root_bits m slot) 16;
                  let m = root_store m slot new_leaf 16;
                  P \<leftarrow> set_leaf a (ip4_mtrie_leaf_get_next_ply_index new_leaf) 2 P;
                  Some (m, P) }
        else do { P \<leftarrow> set_leaf a (ip4_mtrie_leaf_get_next_ply_index old_leaf) 2 P; Some (m, P) })"

subsection \<open>Route removal\<close>

text \<open>The flag of the result says whether the ply was released.\<close>

function unset_leaf ::
  "ip4_mtrie_set_unset_leaf_args \<Rightarrow> nat \<Rightarrow> nat \<Rightarrow> ply_pool \<Rightarrow> (bool \<times> ply_pool) option" where
  "unset_leaf a old_ply_index dst_address_byte_index P =
     (if 4 \<le> dst_address_byte_index then None else
      let n_dst_bits_next_plies = int (dst_address_length a) - 8 * (int dst_address_byte_index + 1);
          dst_byte = as_u8 (dst_address a) dst_address_byte_index;
          dst_byte = unat (if n_dst_bits_next_plies < 0
            then dst_byte AND NOT (ucast (pow2_mask (nat (- n_dst_bits_next_plies)))) else dst_byte);
          n_dst_bits_this_ply = (if n_dst_bits_next_plies \<le> 0 then - n_dst_bits_next_plies else 0);
          n_dst_bits_this_ply = nat (min 8 n_dst_bits_this_ply);
          del_leaf = ip4_mtrie_leaf_set_adj_index (adj_index a)
      in
      foldo (\<lambda>i (deleted, P).
        if deleted then Some (deleted, P) else
        do { let old_ply = pool_elt_at_index P old_ply_index;
             let old_leaf = leaves old_ply i;
             (change, P) \<leftarrow>
               (if old_leaf = del_leaf then Some (True, P)
                else if \<not> ip4_mtrie_leaf_is_terminal old_leaf
                then unset_leaf a (ip4_mtrie_leaf_get_next_ply_index old_leaf)
                       (dst_address_byte_index + 1) P
                else Some (False, P));
             if change
             then let old_ply = replace_leaf (pool_elt_at_index P old_ply_index) i
                        (ip4_mtrie_leaf_set_adj_index (cover_adj_index a)) (cover_address_length a);
                      P = pool_write P old_ply_index old_ply
                  in if n_non_empty_leafs old_ply = 0 \<and> 0 < dst_address_byte_index
                     then Some (True, pool_put_index P old_ply_index)
                     else Some (False, P)
             else Some (False, P) })
        [dst_byte ..< dst_byte + 2 ^ n_dst_bits_this_ply] (False, P))"
  by pat_completeness auto
termination
  by (relation "measure (\<lambda>(a, p, k, P). 4 - k)") auto

declare unset_leaf.simps [simp del]

definition unset_root_leaf ::
  "ip4_mtrie_set_unset_leaf_args \<Rightarrow> ip4_mtrie_16 \<times> ply_pool \<Rightarrow> (ip4_mtrie_16 \<times> ply_pool) option" where
  "unset_root_leaf a s =
     (let n_dst_bits_next_plies = int (dst_address_length a) - 16;
          dst_byte = as_u16_0 (dst_address a);
          n_dst_bits_this_ply = (if n_dst_bits_next_plies \<le> 0 then 16 - dst_address_length a else 0);
          del_leaf = ip4_mtrie_leaf_set_adj_index (adj_index a)
      in
      foldo (\<lambda>i (m, P).
        do { let slot = root_slot dst_byte i;
             let old_leaf = root_leaves m slot;
             (change, P) \<leftarrow>
               (if old_leaf = del_leaf then Some (True, P)
                else if \<not> ip4_mtrie_leaf_is_terminal old_leaf
                then unset_leaf a (ip4_mtrie_leaf_get_next_ply_index old_leaf) 2 P
                else Some (False, P));
             if change
             then Some (root_store m slot (ip4_mtrie_leaf_set_adj_index (cover_adj_index a))
                          (cover_address_length a), P)
             else Some (m, P) }) [0 ..< 2 ^ n_dst_bits_this_ply] s)"

subsection \<open>The interface of the tries\<close>

definition route_add_args :: "ip4_address \<Rightarrow> nat \<Rightarrow> u32 \<Rightarrow> ip4_mtrie_set_unset_leaf_args" where
  "route_add_args dst len adj =
     \<lparr>dst_address = dst AND fib_masks len, dst_address_length = len, adj_index = adj,
      cover_address_length = 0, cover_adj_index = 0\<rparr>"

definition ip4_mtrie_16_route_add ::
  "ip4_mtrie_16 \<times> ply_pool \<Rightarrow> ip4_address \<Rightarrow> nat \<Rightarrow> u32 \<Rightarrow> (ip4_mtrie_16 \<times> ply_pool) option" where
  "ip4_mtrie_16_route_add s dst len adj = set_root_leaf (route_add_args dst len adj) s"

definition ip4_mtrie_8_route_add ::
  "nat \<times> ply_pool \<Rightarrow> ip4_address \<Rightarrow> nat \<Rightarrow> u32 \<Rightarrow> (nat \<times> ply_pool) option" where
  "ip4_mtrie_8_route_add s dst len adj =
     (let (root, P) = s in
      do { P \<leftarrow> set_leaf (route_add_args dst len adj) root 0 P; Some (root, P) })"

definition ip4_mtrie_16_route_del ::
  "ip4_mtrie_16 \<times> ply_pool \<Rightarrow> ip4_address \<Rightarrow> nat \<Rightarrow> u32 \<Rightarrow> nat \<Rightarrow> u32 \<Rightarrow>
   (ip4_mtrie_16 \<times> ply_pool) option" where
  "ip4_mtrie_16_route_del s dst len adj cover_len cover_adj =
     unset_root_leaf
       \<lparr>dst_address = dst AND fib_masks len, dst_address_length = len, adj_index = adj,
        cover_address_length = cover_len, cover_adj_index = cover_adj\<rparr> s"

definition ip4_mtrie_8_route_del ::
  "nat \<times> ply_pool \<Rightarrow> ip4_address \<Rightarrow> nat \<Rightarrow> u32 \<Rightarrow> nat \<Rightarrow> u32 \<Rightarrow> (nat \<times> ply_pool) option" where
  "ip4_mtrie_8_route_del s dst len adj cover_len cover_adj =
     (let (root, P) = s in
      do { (_, P) \<leftarrow> unset_leaf
             \<lparr>dst_address = dst AND fib_masks len, dst_address_length = len, adj_index = adj,
              cover_address_length = cover_len, cover_adj_index = cover_adj\<rparr> root 0 P;
           Some (root, P) })"

subsection \<open>Lookup\<close>

definition ip4_mtrie_8_lookup_step :: "ply_pool \<Rightarrow> u32 \<Rightarrow> ip4_address \<Rightarrow> nat \<Rightarrow> u32" where
  "ip4_mtrie_8_lookup_step P current_leaf dst dst_address_byte_index =
     (if \<not> ip4_mtrie_leaf_is_terminal current_leaf
      then leaves (pool_elt_at_index P (unat (drop_bit 1 current_leaf)))
             (unat (as_u8 dst dst_address_byte_index))
      else current_leaf)"

definition ip4_mtrie_8_lookup_step_one :: "nat \<times> ply_pool \<Rightarrow> ip4_address \<Rightarrow> u32" where
  "ip4_mtrie_8_lookup_step_one s dst =
     (let (root, P) = s in leaves (pool_elt_at_index P root) (unat (as_u8 dst 0)))"

definition ip4_mtrie_16_lookup_step :: "ply_pool \<Rightarrow> u32 \<Rightarrow> ip4_address \<Rightarrow> nat \<Rightarrow> u32" where
  "ip4_mtrie_16_lookup_step P current_leaf dst dst_address_byte_index =
     (if \<not> ip4_mtrie_leaf_is_terminal current_leaf
      then leaves (pool_elt_at_index P (unat (drop_bit 1 current_leaf)))
             (unat (as_u8 dst dst_address_byte_index))
      else current_leaf)"

definition ip4_mtrie_16_lookup_step_one :: "ip4_mtrie_16 \<times> ply_pool \<Rightarrow> ip4_address \<Rightarrow> u32" where
  "ip4_mtrie_16_lookup_step_one s dst = root_leaves (fst s) (unat (as_u16_0 dst))"

end
