(* ===== verification/Mtrie_Refine.thy ===== *)
theory Mtrie_Refine
  imports Mtrie
begin

text \<open>
  The plies in the pool implement the trees of \<open>Mtrie_Tree\<close>. \<open>rep_node\<close> relates a slot to a tree,
  \<open>fp\<close> is the set of plies the tree occupies (its footprint), \<open>evolves\<close> says that a change of the
  pool is confined to a footprint. Each operation on plies is shown to return, to compute the
  function on trees, and to leave every ply outside its footprint as it was, so that tries that
  share the pool do not interfere.
\<close>

abbreviation H :: "ply_pool \<Rightarrow> nat \<Rightarrow> ip4_mtrie_8_ply" where
  "H P \<equiv> pool_elt_at_index P"

abbreviation enc :: "u32 \<Rightarrow> u32" where
  "enc \<equiv> ip4_mtrie_leaf_set_adj_index"

abbreviation sub_ply :: "u32 \<Rightarrow> nat" where
  "sub_ply \<equiv> ip4_mtrie_leaf_get_next_ply_index"

abbreviation bits :: "ip4_mtrie_8_ply \<Rightarrow> nat \<Rightarrow> nat" where
  "bits \<equiv> dst_address_bits_of_leaves"

subsection \<open>Leaf encoding\<close>

lemma and_1_iff: "n AND 1 = (0 :: u32) \<longleftrightarrow> \<not> bit n 0"
  by (simp add: and_one_eq bit_0 odd_iff_mod_2_eq_one)

lemma terminal_enc [simp]: "ip4_mtrie_leaf_is_terminal (enc a)"
  by (simp add: ip4_mtrie_leaf_is_terminal_def ip4_mtrie_leaf_set_adj_index_def and_1_iff bit_0)

lemma not_terminal_sub [simp]: "\<not> ip4_mtrie_leaf_is_terminal (ip4_mtrie_leaf_set_next_ply_index i)"
  by (simp add: ip4_mtrie_leaf_is_terminal_def ip4_mtrie_leaf_set_next_ply_index_def and_1_iff bit_0)

lemma sub_ply_set [simp]:
  assumes "i < 2 ^ 31"
  shows "sub_ply (ip4_mtrie_leaf_set_next_ply_index i) = i"
proof -
  have "unat (2 * of_nat i :: u32) = 2 * i"
    using assms by (simp add: unat_word_ariths unat_of_nat)
  then have "unat (2 * of_nat i div 2 :: u32) = i" by (simp add: unat_div)
  then show ?thesis
    by (simp add: ip4_mtrie_leaf_get_next_ply_index_def ip4_mtrie_leaf_set_next_ply_index_def
        drop_bit_eq_div)
qed

lemma get_adj_enc [simp]:
  assumes "unat a < 2 ^ 31"
  shows "ip4_mtrie_leaf_get_adj_index (enc a) = a"
proof -
  have "unat (1 + 2 * a) = 1 + 2 * unat a"
    using assms by (simp add: unat_word_ariths)
  moreover have "unat ((1 + 2 * a) div 2) = unat (1 + 2 * a) div unat (2 :: u32)" by (rule unat_div)
  ultimately have "(1 + 2 * a) div 2 = a" by (intro word_unat_eq_iff [THEN iffD2]) simp
  then show ?thesis
    unfolding ip4_mtrie_leaf_get_adj_index_def ip4_mtrie_leaf_set_adj_index_def drop_bit_eq_div
    by simp
qed

lemma enc_inj: "unat a < 2 ^ 31 \<Longrightarrow> unat b < 2 ^ 31 \<Longrightarrow> enc a = enc b \<longleftrightarrow> a = b"
  by (metis get_adj_enc)

subsection \<open>Representation of trees by plies\<close>

primrec fp :: "node \<Rightarrow> (nat \<Rightarrow> ip4_mtrie_8_ply) \<Rightarrow> u32 \<Rightarrow> nat set" where
  "fp (Lf n a) h l = {}"
| "fp (Nd f) h l = insert (sub_ply l) (\<Union>i<256. fp (f i) h (leaves (h (sub_ply l)) i))"

definition n_own :: "nat \<Rightarrow> (nat \<Rightarrow> node) \<Rightarrow> int" where
  "n_own k f = int (card {i. i < 256 \<and> \<not> empty_at k (f i)})"

primrec rep_node :: "node \<Rightarrow> (nat \<Rightarrow> ip4_mtrie_8_ply) \<Rightarrow> nat \<Rightarrow> u32 \<Rightarrow> nat \<Rightarrow> bool" where
  "rep_node (Lf n a) h k l b \<longleftrightarrow> l = enc a \<and> b = n \<and> unat a < 2 ^ 31"
| "rep_node (Nd f) h k l b \<longleftrightarrow>
     sub_ply l < 2 ^ 31 \<and> l = ip4_mtrie_leaf_set_next_ply_index (sub_ply l) \<and> b = 8 * k \<and>
     dst_address_bits_base (h (sub_ply l)) = 8 * k \<and>
     n_non_empty_leafs (h (sub_ply l)) = n_own k f \<and>
     (\<forall>i<256. rep_node (f i) h (Suc k) (leaves (h (sub_ply l)) i) (bits (h (sub_ply l)) i)) \<and>
     (\<forall>i<256. sub_ply l \<notin> fp (f i) h (leaves (h (sub_ply l)) i)) \<and>
     (\<forall>i<256. \<forall>j<256. i \<noteq> j \<longrightarrow>
        fp (f i) h (leaves (h (sub_ply l)) i) \<inter> fp (f j) h (leaves (h (sub_ply l)) j) = {})"

definition slot_fp :: "(nat \<Rightarrow> ip4_mtrie_8_ply) \<Rightarrow> nat \<Rightarrow> (nat \<Rightarrow> node) \<Rightarrow> nat \<Rightarrow> nat set" where
  "slot_fp h q f i = fp (f i) h (leaves (h q) i)"

definition ply_fp :: "(nat \<Rightarrow> ip4_mtrie_8_ply) \<Rightarrow> nat \<Rightarrow> (nat \<Rightarrow> node) \<Rightarrow> nat set" where
  "ply_fp h q f = insert q (\<Union>i<256. slot_fp h q f i)"

definition ply_rep :: "(nat \<Rightarrow> ip4_mtrie_8_ply) \<Rightarrow> nat \<Rightarrow> nat \<Rightarrow> (nat \<Rightarrow> node) \<Rightarrow> bool" where
  "ply_rep h q k f \<longleftrightarrow>
     dst_address_bits_base (h q) = 8 * k \<and> n_non_empty_leafs (h q) = n_own k f \<and>
     (\<forall>i<256. rep_node (f i) h (Suc k) (leaves (h q) i) (bits (h q) i)) \<and>
     (\<forall>i<256. q \<notin> slot_fp h q f i) \<and>
     (\<forall>i<256. \<forall>j<256. i \<noteq> j \<longrightarrow> slot_fp h q f i \<inter> slot_fp h q f j = {})"

lemma rep_node_Nd:
  "rep_node (Nd f) h k l b \<longleftrightarrow>
     sub_ply l < 2 ^ 31 \<and> l = ip4_mtrie_leaf_set_next_ply_index (sub_ply l) \<and> b = 8 * k \<and>
     ply_rep h (sub_ply l) k f"
  by (auto simp: ply_rep_def slot_fp_def)

lemma fp_Nd: "fp (Nd f) h l = ply_fp h (sub_ply l) f"
  by (simp add: ply_fp_def slot_fp_def)

declare rep_node.simps(2) [simp del] fp.simps(2) [simp del]
declare rep_node_Nd [simp] fp_Nd [simp]

lemma rep_node_terminal:
  assumes "rep_node t h k l b"
  shows "ip4_mtrie_leaf_is_terminal l \<longleftrightarrow> (\<exists>n a. t = Lf n a)"
  using assms by (cases t) (auto, metis not_terminal_sub)

lemma ply_rep_cong:
  assumes "\<And>i. i < 256 \<Longrightarrow> f i = g i"
  shows "ply_rep h q k f = ply_rep h q k g" and "ply_fp h q f = ply_fp h q g"
proof -
  have "{i. i < 256 \<and> \<not> empty_at k (f i)} = {i. i < 256 \<and> \<not> empty_at k (g i)}"
    using assms by auto
  then show "ply_rep h q k f = ply_rep h q k g" "ply_fp h q f = ply_fp h q g"
    using assms by (auto simp: ply_rep_def ply_fp_def slot_fp_def n_own_def)
qed

text \<open>Both depend on the plies of the footprint only.\<close>

lemma fp_cong: "(\<And>p. p \<in> fp t h l \<Longrightarrow> h' p = h p) \<Longrightarrow> fp t h' l = fp t h l"
proof (induction t arbitrary: l)
  case (Nd f)
  let ?q = "sub_ply l"
  have q: "h' ?q = h ?q" using Nd.prems by (simp add: ply_fp_def)
  have "slot_fp h' ?q f i = slot_fp h ?q f i" if "i < 256" for i
    unfolding slot_fp_def q using Nd.IH [of "f i"] Nd.prems that
    by (auto simp: ply_fp_def slot_fp_def)
  then show ?case by (simp add: ply_fp_def)
qed simp

lemma rep_node_cong: "(\<And>p. p \<in> fp t h l \<Longrightarrow> h' p = h p) \<Longrightarrow> rep_node t h' k l b = rep_node t h k l b"
proof (induction t arbitrary: k l b)
  case (Nd f)
  let ?q = "sub_ply l"
  have q: "h' ?q = h ?q" using Nd.prems by (simp add: ply_fp_def)
  have "slot_fp h' ?q f i = slot_fp h ?q f i"
      "rep_node (f i) h' (Suc k) (leaves (h ?q) i) (bits (h ?q) i) =
       rep_node (f i) h (Suc k) (leaves (h ?q) i) (bits (h ?q) i)" if "i < 256" for i
  proof -
    have sub: "h' p = h p" if "p \<in> fp (f i) h (leaves (h ?q) i)" for p
      using Nd.prems that \<open>i < 256\<close> by (auto simp: ply_fp_def slot_fp_def)
    show "slot_fp h' ?q f i = slot_fp h ?q f i"
      unfolding slot_fp_def q using sub by (rule fp_cong)
    show "rep_node (f i) h' (Suc k) (leaves (h ?q) i) (bits (h ?q) i) =
       rep_node (f i) h (Suc k) (leaves (h ?q) i) (bits (h ?q) i)"
      using sub by (intro Nd.IH) auto
  qed
  then show ?case by (simp add: ply_rep_def q)
qed simp

subsection \<open>Changes confined to a footprint\<close>

definition evolves :: "ply_pool \<Rightarrow> nat set \<Rightarrow> ply_pool \<Rightarrow> nat set \<Rightarrow> bool" where
  "evolves P F P' F' \<longleftrightarrow>
     pool_wf P' \<and> F' \<subseteq> pool_active P' \<and> pool_active P' - F' = pool_active P - F \<and>
     (\<forall>p\<in>pool_active P - F. H P' p = H P p)"

lemma evolves_refl: "pool_wf P \<Longrightarrow> F \<subseteq> pool_active P \<Longrightarrow> evolves P F P F"
  by (simp add: evolves_def)

lemma evolves_trans: "evolves P F P' F' \<Longrightarrow> evolves P' F' P'' F'' \<Longrightarrow> evolves P F P'' F''"
  by (auto simp: evolves_def)

lemma H_write: "p \<in> pool_active P \<Longrightarrow> H (pool_write P p x) = (H P)(p := x)"
  by (auto simp: pool_write_def pool_elt_at_index_def pool_active_def)

lemma evolves_write: "pool_wf P \<Longrightarrow> F \<subseteq> pool_active P \<Longrightarrow> p \<in> F \<Longrightarrow> evolves P F (pool_write P p x) F"
  by (auto simp: evolves_def pool_write_wf H_write)

text \<open>Only slot \<open>i\<close> of a ply, and the plies below it, change.\<close>

lemma n_own_upd:
  assumes "i < 256"
  shows "n_own k (f(i := t)) =
    n_own k f - (if empty_at k (f i) then 0 else 1) + (if empty_at k t then 0 else 1)"
proof -
  let ?S = "{j. j < 256 \<and> \<not> empty_at k (f j)}" and ?T = "{j. j < 256 \<and> j \<noteq> i \<and> \<not> empty_at k (f j)}"
  have fin: "finite ?T" by simp
  have "?S = (if empty_at k (f i) then ?T else insert i ?T)" using assms by auto
  then have S: "card ?S = card ?T + (if empty_at k (f i) then 0 else 1)" using fin by simp
  have "{j. j < 256 \<and> \<not> empty_at k ((f(i := t)) j)} = (if empty_at k t then ?T else insert i ?T)"
    using assms by auto
  then have "card {j. j < 256 \<and> \<not> empty_at k ((f(i := t)) j)} =
      card ?T + (if empty_at k t then 0 else 1)" using fin by simp
  with S show ?thesis by (simp add: n_own_def)
qed

lemma ply_rep_slot:
  assumes rep: "ply_rep h q k f" and i: "i < 256"
    and out: "\<And>p. p \<in> (\<Union>j\<in>{..<256} - {i}. slot_fp h q f j) \<Longrightarrow> h' p = h p"
    and ply: "dst_address_bits_base (h' q) = dst_address_bits_base (h q)"
      "\<And>j. j \<noteq> i \<Longrightarrow> leaves (h' q) j = leaves (h q) j" "\<And>j. j \<noteq> i \<Longrightarrow> bits (h' q) j = bits (h q) j"
      "n_non_empty_leafs (h' q) = n_own k (f(i := t))"
    and t: "rep_node t h' (Suc k) (leaves (h' q) i) (bits (h' q) i)"
    and fresh: "q \<notin> fp t h' (leaves (h' q) i)"
      "\<And>j. j < 256 \<Longrightarrow> j \<noteq> i \<Longrightarrow> fp t h' (leaves (h' q) i) \<inter> slot_fp h q f j = {}"
  shows "ply_rep h' q k (f(i := t))"
    and "ply_fp h' q (f(i := t)) = (ply_fp h q f - slot_fp h q f i) \<union> fp t h' (leaves (h' q) i)"
proof -
  have other: "slot_fp h' q (f(i := t)) j = slot_fp h q f j"
      "rep_node (f j) h' (Suc k) (leaves (h' q) j) (bits (h' q) j)" if j: "j < 256" "j \<noteq> i" for j
  proof -
    have e: "h' p = h p" if "p \<in> fp (f j) h (leaves (h q) j)" for p
      using out that j by (auto simp: slot_fp_def)
    show "slot_fp h' q (f(i := t)) j = slot_fp h q f j"
      unfolding slot_fp_def using fp_cong [OF e] j ply(2) by simp
    show "rep_node (f j) h' (Suc k) (leaves (h' q) j) (bits (h' q) j)"
      using rep_node_cong [OF e] rep j ply(2,3) by (simp add: ply_rep_def)
  qed
  have this_slot: "slot_fp h' q (f(i := t)) i = fp t h' (leaves (h' q) i)"
    by (simp add: slot_fp_def)
  show "ply_rep h' q k (f(i := t))"
    unfolding ply_rep_def
  proof (intro conjI allI impI)
    fix j assume j: "j < (256 :: nat)"
    show "rep_node ((f(i := t)) j) h' (Suc k) (leaves (h' q) j) (bits (h' q) j)"
      using t other(2) [OF j] by (cases "j = i") auto
    show "q \<notin> slot_fp h' q (f(i := t)) j"
      using fresh(1) this_slot other(1) [OF j] rep j by (cases "j = i") (auto simp: ply_rep_def)
    fix m assume m: "m < (256 :: nat)" "j \<noteq> m"
    show "slot_fp h' q (f(i := t)) j \<inter> slot_fp h' q (f(i := t)) m = {}"
      using fresh(2) this_slot other(1) rep j m
      by (cases "j = i"; cases "m = i") (auto simp: ply_rep_def)
  qed (use rep ply in \<open>auto simp: ply_rep_def\<close>)
  have "(\<Union>j<256. slot_fp h' q (f(i := t)) j) =
      (\<Union>j\<in>{..<256} - {i}. slot_fp h q f j) \<union> fp t h' (leaves (h' q) i)"
    using other(1) this_slot i by (auto split: if_splits)
  moreover have "(\<Union>j<256. slot_fp h q f j) - slot_fp h q f i = (\<Union>j\<in>{..<256} - {i}. slot_fp h q f j)"
    using rep i unfolding ply_rep_def by blast
  moreover have "q \<notin> slot_fp h q f i" using rep i by (simp add: ply_rep_def)
  ultimately show "ply_fp h' q (f(i := t)) =
      (ply_fp h q f - slot_fp h q f i) \<union> fp t h' (leaves (h' q) i)"
    by (auto simp: ply_fp_def)
qed

text \<open>A change below slot \<open>i\<close> followed by an update of that slot.\<close>

lemma evolves_insert:
  assumes "evolves P F P' F'" "q \<in> pool_active P" "q \<notin> F"
  shows "evolves P (insert q F) P' (insert q F')" "q \<notin> F'" "H P' q = H P q"
proof -
  have q: "q \<in> pool_active P' - F'" using assms unfolding evolves_def by blast
  then show "evolves P (insert q F) P' (insert q F')" "q \<notin> F'" "H P' q = H P q"
    using assms unfolding evolves_def by auto
qed

lemma slot_evolves:
  assumes rep: "ply_rep (H P) q k f" and act: "ply_fp (H P) q f \<subseteq> pool_active P" and i: "i < 256"
    and ev: "evolves P (insert q (slot_fp (H P) q f i)) P' (insert q F')" and qF': "q \<notin> F'"
    and P2: "pool_wf P2" "pool_active P2 = pool_active P'" "H P2 = (H P')(q := x)"
    and x: "dst_address_bits_base x = dst_address_bits_base (H P q)"
      "leaves x = (leaves (H P q))(i := l)" "bits x = (bits (H P q))(i := b)"
      "n_non_empty_leafs x = n_own k (f(i := t))"
    and t: "rep_node t (H P') (Suc k) l b" "fp t (H P') l = F'"
  shows "ply_rep (H P2) q k (f(i := t))"
    and "evolves P (ply_fp (H P) q f) P2 (ply_fp (H P2) q (f(i := t)))"
proof -
  let ?F = "slot_fp (H P) q f i"
  have dis: "slot_fp (H P) q f j \<inter> ?F = {}" "q \<notin> slot_fp (H P) q f j" if "j < 256" "j \<noteq> i" for j
    using rep that i unfolding ply_rep_def by blast+
  have qF: "q \<notin> ?F" "q \<in> pool_active P" using rep i act by (auto simp: ply_rep_def ply_fp_def)
  have sub: "slot_fp (H P) q f j \<subseteq> pool_active P - ?F" if "j < 256" "j \<noteq> i" for j
    using dis [OF that] act that by (auto simp: ply_fp_def)
  have out: "F' \<inter> (pool_active P - ?F) = {}" "pool_active P' = (pool_active P - ?F) \<union> F'"
    using ev qF qF' unfolding evolves_def by blast+
  have tP2: "rep_node t (H P2) (Suc k) l b" "fp t (H P2) l = F'"
    using rep_node_cong [of t "H P'" l "H P2" "Suc k" b] fp_cong [of t "H P'" l "H P2"] t qF'
    by (simp_all add: P2(3), metis+)
  have old: "H P2 p = H P p" if "p \<in> pool_active P - ?F" "p \<noteq> q" for p
    using ev that by (simp add: evolves_def P2(3))
  have slot: "leaves (H P2 q) i = l" "bits (H P2 q) i = b" by (simp_all add: P2(3) x)
  have others: "H P2 p = H P p" if "p \<in> (\<Union>j\<in>{..<256} - {i}. slot_fp (H P) q f j)" for p
    using that sub dis old by blast
  have "ply_rep (H P2) q k (f(i := t)) \<and>
      ply_fp (H P2) q (f(i := t)) = (ply_fp (H P) q f - ?F) \<union> F'"
    using ply_rep_slot [OF rep i others, of t] tP2 qF' out(1) sub
    by (simp add: slot) (simp add: P2(3) x, blast)
  moreover have F: "?F \<subseteq> ply_fp (H P) q f" "q \<in> ply_fp (H P) q f"
    using i by (auto simp: ply_fp_def)
  moreover have "H P2 p = H P p" if "p \<in> pool_active P - ply_fp (H P) q f" for p
    using that old F by blast
  ultimately show "ply_rep (H P2) q k (f(i := t))"
    and "evolves P (ply_fp (H P) q f) P2 (ply_fp (H P2) q (f(i := t)))"
    using act out P2(1,2) unfolding evolves_def by auto
qed

text \<open>The two uses: a store in a slot that holds a leaf, and a change of the sub-ply in a slot.\<close>

lemma store_leaf:
  assumes rep: "ply_rep (H P) q k f" and wf: "pool_wf P" and act: "ply_fp (H P) q f \<subseteq> pool_active P"
    and i: "i < 256" and fi: "slot_fp (H P) q f i = {}" and a: "unat a < 2 ^ 31"
    and x: "dst_address_bits_base x = dst_address_bits_base (H P q)"
      "leaves x = (leaves (H P q))(i := enc a)" "bits x = (bits (H P q))(i := n)"
      "n_non_empty_leafs x = n_own k (f(i := Lf n a))"
  shows "ply_rep (H (pool_write P q x)) q k (f(i := Lf n a))"
    and "evolves P (ply_fp (H P) q f) (pool_write P q x) (ply_fp (H (pool_write P q x)) q (f(i := Lf n a)))"
proof -
  have q: "q \<in> pool_active P" using act by (simp add: ply_fp_def)
  have ev: "evolves P (insert q (slot_fp (H P) q f i)) P (insert q {})"
    using wf fi q by (simp add: evolves_refl)
  show "ply_rep (H (pool_write P q x)) q k (f(i := Lf n a))"
    and "evolves P (ply_fp (H P) q f) (pool_write P q x) (ply_fp (H (pool_write P q x)) q (f(i := Lf n a)))"
    using slot_evolves [OF rep act i ev _ _ _ H_write [OF q] x] wf a by (simp_all add: pool_write_wf)
qed

lemma sub_ply_change:
  assumes rep: "ply_rep (H P) q k f" and act: "ply_fp (H P) q f \<subseteq> pool_active P" and i: "i < 256"
    and fi: "f i = Nd g" and ev: "evolves P (slot_fp (H P) q f i) P' (ply_fp (H P') (sub_ply (leaves (H P q) i)) g')"
    and rep': "ply_rep (H P') (sub_ply (leaves (H P q) i)) (Suc k) g'"
  shows "ply_rep (H P') q k (f(i := Nd g'))"
    and "evolves P (ply_fp (H P) q f) P' (ply_fp (H P') q (f(i := Nd g')))"
proof -
  note ins = evolves_insert [OF ev, of q]
  have q: "q \<in> pool_active P" "q \<notin> slot_fp (H P) q f i"
    using rep act i by (auto simp: ply_rep_def ply_fp_def)
  have ri: "rep_node (Nd g) (H P) (Suc k) (leaves (H P q) i) (bits (H P q) i)"
    using rep i fi unfolding ply_rep_def by metis
  have cnt: "n_non_empty_leafs (H P q) = n_own k (f(i := Nd g'))"
    using rep i fi by (simp add: n_own_upd ply_rep_def)
  have P': "pool_wf P'" "H P' = (H P')(q := H P q)"
    using ev ins(3) [OF q] by (auto simp: evolves_def fun_upd_idem)
  show "ply_rep (H P') q k (f(i := Nd g'))"
    and "evolves P (ply_fp (H P) q f) P' (ply_fp (H P') q (f(i := Nd g')))"
    using slot_evolves [OF rep act i ins(1,2) [OF q] P'(1) refl P'(2) refl, of "leaves (H P q) i" "bits (H P q) i" "Nd g'"]
      ri rep' cnt by simp_all
qed

text \<open>\<open>reaches P0 F0 q k f P\<close>: from pool \<open>P0\<close>, with changes inside footprint \<open>F0\<close> only, the ply \<open>q\<close> at
  depth \<open>k\<close> has come to represent \<open>f\<close> in pool \<open>P\<close>.\<close>

definition reaches ::
  "ply_pool \<Rightarrow> nat set \<Rightarrow> nat \<Rightarrow> nat \<Rightarrow> (nat \<Rightarrow> node) \<Rightarrow> ply_pool \<Rightarrow> bool" where
  "reaches P0 F0 q k f P \<longleftrightarrow> ply_rep (H P) q k f \<and> evolves P0 F0 P (ply_fp (H P) q f)"

lemma reaches_refl:
  "ply_rep (H P) q k f \<Longrightarrow> pool_wf P \<Longrightarrow> ply_fp (H P) q f \<subseteq> pool_active P \<Longrightarrow>
   reaches P (ply_fp (H P) q f) q k f P"
  by (simp add: reaches_def evolves_refl)

lemma reaches_pool:
  assumes "reaches P0 F0 q k f P"
  shows "ply_rep (H P) q k f" "pool_wf P" "ply_fp (H P) q f \<subseteq> pool_active P"
  using assms by (simp_all add: reaches_def evolves_def)

lemma reaches_cong:
  assumes "\<And>i. i < 256 \<Longrightarrow> f i = g i"
  shows "reaches P0 F0 q k f P = reaches P0 F0 q k g P"
  by (simp add: reaches_def ply_rep_cong [of f g, OF assms])

lemma reaches_trans:
  assumes "reaches P0 F0 q k f P" and "reaches P (ply_fp (H P) q f) q k g P'"
  shows "reaches P0 F0 q k g P'"
  using assms evolves_trans by (auto simp: reaches_def)

lemma slot_leaf:
  assumes "ply_rep (H P) q k f" "i < 256" "f i = Lf n b"
  shows "leaves (H P q) i = enc b" "bits (H P q) i = n" "unat b < 2 ^ 31"
    "ip4_mtrie_leaf_is_terminal (leaves (H P q) i)" "slot_fp (H P) q f i = {}"
  using assms by (auto simp: ply_rep_def slot_fp_def)

lemma slot_sub:
  assumes "ply_rep (H P) q k f" "i < 256" "f i = Nd g" and "ply_fp (H P) q f \<subseteq> pool_active P"
  shows "\<not> ip4_mtrie_leaf_is_terminal (leaves (H P q) i)" "bits (H P q) i = 8 * Suc k"
    "ply_rep (H P) (sub_ply (leaves (H P q) i)) (Suc k) g"
    "ply_fp (H P) (sub_ply (leaves (H P q) i)) g \<subseteq> pool_active P"
    "slot_fp (H P) q f i = ply_fp (H P) (sub_ply (leaves (H P q) i)) g"
proof -
  have r: "rep_node (Nd g) (H P) (Suc k) (leaves (H P q) i) (bits (H P q) i)"
    using assms unfolding ply_rep_def by metis
  then show "\<not> ip4_mtrie_leaf_is_terminal (leaves (H P q) i)" "bits (H P q) i = 8 * Suc k"
    "ply_rep (H P) (sub_ply (leaves (H P q) i)) (Suc k) g"
    using rep_node_terminal [OF r] by auto
  show "slot_fp (H P) q f i = ply_fp (H P) (sub_ply (leaves (H P q) i)) g"
    using assms(3) by (simp add: slot_fp_def)
  then show "ply_fp (H P) (sub_ply (leaves (H P q) i)) g \<subseteq> pool_active P"
    using assms(2,4) by (auto simp: ply_fp_def)
qed

lemma reaches_leaf:
  assumes r: "reaches P0 F0 q k f P" and i: "i < 256" and fi: "f i = Lf m b" and a: "unat a < 2 ^ 31"
    and x: "dst_address_bits_base x = dst_address_bits_base (H P q)"
      "leaves x = (leaves (H P q))(i := enc a)" "bits x = (bits (H P q))(i := n)"
      "n_non_empty_leafs x = n_own k (f(i := Lf n a))"
  shows "reaches P0 F0 q k (f(i := Lf n a)) (pool_write P q x)"
proof -
  note p = reaches_pool [OF r]
  have "reaches P (ply_fp (H P) q f) q k (f(i := Lf n a)) (pool_write P q x)"
    using store_leaf [OF p i slot_leaf(5) [OF p(1) i fi] a x] by (simp add: reaches_def)
  with r show ?thesis by (rule reaches_trans)
qed

lemma reaches_sub:
  assumes r: "reaches P0 F0 q k f P" and i: "i < 256" and fi: "f i = Nd g"
    and sub: "reaches P (ply_fp (H P) (sub_ply (leaves (H P q) i)) g) (sub_ply (leaves (H P q) i)) (Suc k) g' P'"
  shows "reaches P0 F0 q k (f(i := Nd g')) P'"
proof -
  note p = reaches_pool [OF r]
  have "reaches P (ply_fp (H P) q f) q k (f(i := Nd g')) P'"
    using sub_ply_change [OF p(1,3) i fi] sub slot_sub(5) [OF p(1) i fi p(3)] by (simp add: reaches_def)
  with r show ?thesis by (rule reaches_trans)
qed

lemma is_non_empty_iff:
  assumes "ply_rep (H P) q k f" "i < 256"
  shows "ip4_mtrie_leaf_is_non_empty (H P q) i = (if empty_at k (f i) then 0 else 1)"
proof (cases "f i")
  case (Lf n b)
  with assms slot_leaf [OF assms Lf] show ?thesis
    by (auto simp: ip4_mtrie_leaf_is_non_empty_def ply_rep_def)
next
  case (Nd g)
  then have "rep_node (Nd g) (H P) (Suc k) (leaves (H P q) i) (bits (H P q) i)"
    using assms unfolding ply_rep_def by metis
  with Nd assms(1) show ?thesis by (auto simp: ip4_mtrie_leaf_is_non_empty_def ply_rep_def)
qed

subsection \<open>Loops\<close>

lemma foldo_append: "foldo f (xs @ ys) s = Option.bind (foldo f xs s) (foldo f ys)"
proof (induction xs arbitrary: s)
  case (Cons x xs)
  then show ?case by (cases "f x s") simp_all
qed simp

lemma foldo_upt:
  assumes "I m s" and "m \<le> n"
    and step: "\<And>i s. m \<le> i \<Longrightarrow> i < n \<Longrightarrow> I i s \<Longrightarrow> \<exists>s'. f i s = Some s' \<and> I (Suc i) s'"
  shows "\<exists>s'. foldo f [m..<n] s = Some s' \<and> I n s'"
  using assms(2) step
proof (induction n)
  case 0
  then show ?case using assms(1) by simp
next
  case (Suc n)
  show ?case
  proof (cases "m = Suc n")
    case True
    then show ?thesis using assms(1) by simp
  next
    case False
    with Suc.prems(1) have "m \<le> n" by simp
    from Suc.IH [OF this Suc.prems(2)]
    obtain s' where s': "foldo f [m..<n] s = Some s'" "I n s'" by auto
    moreover obtain s'' where "f n s' = Some s''" "I (Suc n) s''"
      using Suc.prems(2) [OF \<open>m \<le> n\<close> _ s'(2)] by auto
    ultimately show ?thesis using \<open>m \<le> n\<close> by (simp add: foldo_append)
  qed
qed

subsection \<open>Filling the plies below a prefix\<close>

definition grown :: "nat \<Rightarrow> ply_pool \<Rightarrow> ply_pool \<Rightarrow> bool" where
  "grown n P P' \<longleftrightarrow> max_elts P' = max_elts P \<and> length (elts P') \<le> length (elts P) + n"

lemma grown_write [simp]: "grown n P (pool_write P' i x) = grown n P P'"
  by (simp add: grown_def pool_write_def)

lemma grown_put [simp]: "grown n P (pool_put_index P' i) = grown n P P'"
  by (simp add: grown_def pool_put_index_def)

lemma grown_refl [simp]: "grown n P P"
  by (simp add: grown_def)

lemma grown_trans: "grown m P P' \<Longrightarrow> grown n P' P'' \<Longrightarrow> grown (m + n) P P''"
  by (auto simp: grown_def)

lemma grown_0_trans: "grown 0 P P' \<Longrightarrow> grown n P' P'' \<Longrightarrow> grown n P P''"
  by (auto simp: grown_def)

lemma set_ply_refine:
  assumes "ply_rep (H P) q k f" "pool_wf P" "ply_fp (H P) q f \<subseteq> pool_active P"
    and "\<And>i. i < 256 \<Longrightarrow> wfn (f i) (Suc k)" and "k < 4" "4 \<le> k + depth"
    and "l \<le> 8 * k" "unat a < 2 ^ 31"
  shows "\<exists>P'. set_ply_with_more_specific_leaf depth (enc a) l q P = Some P' \<and>
    reaches P (ply_fp (H P) q f) q k (\<lambda>i. fill_node l a (f i)) P' \<and> grown 0 P P'"
  using assms
proof (induction depth arbitrary: q k f P)
  case (Suc depth)
  note a = Suc.prems(8) and l = Suc.prems(7)
  let ?f = "\<lambda>j i. if i < j then fill_node l a (f i) else f i"
  let ?I = "\<lambda>j P'. reaches P (ply_fp (H P) q f) q k (?f j) P' \<and> grown 0 P P'"
  have "\<exists>P'. set_ply_with_more_specific_leaf (Suc depth) (enc a) l q P = Some P' \<and> ?I 256 P'"
    unfolding set_ply_with_more_specific_leaf.simps
  proof (rule foldo_upt)
    show "?I 0 P" using reaches_refl [OF Suc.prems(1-3)] by simp
  next
    fix i P' assume i: "i < 256" and I: "?I i P'"
    then have r: "reaches P (ply_fp (H P) q f) q k (?f i) P'" by simp
    note p = reaches_pool [OF r]
    have fS: "?f (Suc i) = (?f i)(i := fill_node l a (f i))" by (auto simp: fun_eq_iff less_Suc_eq)
    show "\<exists>P''. (let p = H P' q; old_leaf = leaves p i in
       if \<not> ip4_mtrie_leaf_is_terminal old_leaf
       then set_ply_with_more_specific_leaf depth (enc a) l (sub_ply old_leaf) P'
       else if bits p i \<le> l
       then let p = store p i (enc a) l
            in Some (pool_write P' q
                 (p\<lparr>n_non_empty_leafs := n_non_empty_leafs p + ip4_mtrie_leaf_is_non_empty p i\<rparr>))
       else Some P') = Some P'' \<and> ?I (Suc i) P''"
    proof (cases "f i")
      case (Lf n b)
      then have fi: "?f i i = Lf n b" by simp
      note s = slot_leaf [OF p(1) i fi]
      show ?thesis
      proof (cases "n \<le> l")
        case True
        let ?x = "store (H P' q) i (enc a) l"
        have e: "ip4_mtrie_leaf_is_non_empty ?x i = 0"
          using p(1) l by (simp add: ip4_mtrie_leaf_is_non_empty_def store_def ply_rep_def)
        have c: "n_non_empty_leafs (H P' q) = n_own k ((?f i)(i := Lf l a))"
          using p(1) i Lf True l by (simp add: n_own_upd ply_rep_def)
        have "reaches P (ply_fp (H P) q f) q k ((?f i)(i := Lf l a))
            (pool_write P' q (?x\<lparr>n_non_empty_leafs := n_non_empty_leafs ?x + 0\<rparr>))"
          by (rule reaches_leaf [OF r i fi a]) (simp_all add: store_def c)
        then show ?thesis using s True I Lf by (simp add: e fS Let_def)
      next
        case False
        then have "?f (Suc i) = ?f i" using Lf by (auto simp: fun_eq_iff less_Suc_eq)
        with s False I show ?thesis by (simp add: Let_def)
      qed
    next
      case (Nd g)
      then have fi: "?f i i = Nd g" by simp
      note s = slot_sub [OF p(1) i fi p(3)]
      have w: "wfn (Nd g) (Suc k)" using Suc.prems(4) [OF i] Nd by simp
      obtain P'' where P'': "set_ply_with_more_specific_leaf depth (enc a) l
            (sub_ply (leaves (H P' q) i)) P' = Some P''"
          "reaches P' (ply_fp (H P') (sub_ply (leaves (H P' q) i)) g) (sub_ply (leaves (H P' q) i))
             (Suc k) (\<lambda>j. fill_node l a (g j)) P''" "grown 0 P' P''"
        using Suc.IH [OF s(3) p(2) s(4)] w Suc.prems(6) l a by auto
      have "?I (Suc i) P''"
        using reaches_sub [OF r i fi P''(2)] I P''(3) Nd by (simp add: fS grown_def)
      then show ?thesis using s(1) P''(1) by (simp add: Let_def)
    qed
  qed simp
  then show ?case by (simp cong: reaches_cong)
qed simp

subsection \<open>Insertion\<close>

text \<open>What a call on a ply at depth \<open>k\<close> that represents \<open>f\<close> has to do for the result \<open>f'\<close>.\<close>

definition ply_pre :: "ply_pool \<Rightarrow> nat \<Rightarrow> nat \<Rightarrow> (nat \<Rightarrow> node) \<Rightarrow> bool" where
  "ply_pre P q k f \<longleftrightarrow>
     ply_rep (H P) q k f \<and> pool_wf P \<and> ply_fp (H P) q f \<subseteq> pool_active P \<and>
     max_elts P = 0 \<and> length (elts P) + (3 - k) < 2 ^ 31"

definition args_ok :: "ip4_mtrie_set_unset_leaf_args \<Rightarrow> bool" where
  "args_ok a \<longleftrightarrow> dst_address_length a \<le> 32 \<and>
     addr_val (dst_address a) mod 2 ^ (32 - dst_address_length a) = 0 \<and> unat (adj_index a) < 2 ^ 31"

abbreviation ins_args :: "ip4_mtrie_set_unset_leaf_args \<Rightarrow> nat \<Rightarrow> (nat \<Rightarrow> node) \<Rightarrow> nat \<Rightarrow> node" where
  "ins_args a k f \<equiv> ins k (dst_address_length a) (addr_val (dst_address a)) (adj_index a) f"

text \<open>Plies are created only on the way to a ply that the prefix ends in.\<close>

definition new_plies :: "ip4_mtrie_set_unset_leaf_args \<Rightarrow> nat \<Rightarrow> nat" where
  "new_plies a k = (if dst_address_length a \<le> 8 * Suc k then 0 else 3 - k)"

definition set_leaf_spec :: "ip4_mtrie_set_unset_leaf_args \<Rightarrow> nat \<Rightarrow> bool" where
  "set_leaf_spec a k \<longleftrightarrow>
     (\<forall>q f P. ply_pre P q k f \<longrightarrow> (\<forall>i<256. wfn (f i) (Suc k)) \<longrightarrow>
       (\<exists>P'. set_leaf a q k P = Some P' \<and>
          reaches P (ply_fp (H P) q f) q k (ins_args a k f) P' \<and> grown (new_plies a k) P P'))"

lemma set_leaf_specD:
  assumes "set_leaf_spec a k" "ply_pre P q k f" "\<forall>i<256. wfn (f i) (Suc k)"
  obtains P' where "set_leaf a q k P = Some P'" "grown (new_plies a k) P P'"
    "reaches P (ply_fp (H P) q f) q k (ins_args a k f) P'"
  using assms unfolding set_leaf_spec_def by blast

lemma octet_oct: "k < 4 \<Longrightarrow> unat (as_u8 a k) = oct k (addr_val a)"
  by (simp add: as_u8_val oct_def)

lemma replace_leaf_fields [simp]:
  "dst_address_bits_base (replace_leaf x i l n) = dst_address_bits_base x"
  "leaves (replace_leaf x i l n) = (leaves x)(i := l)"
  "bits (replace_leaf x i l n) = (bits x)(i := n)"
  by (simp_all add: replace_leaf_def store_def Let_def)

lemma replace_leaf_count:
  assumes "ply_rep (H P) q k f" "i < 256" "t = Lf n a"
  shows "n_non_empty_leafs (replace_leaf (H P q) i l n) = n_own k (f(i := t))"
  using is_non_empty_iff [OF assms(1,2)] assms
  by (simp add: replace_leaf_def store_def Let_def ip4_mtrie_leaf_is_non_empty_def n_own_upd ply_rep_def)

lemma reaches_replace:
  assumes r: "reaches P0 F0 q k f P" and i: "i < 256" and fi: "f i = Lf m b" and a: "unat a < 2 ^ 31"
  shows "reaches P0 F0 q k (f(i := Lf n a)) (pool_write P q (replace_leaf (H P q) i (enc a) n))"
  using replace_leaf_count [OF reaches_pool(1) [OF r] i refl]
  by (intro reaches_leaf [OF r i fi a]) simp_all

lemma ins_whole:
  assumes "k < 4" "l \<le> 8 * k" "q mod 2 ^ (32 - l) = 0" "i < 256"
  shows "ins k l q a f i = fill_node l a (f i)"
  using assms in_rng_whole [OF assms] by (simp add: ins.simps)

text \<open>The body of the loop over the slots that the prefix covers.\<close>

definition set_leaf_slot ::
  "ip4_mtrie_set_unset_leaf_args \<Rightarrow> nat \<Rightarrow> nat \<Rightarrow> nat \<Rightarrow> ply_pool \<Rightarrow> ply_pool option" where
  "set_leaf_slot a q k i P =
     (let old_ply = H P q; old_leaf = leaves old_ply i in
      if bits old_ply i \<le> dst_address_length a
      then let new_leaf = enc (adj_index a) in
           if ip4_mtrie_leaf_is_terminal old_leaf
           then Some (pool_write P q (replace_leaf old_ply i new_leaf (dst_address_length a)))
           else set_ply_with_more_specific_leaf max_depth new_leaf (dst_address_length a)
                  (sub_ply old_leaf) P
      else if \<not> ip4_mtrie_leaf_is_terminal old_leaf
      then set_leaf a (sub_ply old_leaf) (k + 1) P
      else Some P)"

lemma set_leaf_covered:
  assumes "k < 4" "dst_address_length a \<le> 8 * Suc k"
  shows "set_leaf a q k P =
    (let lo = oct k (addr_val (dst_address a)) in
     foldo (set_leaf_slot a q k) [lo..<lo + 2 ^ min 8 (8 * Suc k - dst_address_length a)] P)"
proof -
  have n: "int (dst_address_length a) - 8 * (int k + 1) \<le> 0"
    "nat (min 8 (8 * int k + 8 - int (dst_address_length a))) =
     min 8 (8 * Suc k - dst_address_length a)"
    using assms(2) by auto
  show ?thesis
    using assms(1) n(1) unfolding set_leaf.simps [of a q k P] octet_oct [OF assms(1)]
    by (simp add: Let_def n(2) set_leaf_slot_def [abs_def] del: mult_Suc_right)
qed

lemma set_leaf_slot_fills:
  assumes a: "args_ok a" and len: "dst_address_length a \<le> 8 * Suc k"
    and IH: "Suc k < 4 \<Longrightarrow> set_leaf_spec a (Suc k)"
    and p: "ply_pre P q k f" and i: "i < 256" and fi: "f i = Nd g" and wf: "wfn (f i) (Suc k)"
  shows "\<exists>P'. set_leaf_slot a q k i P = Some P' \<and> grown 0 P P' \<and>
    reaches P (ply_fp (H P) (sub_ply (leaves (H P q) i)) g) (sub_ply (leaves (H P q) i)) (Suc k)
      (\<lambda>j. fill_node (dst_address_length a) (adj_index a) (g j)) P'"
proof -
  let ?l = "dst_address_length a" and ?c = "sub_ply (leaves (H P q) i)"
  have p': "ply_rep (H P) q k f" "pool_wf P" "ply_fp (H P) q f \<subseteq> pool_active P"
    using p by (simp_all add: ply_pre_def)
  have a': "?l \<le> 32" "addr_val (dst_address a) mod 2 ^ (32 - ?l) = 0" "unat (adj_index a) < 2 ^ 31"
    using a by (simp_all add: args_ok_def)
  note s = slot_sub [OF p'(1) i fi p'(3)]
  have w: "Suc k < 4" "\<forall>j<256. wfn (g j) (Suc (Suc k))" using wf fi by simp_all
  show ?thesis
  proof (cases "8 * Suc k \<le> ?l")
    case True
    with set_ply_refine [OF s(3) p'(2) s(4), of max_depth ?l "adj_index a"] w len a'(3) s(1,2)
    show ?thesis by (auto simp: set_leaf_slot_def Let_def max_depth_def)
  next
    case False
    have "ply_pre P ?c (Suc k) g" using s p by (auto simp: ply_pre_def)
    then obtain P' where P': "set_leaf a ?c (Suc k) P = Some P'" "grown 0 P P'"
        "reaches P (ply_fp (H P) ?c g) ?c (Suc k) (ins_args a (Suc k) g) P'"
      using set_leaf_specD [OF IH [OF w(1)] _ w(2)] len by (auto simp: new_plies_def)
    have "ins_args a (Suc k) g j = fill_node ?l (adj_index a) (g j)" if "j < 256" for j
      using ins_whole [OF w(1) len a'(2) that] by simp
    with P' s(1,2) False show ?thesis
      using reaches_cong [of "ins_args a (Suc k) g" "\<lambda>j. fill_node ?l (adj_index a) (g j)"]
      by (simp add: set_leaf_slot_def Let_def del: mult_Suc_right)
  qed
qed

lemma set_leaf_slot_step:
  assumes a: "args_ok a" and len: "dst_address_length a \<le> 8 * Suc k"
    and IH: "Suc k < 4 \<Longrightarrow> set_leaf_spec a (Suc k)"
    and r: "reaches P0 F0 q k f P" and p: "ply_pre P q k f"
    and i: "i < 256" and wf: "wfn (f i) (Suc k)"
  shows "\<exists>P'. set_leaf_slot a q k i P = Some P' \<and> grown 0 P P' \<and>
    reaches P0 F0 q k (f(i := fill_node (dst_address_length a) (adj_index a) (f i))) P'"
proof (cases "f i")
  case (Lf n b)
  have adj: "unat (adj_index a) < 2 ^ 31" using a by (simp add: args_ok_def)
  note s = slot_leaf [OF reaches_pool(1) [OF r] i Lf]
  show ?thesis
  proof (cases "n \<le> dst_address_length a")
    case True
    with reaches_replace [OF r i Lf adj, of "dst_address_length a"] s Lf show ?thesis
      by (simp add: set_leaf_slot_def Let_def)
  next
    case False
    then have "f(i := fill_node (dst_address_length a) (adj_index a) (f i)) = f"
      using Lf by (simp add: fun_upd_idem)
    with s False r show ?thesis by (simp add: set_leaf_slot_def Let_def)
  qed
next
  case (Nd g)
  with set_leaf_slot_fills [OF a len IH p i Nd wf] show ?thesis
    using reaches_sub [OF r i Nd] by auto
qed

lemma set_leaf_here:
  assumes a: "args_ok a" and k: "k < 4" and len: "dst_address_length a \<le> 8 * Suc k"
    and IH: "Suc k < 4 \<Longrightarrow> set_leaf_spec a (Suc k)"
    and pre: "ply_pre P q k f" and wf: "\<And>i. i < 256 \<Longrightarrow> wfn (f i) (Suc k)"
  shows "\<exists>P'. set_leaf a q k P = Some P' \<and> grown 0 P P' \<and>
    reaches P (ply_fp (H P) q f) q k (ins_args a k f) P'"
proof -
  define lo hi where "lo = oct k (addr_val (dst_address a))"
    and "hi = lo + 2 ^ min 8 (8 * Suc k - dst_address_length a)"
  have hi: "hi \<le> 256" "lo \<le> hi" using rng_le [OF k] a by (simp_all add: args_ok_def lo_def hi_def)
  let ?f = "\<lambda>j i. if lo \<le> i \<and> i < j then fill_node (dst_address_length a) (adj_index a) (f i) else f i"
  let ?I = "\<lambda>j P'. reaches P (ply_fp (H P) q f) q k (?f j) P' \<and> grown 0 P P'"
  have "\<exists>P'. foldo (set_leaf_slot a q k) [lo..<hi] P = Some P' \<and> ?I hi P'"
  proof (rule foldo_upt)
    have "?f lo = f" by (auto simp: fun_eq_iff)
    then show "?I lo P" using reaches_refl [of P q k f] pre by (simp add: ply_pre_def)
  next
    fix i P' assume i: "lo \<le> i" "i < hi" and I: "?I i P'"
    have i256: "i < 256" "wfn (?f i i) (Suc k)" using i hi wf by simp_all
    have fS: "?f (Suc i) = (?f i)(i := fill_node (dst_address_length a) (adj_index a) (?f i i))"
      using i by (auto simp: fun_eq_iff less_Suc_eq)
    have "ply_pre P' q k (?f i)"
      using I pre reaches_pool [of P "ply_fp (H P) q f" q k "?f i" P']
      by (simp add: ply_pre_def grown_def)
    from set_leaf_slot_step [OF a len IH conjunct1 [OF I] this i256]
    show "\<exists>P''. set_leaf_slot a q k i P' = Some P'' \<and> ?I (Suc i) P''"
      unfolding fS using I grown_0_trans by blast
  qed (rule hi)
  then obtain P' where P': "set_leaf a q k P = Some P'" "?I hi P'"
    unfolding set_leaf_covered [OF k len] by (auto simp: lo_def hi_def)
  have "ins_args a k f i = ?f hi i" for i
    using len by (simp add: ins.simps in_rng_def lo_def hi_def)
  then have "ins_args a k f = ?f hi" by blast
  with P' show ?thesis by simp
qed

text \<open>A new ply repeats the leaf of the slot it replaces.\<close>

lemma ply_create_ok:
  assumes "pool_wf P" "max_elts P = 0"
  obtains p P' where "ply_create P l n b = Some (ip4_mtrie_leaf_set_next_ply_index p, P')"
    "pool_wf P'" "p \<notin> pool_active P" "pool_active P' = insert p (pool_active P)"
    "H P' p = ply_8_init l n b" "\<And>r. r \<in> pool_active P \<Longrightarrow> H P' r = H P r"
    "grown 1 P P'" "p \<le> length (elts P)"
proof -
  let ?z = "ply_8_init l n b"
  obtain p Q where g: "pool_get ?z P = Some (p, Q)" using pool_get_some [OF assms(2)] by blast
  note gw = pool_get_wf [OF assms(1) g]
  have p: "p \<in> pool_active Q" using gw(3) by simp
  have len: "length (elts Q) \<le> length (elts P) + 1"
    using g by (auto simp: pool_get_def Let_def split: if_splits)
  show ?thesis
  proof (rule that [of p "pool_write Q p ?z"])
    show "H (pool_write Q p ?z) r = H P r" if "r \<in> pool_active P" for r
      using that gw(2,4) H_write [OF p] by auto
    show "grown 1 P (pool_write Q p ?z)"
      using len pool_get_max_elts [OF g] by (simp add: grown_def pool_write_def)
  qed (use g gw p len H_write [OF p] in \<open>auto simp: ply_create_def pool_write_wf\<close>)
qed

lemma rep_fresh_ply:
  assumes "h p = ply_8_init (enc b) n (8 * k)" "n \<le> 8 * k" "unat b < 2 ^ 31" "p < 2 ^ 31"
  shows "rep_node (Nd (\<lambda>_. Lf n b)) h k (ip4_mtrie_leaf_set_next_ply_index p) (8 * k)"
    and "fp (Nd (\<lambda>_. Lf n b)) h (ip4_mtrie_leaf_set_next_ply_index p) = {p}"
  using assms by (auto simp: ply_rep_def ply_fp_def slot_fp_def ply_8_init_def n_own_def)

lemma set_leaf_deeper:
  assumes "k < 4" "8 * Suc k < dst_address_length a"
  shows "set_leaf a q k P =
    (let x = H P q; d = oct k (addr_val (dst_address a)); leaf = leaves x d in
     if ip4_mtrie_leaf_is_terminal leaf
     then do { (nl, P) \<leftarrow> ply_create (pool_write P q
                 (x\<lparr>n_non_empty_leafs := n_non_empty_leafs x - ip4_mtrie_leaf_is_non_empty x d\<rparr>))
                 leaf (bits x d) (8 * Suc k);
               let y = store (H P q) d nl (8 * Suc k);
               set_leaf a (sub_ply nl) (Suc k) (pool_write P q
                 (y\<lparr>n_non_empty_leafs := n_non_empty_leafs y + ip4_mtrie_leaf_is_non_empty y d\<rparr>)) }
     else set_leaf a (sub_ply leaf) (Suc k) P)"
proof -
  have n: "\<not> int (dst_address_length a) - 8 * (int k + 1) \<le> 0" using assms(2) by auto
  show ?thesis
    using assms(1) n unfolding set_leaf.simps [of a q k P] octet_oct [OF assms(1)]
    by (simp add: Let_def cong: if_cong)
qed

lemma reaches_new_ply:
  assumes p: "ply_pre P q k f" and i: "i < 256" and fi: "f i = Lf n b" and n: "n \<le> 8 * Suc k" and k: "k < 3"
    and c: "c = n_non_empty_leafs (H P q) - ip4_mtrie_leaf_is_non_empty (H P q) i"
  shows "\<exists>m P' y. ply_create (pool_write P q ((H P q)\<lparr>n_non_empty_leafs := c\<rparr>))
        (leaves (H P q) i) (bits (H P q) i) (8 * Suc k) = Some (ip4_mtrie_leaf_set_next_ply_index m, P') \<and>
      m < 2 ^ 31 \<and> y = store (H P' q) i (ip4_mtrie_leaf_set_next_ply_index m) (8 * Suc k) \<and>
      reaches P (ply_fp (H P) q f) q k (f(i := Nd (\<lambda>_. Lf n b))) (pool_write P' q
        (y\<lparr>n_non_empty_leafs := n_non_empty_leafs y + ip4_mtrie_leaf_is_non_empty y i\<rparr>)) \<and> grown 1 P P'"
proof -
  have r: "ply_rep (H P) q k f" "pool_wf P" "ply_fp (H P) q f \<subseteq> pool_active P" and
    q: "q \<in> pool_active P" and room: "max_elts P = 0" "length (elts P) < 2 ^ 31"
    using p by (auto simp: ply_pre_def ply_fp_def)
  note s = slot_leaf [OF r(1) i fi]
  let ?x = "(H P q)\<lparr>n_non_empty_leafs := c\<rparr>"
  let ?P = "pool_write P q ?x"
  have W: "pool_wf ?P" "max_elts ?P = 0" "pool_active ?P = pool_active P" "length (elts ?P) = length (elts P)"
    using r room pool_write_wf(1,2) [of P q ?x] by (simp_all add: pool_write_def)
  obtain m P' where new: "ply_create ?P (leaves (H P q) i) (bits (H P q) i) (8 * Suc k) =
        Some (ip4_mtrie_leaf_set_next_ply_index m, P')"
      "pool_wf P'" "m \<notin> pool_active ?P" "pool_active P' = insert m (pool_active ?P)"
      "H P' m = ply_8_init (leaves (H P q) i) (bits (H P q) i) (8 * Suc k)"
      "\<And>r. r \<in> pool_active ?P \<Longrightarrow> H P' r = H ?P r" "grown 1 ?P P'" "m \<le> length (elts ?P)"
    using ply_create_ok [OF W(1,2), where l = "leaves (H P q) i" and n = "bits (H P q) i" and
        b = "8 * Suc k"] by blast
  note P' = new(1,2) new(3,4,6) [unfolded W(3)] new(5) [unfolded s(1,2)] new(7)
  have m: "m < 2 ^ 31" using new(8) W(4) room(2) by simp
  let ?y = "store (H P' q) i (ip4_mtrie_leaf_set_next_ply_index m) (8 * Suc k)"
  let ?z = "?y\<lparr>n_non_empty_leafs := n_non_empty_leafs ?y + ip4_mtrie_leaf_is_non_empty ?y i\<rparr>"
  have Hq: "H P' q = ?x" using P'(5) [OF q] H_write [OF q] by simp
  note fresh = rep_fresh_ply [where h = "H P'" and p = m, OF P'(6) n s(3) m]
  have "m \<noteq> q" using P'(3) q by blast
  have ev: "evolves P (insert q (slot_fp (H P) q f i)) P' (insert q {m})"
    using P'(2-5) q H_write [OF q] s(5) unfolding evolves_def by auto
  have qa: "q \<in> pool_active P'" using P'(4) q by simp
  have e: "empty_at k (f i) \<longleftrightarrow> ip4_mtrie_leaf_is_non_empty (H P q) i = 0"
    using is_non_empty_iff [OF r(1) i] by simp
  have z: "dst_address_bits_base ?z = dst_address_bits_base (H P q)"
      "leaves ?z = (leaves (H P q))(i := ip4_mtrie_leaf_set_next_ply_index m)"
      "bits ?z = (bits (H P q))(i := 8 * Suc k)"
      "n_non_empty_leafs ?z = n_own k (f(i := Nd (\<lambda>_. Lf n b)))"
    using r(1) i is_non_empty_iff [OF r(1) i]
    by (simp_all add: Hq store_def n_own_upd c ply_rep_def ip4_mtrie_leaf_is_non_empty_def)
  have "reaches P (ply_fp (H P) q f) q k (f(i := Nd (\<lambda>_. Lf n b))) (pool_write P' q ?z)"
    using slot_evolves [OF r(1,3) i ev _ _ _ H_write [OF qa] z fresh] \<open>m \<noteq> q\<close> P'(2)
    by (simp add: reaches_def pool_write_wf)
  with P'(1,7) m show ?thesis by (auto simp: grown_def pool_write_def)
qed

lemma set_leaf_below:
  assumes k: "k < 3" and len: "8 * Suc k < dst_address_length a"
    and IH: "set_leaf_spec a (Suc k)"
    and pre: "ply_pre P q k f" and wf: "\<And>i. i < 256 \<Longrightarrow> wfn (f i) (Suc k)"
  shows "\<exists>P'. set_leaf a q k P = Some P' \<and> grown (3 - k) P P' \<and>
    reaches P (ply_fp (H P) q f) q k (ins_args a k f) P'"
proof -
  define d where "d = oct k (addr_val (dst_address a))"
  have d: "d < 256" by (simp add: d_def)
  have k4: "k < 4" using k by simp
  have r: "ply_rep (H P) q k f" "pool_wf P" "ply_fp (H P) q f \<subseteq> pool_active P"
    using pre by (simp_all add: ply_pre_def)
  have res: "ins_args a k f = f(d := Nd (ins_args a (Suc k) (expand (f d))))"
    using len by (simp add: ins.simps [of k] d_def)
  have g3: "new_plies a (Suc k) \<le> 2 - k" by (simp add: new_plies_def)
  note run = set_leaf_deeper [OF k4 len, of q P, folded d_def]
  show ?thesis
  proof (cases "f d")
    case (Nd g)
    note s = slot_sub [OF r(1) d Nd r(3)]
    have "ply_pre P (sub_ply (leaves (H P q) d)) (Suc k) g" using s pre by (auto simp: ply_pre_def)
    moreover have "\<forall>i<256. wfn (g i) (Suc (Suc k))" using wf [OF d] Nd by simp
    ultimately obtain P' where P': "set_leaf a (sub_ply (leaves (H P q) d)) (Suc k) P = Some P'"
        "grown (new_plies a (Suc k)) P P'"
        "reaches P (ply_fp (H P) (sub_ply (leaves (H P q) d)) g) (sub_ply (leaves (H P q) d)) (Suc k)
           (ins_args a (Suc k) g) P'"
      using set_leaf_specD [OF IH] by blast
    have "grown (3 - k) P P'" using P'(2) g3 by (auto simp: grown_def)
    with reaches_sub [OF reaches_refl [OF r] d Nd P'(3)] P'(1) s(1) Nd show ?thesis
      by (simp add: run res Let_def)
  next
    case (Lf n b)
    note s = slot_leaf [OF r(1) d Lf]
    have n: "n \<le> 8 * Suc k" using wf [OF d] Lf by simp
    obtain m Q y where Q: "ply_create (pool_write P q ((H P q)\<lparr>n_non_empty_leafs :=
          n_non_empty_leafs (H P q) - ip4_mtrie_leaf_is_non_empty (H P q) d\<rparr>))
        (leaves (H P q) d) (bits (H P q) d) (8 * Suc k) = Some (ip4_mtrie_leaf_set_next_ply_index m, Q)"
      "m < 2 ^ 31" "y = store (H Q q) d (ip4_mtrie_leaf_set_next_ply_index m) (8 * Suc k)" "grown 1 P Q"
      and rQ: "reaches P (ply_fp (H P) q f) q k (f(d := Nd (\<lambda>_. Lf n b))) (pool_write Q q
        (y\<lparr>n_non_empty_leafs := n_non_empty_leafs y + ip4_mtrie_leaf_is_non_empty y d\<rparr>))"
      using reaches_new_ply [OF pre d Lf n k refl] by blast
    let ?Q = "pool_write Q q (y\<lparr>n_non_empty_leafs := n_non_empty_leafs y + ip4_mtrie_leaf_is_non_empty y d\<rparr>)"
    note p = reaches_pool [OF rQ]
    have fd: "(f(d := Nd (\<lambda>_. Lf n b))) d = Nd (\<lambda>_. Lf n b)" by simp
    note s' = slot_sub [OF p(1) d fd p(3)]
    have lq: "sub_ply (leaves (H ?Q q) d) = m"
      using p(3) Q(2) by (subst H_write) (auto simp: ply_fp_def pool_write_wf Q(3) store_def)
    have "ply_pre ?Q m (Suc k) (\<lambda>_. Lf n b)"
      using s' [unfolded lq] p(2) Q(4) pre k by (auto simp: ply_pre_def grown_def pool_write_def)
    then obtain P' where P': "set_leaf a m (Suc k) ?Q = Some P'" "grown (new_plies a (Suc k)) ?Q P'"
        "reaches ?Q (ply_fp (H ?Q) m (\<lambda>_. Lf n b)) m (Suc k) (ins_args a (Suc k) (\<lambda>_. Lf n b)) P'"
      using set_leaf_specD [OF IH, of ?Q m "\<lambda>_. Lf n b"] n k by auto
    have "grown (3 - k) P P'" using P'(2) g3 Q(4) k by (auto simp: grown_def pool_write_def)
    moreover have "reaches P (ply_fp (H P) q f) q k
        ((f(d := Nd (\<lambda>_. Lf n b)))(d := Nd (ins_args a (Suc k) (\<lambda>_. Lf n b)))) P'"
      by (rule reaches_sub [OF rQ d fd, unfolded lq, OF P'(3)])
    then have "reaches P (ply_fp (H P) q f) q k (ins_args a k f) P'"
      by (simp only: res Lf fun_upd_upd expand.simps)
    ultimately show ?thesis
      using s(4) Q(1-3) P'(1) by (simp add: run Let_def)
  qed
qed

lemma set_leaf_ok:
  assumes "args_ok a" "k < 4"
  shows "set_leaf_spec a k"
  using assms(2)
proof (induction "4 - k" arbitrary: k)
  case (Suc n)
  have IH: "set_leaf_spec a (Suc k)" if "Suc k < 4" using Suc.hyps(1) [of "Suc k"] Suc.hyps(2) that by simp
  show ?case
    unfolding set_leaf_spec_def
  proof (intro allI impI)
    fix q f P assume pre: "ply_pre P q k f" and wf: "\<forall>i<256. wfn (f i) (Suc k)"
    show "\<exists>P'. set_leaf a q k P = Some P' \<and>
        reaches P (ply_fp (H P) q f) q k (ins_args a k f) P' \<and> grown (new_plies a k) P P'"
    proof (cases "dst_address_length a \<le> 8 * Suc k")
      case True
      with set_leaf_here [OF assms(1) Suc.prems True IH pre] wf show ?thesis
        by (auto simp: new_plies_def)
    next
      case False
      then have "k < 3" using assms(1) by (simp add: args_ok_def)
      with set_leaf_below [OF this _ IH pre] wf False show ?thesis
        by (auto simp: new_plies_def not_le simp del: mult_Suc_right)
    qed
  qed
qed simp

end
