(* ===== verification/Mtrie_Remove.thy ===== *)
theory Mtrie_Remove
  imports Mtrie_Refine
begin

text \<open>
  Route removal on plies refines removal on trees: \<open>unset_leaf\<close> returns, reports whether the ply was
  released, and has released exactly the plies that were left without a leaf of their own.
\<close>

unbundle bit_operations_syntax

abbreviation cover_args :: "ip4_mtrie_set_unset_leaf_args \<Rightarrow> nat \<times> u32" where
  "cover_args a \<equiv> (cover_address_length a, cover_adj_index a)"

abbreviation del_args :: "ip4_mtrie_set_unset_leaf_args \<Rightarrow> nat \<Rightarrow> (nat \<Rightarrow> node) \<Rightarrow> nat \<Rightarrow> node" where
  "del_args a k f \<equiv>
     del_slots (dst_address_length a) (addr_val (dst_address a)) (adj_index a) (cover_args a) k f"

abbreviation deln_args :: "ip4_mtrie_set_unset_leaf_args \<Rightarrow> nat \<Rightarrow> node \<Rightarrow> node" where
  "deln_args a k t \<equiv>
     deln (dst_address_length a) (addr_val (dst_address a)) (adj_index a) (cover_args a) k t"

text \<open>The route being removed: present, with an index of its own, and given with its cover.\<close>

definition del_ok :: "u32 routes \<Rightarrow> ip4_mtrie_set_unset_leaf_args \<Rightarrow> bool" where
  "del_ok R a \<longleftrightarrow> args_ok a \<and> unat (cover_adj_index a) < 2 ^ 31 \<and>
     (let p = prefix_of (dst_address_length a) (addr_val (dst_address a)) in
      own_index R (dst_address_length a, p) (adj_index a) \<and>
      cover_args a = cover R (dst_address_length a) p)"

definition in_region :: "ip4_mtrie_set_unset_leaf_args \<Rightarrow> nat \<Rightarrow> nat \<Rightarrow> bool" where
  "in_region a k v \<longleftrightarrow> (\<forall>x<2 ^ 32. prefix_of (8 * k) x = v \<longrightarrow>
     agree k (dst_address_length a) (addr_val (dst_address a)) x)"

definition del_pre ::
  "u32 routes \<Rightarrow> ip4_mtrie_set_unset_leaf_args \<Rightarrow> nat \<Rightarrow> (nat \<Rightarrow> node) \<Rightarrow> bool" where
  "del_pre R a k f \<longleftrightarrow> (\<forall>i<256. wfn (f i) (Suc k)) \<and> (0 < k \<longrightarrow> \<not> all_empty k f) \<and>
     (\<exists>v<256 ^ k. represents R k v (Nd f) \<and> in_region a k v)"

definition unset_post ::
  "ply_pool \<Rightarrow> nat set \<Rightarrow> nat \<Rightarrow> nat \<Rightarrow> (nat \<Rightarrow> node) \<Rightarrow> bool \<times> ply_pool \<Rightarrow> bool" where
  "unset_post P0 F0 q k f s \<longleftrightarrow>
     (case s of (d, P) \<Rightarrow> d = (0 < k \<and> all_empty k f) \<and>
        (if d then evolves P0 F0 P {} else reaches P0 F0 q k f P))"

definition unset_spec :: "u32 routes \<Rightarrow> ip4_mtrie_set_unset_leaf_args \<Rightarrow> nat \<Rightarrow> bool" where
  "unset_spec R a k \<longleftrightarrow>
     (\<forall>q f P. ply_rep (H P) q k f \<longrightarrow> pool_wf P \<longrightarrow> ply_fp (H P) q f \<subseteq> pool_active P \<longrightarrow>
       del_pre R a k f \<longrightarrow>
       (\<exists>d P'. unset_leaf a q k P = Some (d, P') \<and> grown 0 P P' \<and>
          unset_post P (ply_fp (H P) q f) q k (del_args a k f) (d, P')))"

subsection \<open>The loop\<close>

lemma dst_byte_masked:
  assumes "2 ^ min 8 m dvd unat (b :: u8)"
  shows "b AND NOT (ucast (pow2_mask m)) = b"
proof (rule bit_word_eqI)
  fix i assume "i < LENGTH(8)"
  then have i: "i < 8" by simp
  have "take_bit (min 8 m) (unat b) = 0" using assms by (simp add: take_bit_eq_0_iff)
  then have "\<not> bit (take_bit (min 8 m) (unat b)) i" by simp
  then have "\<not> bit b i" if "i < m" using that i by (simp add: bit_simps)
  then show "bit (b AND NOT (ucast (pow2_mask m))) i = bit b i"
    using i by (auto simp: bit_simps bit_pow2_mask)
qed

definition unset_finish :: "ip4_mtrie_set_unset_leaf_args \<Rightarrow> nat \<Rightarrow> nat \<Rightarrow> nat \<Rightarrow> ply_pool \<Rightarrow> bool \<times> ply_pool" where
  "unset_finish a q k i P =
     (let x = replace_leaf (H P q) i (enc (cover_adj_index a)) (cover_address_length a);
          P = pool_write P q x
      in if n_non_empty_leafs x = 0 \<and> 0 < k then (True, pool_put_index P q) else (False, P))"

definition unset_slot ::
  "ip4_mtrie_set_unset_leaf_args \<Rightarrow> nat \<Rightarrow> nat \<Rightarrow> nat \<Rightarrow> bool \<times> ply_pool \<Rightarrow> (bool \<times> ply_pool) option" where
  "unset_slot a q k i s =
     (let (deleted, P) = s; old_leaf = leaves (H P q) i in
      if deleted then Some (deleted, P)
      else if old_leaf = enc (adj_index a) then Some (unset_finish a q k i P)
      else if \<not> ip4_mtrie_leaf_is_terminal old_leaf
      then do { (change, P) \<leftarrow> unset_leaf a (sub_ply old_leaf) (Suc k) P;
                Some (if change then unset_finish a q k i P else (False, P)) }
      else Some (False, P))"

lemma unset_leaf_loop:
  assumes k: "k < 4" and a: "args_ok a"
  shows "unset_leaf a q k P =
    (let lo = oct k (addr_val (dst_address a)) in
     foldo (unset_slot a q k) [lo..<lo + 2 ^ min 8 (8 * Suc k - dst_address_length a)] (False, P))"
proof -
  define l where "l = dst_address_length a"
  have dvd: "2 ^ min 8 (8 * Suc k - l) dvd unat (as_u8 (dst_address a) k)"
    using oct_dvd [OF k] a by (simp add: args_ok_def octet_oct [OF k] l_def)
  have byte: "(if int l - 8 * (int k + 1) < 0
      then as_u8 (dst_address a) k AND NOT (ucast (pow2_mask (nat (- (int l - 8 * (int k + 1))))))
      else as_u8 (dst_address a) k) = as_u8 (dst_address a) k"
  proof -
    have "nat (- (int l - 8 * (int k + 1))) = 8 * Suc k - l" by auto
    with dst_byte_masked [OF dvd] show ?thesis by simp
  qed
  have n: "nat (min 8 (if int l - 8 * (int k + 1) \<le> 0 then - (int l - 8 * (int k + 1)) else 0)) =
      min 8 (8 * Suc k - l)" by auto
  have body: "(\<lambda>i (deleted, P). if deleted then Some (deleted, P) else
        do { let old_ply = H P q;
             let old_leaf = leaves old_ply i;
             (change, P) \<leftarrow>
               (if old_leaf = enc (adj_index a) then Some (True, P)
                else if \<not> ip4_mtrie_leaf_is_terminal old_leaf
                then unset_leaf a (sub_ply old_leaf) (k + 1) P
                else Some (False, P));
             if change
             then let old_ply = replace_leaf (H P q) i (enc (cover_adj_index a)) (cover_address_length a);
                      P = pool_write P q old_ply
                  in if n_non_empty_leafs old_ply = 0 \<and> 0 < k
                     then Some (True, pool_put_index P q) else Some (False, P)
             else Some (False, P) }) = unset_slot a q k"
    by (auto simp: fun_eq_iff unset_slot_def unset_finish_def Let_def split: Option.bind_splits)
  show ?thesis
    unfolding unset_leaf.simps [of a q k P] Let_def body [unfolded Let_def] l_def [symmetric] byte n
    using k by (simp add: octet_oct [OF k])
qed

lemma n_own_0: "n_own k f = 0 \<longleftrightarrow> all_empty k f"
  by (auto simp: n_own_def all_empty_def)

lemma all_empty_fp:
  assumes "all_empty k f"
  shows "ply_fp h q f = {q}"
proof -
  have "slot_fp h q f i = {}" if "i < 256" for i
    using assms that by (cases "f i") (auto simp: all_empty_def slot_fp_def)
  then show ?thesis by (simp add: ply_fp_def)
qed

lemma evolves_put:
  assumes "evolves P0 F0 P {q}"
  shows "evolves P0 F0 (pool_put_index P q) {}"
proof -
  have "pool_wf P" "q \<in> pool_active P" using assms by (auto simp: evolves_def)
  note put = pool_put_wf [OF this]
  show ?thesis using assms put unfolding evolves_def by auto
qed

text \<open>After the slot has been overwritten: the ply is released when it has no leaf left.\<close>

lemma unset_finish_post:
  assumes r: "reaches P0 F0 q k g (pool_write P q (replace_leaf (H P q) i (enc (cover_adj_index a))
        (cover_address_length a)))" (is "reaches P0 F0 q k g (pool_write P q ?x)")
    and q: "q \<in> pool_active P"
  shows "unset_post P0 F0 q k g (unset_finish a q k i P)"
proof -
  have "n_non_empty_leafs ?x = n_own k g"
    using reaches_pool(1) [OF r] H_write [OF q] by (simp add: ply_rep_def)
  moreover have "evolves P0 F0 (pool_put_index (pool_write P q ?x) q) {}" if "all_empty k g"
    using r all_empty_fp [OF that] by (intro evolves_put) (simp add: reaches_def)
  ultimately show ?thesis
    using r by (auto simp: unset_post_def unset_finish_def Let_def n_own_0)
qed

lemma del_pre_sub:
  assumes a: "del_ok R a" and k: "k < 4" and f: "del_pre R a k f" and i: "i < 256" "f i = Nd h"
    and rng: "in_rng k (dst_address_length a) (addr_val (dst_address a)) i"
  shows "del_pre R a (Suc k) h" and "Suc k < 4"
proof -
  obtain v where v: "v < 256 ^ k" "represents R k v (Nd f)" "in_region a k v"
    using f by (auto simp: del_pre_def)
  have w: "wfn (Nd h) (Suc k)" using f i by (auto simp: del_pre_def)
  then show "Suc k < 4" by simp
  have "represents R (Suc k) (v * 256 + i) (Nd h)" using v(2) i k by (metis represents_Nd)
  moreover have "in_region a (Suc k) (v * 256 + i)"
    using v(3) a rng agree_Suc [OF k, of "dst_address_length a" "addr_val (dst_address a)"]
    unfolding in_region_def region_slot [OF k i(1)] by (auto simp: del_ok_def args_ok_def)
  moreover have "v * 256 + i < 256 ^ Suc k" using v(1) i(1) by (rule slot_region_less)
  ultimately show "del_pre R a (Suc k) h" using w unfolding del_pre_def by auto
qed

lemma unset_leaf_slot:
  assumes a: "del_ok R a" and IH: "Suc k < 4 \<Longrightarrow> unset_spec R a (Suc k)"
    and sub: "\<And>h. g i = Nd h \<Longrightarrow> del_pre R a (Suc k) h \<and> Suc k < 4"
    and r: "reaches P0 F0 q k g P" and ne: "0 < k \<Longrightarrow> \<not> all_empty k g" and i: "i < 256"
  shows "\<exists>s. unset_slot a q k i (False, P) = Some s \<and> grown 0 P (snd s) \<and>
    unset_post P0 F0 q k (g(i := deln_args a (Suc k) (g i))) s"
proof -
  note p = reaches_pool [OF r]
  have q: "q \<in> pool_active P" using p(3) by (simp add: ply_fp_def)
  have ca: "unat (cover_adj_index a) < 2 ^ 31" "unat (adj_index a) < 2 ^ 31"
    using a by (simp_all add: del_ok_def args_ok_def)
  have fin: "grown 0 P (snd (unset_finish a q k i P'))" if "grown 0 P P'" for P'
    using that by (simp add: unset_finish_def Let_def)
  show ?thesis
  proof (cases "g i")
    case (Lf n b)
    note s = slot_leaf [OF p(1) i Lf]
    show ?thesis
    proof (cases "b = adj_index a")
      case True
      with unset_finish_post [OF reaches_replace [OF r i Lf ca(1)] q] s(1) Lf fin show ?thesis
        by (simp add: unset_slot_def)
    next
      case False
      then have "g(i := deln_args a (Suc k) (g i)) = g" using Lf by (simp add: fun_upd_idem)
      with s False r ne enc_inj [OF s(3) ca(2)] show ?thesis
        by (auto simp: unset_slot_def unset_post_def)
    qed
  next
    case (Nd h)
    note s = slot_sub [OF p(1) i Nd p(3)]
    let ?c = "sub_ply (leaves (H P q) i)" and ?h = "del_args a (Suc k) h"
    obtain d P' where P': "unset_leaf a ?c (Suc k) P = Some (d, P')" "grown 0 P P'"
        "unset_post P (ply_fp (H P) ?c h) ?c (Suc k) ?h (d, P')"
      using IH sub [OF Nd] s(3,4) p(2) unfolding unset_spec_def by metis
    have leaf: "leaves (H P q) i \<noteq> enc (adj_index a)" using s(1) terminal_enc by metis
    show ?thesis
    proof (cases d)
      case True
      then have e: "all_empty (Suc k) ?h" "evolves P (slot_fp (H P) q g i) P' {}"
        using P'(3) s(5) by (auto simp: unset_post_def)
      have qs: "q \<notin> slot_fp (H P) q g i" using p(1) i by (simp add: ply_rep_def)
      note ins = evolves_insert [OF e(2) q qs]
      have qa: "q \<in> pool_active P'" and wf': "pool_wf P'" using ins(1) by (simp_all add: evolves_def)
      let ?x = "replace_leaf (H P' q) i (enc (cover_adj_index a)) (cover_address_length a)"
      have "reaches P (ply_fp (H P) q g) q k (g(i := Lf (cover_address_length a) (cover_adj_index a)))
          (pool_write P' q ?x)"
        using slot_evolves [OF p(1,3) i ins(1,2) _ _ H_write [OF qa], of ?x "enc (cover_adj_index a)"
            "cover_address_length a" "Lf (cover_address_length a) (cover_adj_index a)"]
          wf' ca(1) replace_leaf_count [OF p(1) i refl]
        by (simp add: reaches_def pool_write_wf ins(3))
      from unset_finish_post [OF reaches_trans [OF r this] qa] show ?thesis
        using P'(1,2) True leaf s(1) e(1) Nd fin by (simp add: unset_slot_def)
    next
      case False
      then have e: "\<not> all_empty (Suc k) ?h" "reaches P (ply_fp (H P) ?c h) ?c (Suc k) ?h P'"
        using P'(3) by (auto simp: unset_post_def)
      have "\<not> all_empty k (g(i := Nd ?h))" using i unfolding all_empty_def by (auto intro!: exI [of _ i])
      with reaches_sub [OF r i Nd e(2)] P'(1,2) False leaf s(1) e(1) Nd show ?thesis
        by (simp add: unset_slot_def unset_post_def)
    qed
  qed
qed

subsection \<open>The whole ply\<close>

text \<open>When the ply is released before the end of the loop, the rest of the loop had nothing to do.\<close>

lemma partial_all_empty:
  assumes a: "del_ok R a" and k: "k < 4" "0 < k" and f: "del_pre R a k f"
    and g: "\<And>j. j < 256 \<Longrightarrow> g j = f j \<or> g j = del_args a k f j" and emp: "all_empty k g"
  shows "all_empty k (del_args a k f)"
proof -
  obtain v where v: "v < 256 ^ k" "represents R k v (Nd f)" using f by (auto simp: del_pre_def)
  have wf: "wfn (Nd f) k" using f k by (simp add: del_pre_def)
  have own: "own_index R (dst_address_length a, prefix_of (dst_address_length a) (addr_val (dst_address a)))
      (adj_index a)" "cover_args a =
      cover R (dst_address_length a) (prefix_of (dst_address_length a) (addr_val (dst_address a)))"
    using a by (simp_all add: del_ok_def Let_def)
  have "g j = del_args a k f j" if "j < 256" for j
    using g [OF that] all_empty_early [OF own wf v g emp that] by metis
  with emp show ?thesis by (simp add: all_empty_def)
qed

lemma unset_loop_ok:
  assumes a: "del_ok R a" and k: "k < 4" and IH: "Suc k < 4 \<Longrightarrow> unset_spec R a (Suc k)"
    and p: "ply_rep (H P) q k f" "pool_wf P" "ply_fp (H P) q f \<subseteq> pool_active P" and f: "del_pre R a k f"
  shows "\<exists>s. unset_leaf a q k P = Some s \<and> grown 0 P (snd s) \<and>
    unset_post P (ply_fp (H P) q f) q k (del_args a k f) s"
proof -
  define l v where "l = dst_address_length a" and "v = addr_val (dst_address a)"
  define lo hi where "lo = oct k v" and "hi = lo + 2 ^ min 8 (8 * Suc k - l)"
  have ok: "args_ok a" "l \<le> 32" "v mod 2 ^ (32 - l) = 0"
    using a by (simp_all add: del_ok_def args_ok_def l_def v_def)
  have hi: "hi \<le> 256" "lo \<le> hi" using rng_le [OF k ok(2,3)] by (simp_all add: lo_def hi_def)
  have rng: "in_rng k l v i \<longleftrightarrow> lo \<le> i \<and> i < hi" for i by (simp add: in_rng_def lo_def hi_def)
  define g where "g = (\<lambda>j i. if lo \<le> i \<and> i < j then deln_args a (Suc k) (f i) else f i)"
  let ?F = "ply_fp (H P) q f"
  let ?I = "\<lambda>j s. grown 0 P (snd s) \<and> unset_post P ?F q k (if fst s then del_args a k f else g j) s"
  have hi_f: "g hi = del_args a k f"
    by (simp add: g_def fun_eq_iff del_slots_def rng l_def [symmetric] v_def [symmetric])
  have "\<exists>s. foldo (unset_slot a q k) [lo..<hi] (False, P) = Some s \<and> ?I hi s"
  proof (rule foldo_upt)
    have "g lo = f" by (auto simp: g_def fun_eq_iff)
    then show "?I lo (False, P)"
      using reaches_refl [OF p] f by (auto simp: unset_post_def del_pre_def)
  next
    fix i s assume i: "lo \<le> i" "i < hi" and I: "?I i s"
    obtain d P' where s: "s = (d, P')" by (cases s)
    have fi: "g i i = f i" and fS: "g (Suc i) = (g i)(i := deln_args a (Suc k) (g i i))"
      using i by (auto simp: g_def fun_eq_iff less_Suc_eq)
    show "\<exists>s'. unset_slot a q k i s = Some s' \<and> ?I (Suc i) s'"
    proof (cases d)
      case True
      with I s show ?thesis by (simp add: unset_slot_def)
    next
      case False
      with I s have r: "reaches P ?F q k (g i) P'" "0 < k \<Longrightarrow> \<not> all_empty k (g i)"
        by (auto simp: unset_post_def)
      have sub: "del_pre R a (Suc k) h \<and> Suc k < 4" if "g i i = Nd h" for h
        using del_pre_sub [OF a k f, of i h] that i hi rng fi by (simp add: l_def v_def)
      obtain s' where s': "unset_slot a q k i s = Some s'" "grown 0 P' (snd s')"
          "unset_post P ?F q k (g (Suc i)) s'"
        using unset_leaf_slot [where g = "g i" and i = i, OF a IH sub r(1) r(2)] i hi s False
        unfolding fS by (auto simp del: fun_upd_apply)
      have "unset_post P ?F q k (del_args a k f) s'" if "fst s'"
      proof -
        have e: "0 < k" "all_empty k (g (Suc i))" "evolves P ?F (snd s') {}"
          using s'(3) that by (auto simp: unset_post_def split: prod.splits)
        have "g (Suc i) j = f j \<or> g (Suc i) j = del_args a k f j" for j
          using i by (auto simp: g_def del_slots_def rng l_def [symmetric] v_def [symmetric])
        from partial_all_empty [OF a k e(1) f this e(2)] e that show ?thesis
          by (auto simp: unset_post_def split: prod.splits)
      qed
      with s' I s show ?thesis using grown_0_trans by (auto split: if_splits)
    qed
  qed (rule hi)
  then obtain s where s: "foldo (unset_slot a q k) [lo..<hi] (False, P) = Some s" "?I hi s" by blast
  have "unset_leaf a q k P = Some s"
    using s(1) unfolding unset_leaf_loop [OF k ok(1)] Let_def hi_def lo_def l_def v_def .
  with s(2) show ?thesis unfolding hi_f by (simp split: if_splits)
qed

lemma unset_leaf_ok:
  assumes "del_ok R a" "k < 4"
  shows "unset_spec R a k"
  using assms(2)
proof (induction "4 - k" arbitrary: k)
  case (Suc n)
  have "unset_spec R a (Suc k)" if "Suc k < 4" using Suc.hyps(1) [of "Suc k"] Suc.hyps(2) that by simp
  from unset_loop_ok [OF assms(1) Suc.prems this] show ?case
    unfolding unset_spec_def by (metis prod.collapse snd_conv)
qed simp

end
