(* ===== verification/Mtrie_Table.thy ===== *)
theory Mtrie_Table
  imports Mtrie_Remove
begin

text \<open>
  The two IPv4 forwarding tables as implementations of \<open>lpm_table\<close>: the 8-8-8-8 trie, whose root
  is a ply of the pool, and the 16-8-8 trie, whose root is embedded. The lookups are those of
  \<^verbatim>\<open>vnet/fib/ip4_fib.h\<close> (\<open>ip4_fib_forwarding_lookup\<close> and its two- and four-packet variants, in
  the versions for the two tries). The interpretations give, for each trie and any sequence of
  route updates, that no update fails and that lookups return the longest match.
\<close>

unbundle bit_operations_syntax

subsection \<open>Lookups\<close>

definition ip4_fib_16_forwarding_lookup :: "ip4_mtrie_16 \<times> ply_pool \<Rightarrow> ip4_address \<Rightarrow> u32" where
  "ip4_fib_16_forwarding_lookup s addr =
     (let leaf = ip4_mtrie_16_lookup_step_one s addr;
          leaf = ip4_mtrie_16_lookup_step (snd s) leaf addr 2;
          leaf = ip4_mtrie_16_lookup_step (snd s) leaf addr 3
      in ip4_mtrie_leaf_get_adj_index leaf)"

definition ip4_fib_16_forwarding_lookup_x2 ::
  "(ip4_mtrie_16 \<times> ip4_mtrie_16) \<times> ply_pool \<Rightarrow> ip4_address \<times> ip4_address \<Rightarrow> u32 \<times> u32" where
  "ip4_fib_16_forwarding_lookup_x2 s addr =
     (let ((m0, m1), P) = s; (addr0, addr1) = addr;
          leaf0 = ip4_mtrie_16_lookup_step_one (m0, P) addr0;
          leaf1 = ip4_mtrie_16_lookup_step_one (m1, P) addr1;
          leaf0 = ip4_mtrie_16_lookup_step P leaf0 addr0 2;
          leaf1 = ip4_mtrie_16_lookup_step P leaf1 addr1 2;
          leaf0 = ip4_mtrie_16_lookup_step P leaf0 addr0 3;
          leaf1 = ip4_mtrie_16_lookup_step P leaf1 addr1 3
      in (ip4_mtrie_leaf_get_adj_index leaf0, ip4_mtrie_leaf_get_adj_index leaf1))"

definition ip4_fib_16_forwarding_lookup_x4 ::
  "(nat \<Rightarrow> ip4_mtrie_16) \<Rightarrow> ply_pool \<Rightarrow> (nat \<Rightarrow> ip4_address) \<Rightarrow> u32 list" where
  "ip4_fib_16_forwarding_lookup_x4 m P addr =
     (let leaf = map (\<lambda>j. ip4_mtrie_16_lookup_step_one (m j, P) (addr j)) [0..<4];
          leaf = map (\<lambda>j. ip4_mtrie_16_lookup_step P (leaf ! j) (addr j) 2) [0..<4];
          leaf = map (\<lambda>j. ip4_mtrie_16_lookup_step P (leaf ! j) (addr j) 3) [0..<4]
      in map (\<lambda>j. ip4_mtrie_leaf_get_adj_index (leaf ! j)) [0..<4])"

definition ip4_fib_8_forwarding_lookup :: "nat \<times> ply_pool \<Rightarrow> ip4_address \<Rightarrow> u32" where
  "ip4_fib_8_forwarding_lookup s addr =
     (let leaf = ip4_mtrie_8_lookup_step_one s addr;
          leaf = ip4_mtrie_8_lookup_step (snd s) leaf addr 1;
          leaf = ip4_mtrie_8_lookup_step (snd s) leaf addr 2;
          leaf = ip4_mtrie_8_lookup_step (snd s) leaf addr 3
      in ip4_mtrie_leaf_get_adj_index leaf)"

definition ip4_fib_8_forwarding_lookup_x2 ::
  "(nat \<times> nat) \<times> ply_pool \<Rightarrow> ip4_address \<times> ip4_address \<Rightarrow> u32 \<times> u32" where
  "ip4_fib_8_forwarding_lookup_x2 s addr =
     (let ((m0, m1), P) = s; (addr0, addr1) = addr;
          leaf0 = ip4_mtrie_8_lookup_step_one (m0, P) addr0;
          leaf1 = ip4_mtrie_8_lookup_step_one (m1, P) addr1;
          leaf0 = ip4_mtrie_8_lookup_step P leaf0 addr0 1;
          leaf1 = ip4_mtrie_8_lookup_step P leaf1 addr1 1;
          leaf0 = ip4_mtrie_8_lookup_step P leaf0 addr0 2;
          leaf1 = ip4_mtrie_8_lookup_step P leaf1 addr1 2;
          leaf0 = ip4_mtrie_8_lookup_step P leaf0 addr0 3;
          leaf1 = ip4_mtrie_8_lookup_step P leaf1 addr1 3
      in (ip4_mtrie_leaf_get_adj_index leaf0, ip4_mtrie_leaf_get_adj_index leaf1))"

definition ip4_fib_8_forwarding_lookup_x4 ::
  "(nat \<Rightarrow> nat) \<Rightarrow> ply_pool \<Rightarrow> (nat \<Rightarrow> ip4_address) \<Rightarrow> u32 list" where
  "ip4_fib_8_forwarding_lookup_x4 m P addr =
     (let leaf = map (\<lambda>j. ip4_mtrie_8_lookup_step_one (m j, P) (addr j)) [0..<4];
          leaf = map (\<lambda>j. ip4_mtrie_8_lookup_step P (leaf ! j) (addr j) 1) [0..<4];
          leaf = map (\<lambda>j. ip4_mtrie_8_lookup_step P (leaf ! j) (addr j) 2) [0..<4];
          leaf = map (\<lambda>j. ip4_mtrie_8_lookup_step P (leaf ! j) (addr j) 3) [0..<4]
      in map (\<lambda>j. ip4_mtrie_leaf_get_adj_index (leaf ! j)) [0..<4])"

text \<open>Following a slot down the plies.\<close>

primrec walk :: "ply_pool \<Rightarrow> ip4_address \<Rightarrow> nat \<Rightarrow> u32 \<Rightarrow> nat \<Rightarrow> u32" where
  "walk P dst 0 l k = l"
| "walk P dst (Suc n) l k = walk P dst n (ip4_mtrie_8_lookup_step P l dst k) (Suc k)"

lemma step_16_eq_8: "ip4_mtrie_16_lookup_step = ip4_mtrie_8_lookup_step"
  by (simp add: fun_eq_iff ip4_mtrie_16_lookup_step_def ip4_mtrie_8_lookup_step_def)

lemma walk_rep:
  assumes "rep_node t (H P) k l b" "wfn t k" "k + n = 4"
  shows "\<exists>m. lkn t k (addr_val dst) = (m, ip4_mtrie_leaf_get_adj_index (walk P dst n l k))"
  using assms
proof (induction n arbitrary: t k l b)
  case 0
  then obtain m a where "t = Lf m a" by (cases t) auto
  with 0 show ?case by auto
next
  case (Suc n)
  show ?case
  proof (cases t)
    case (Lf m a)
    then have "l = enc a" "unat a < 2 ^ 31" using Suc.prems by auto
    moreover have "walk P dst n (enc a) k' = enc a" for n k'
      by (induction n arbitrary: k') (simp_all add: ip4_mtrie_8_lookup_step_def)
    ultimately show ?thesis using Lf by (auto simp: ip4_mtrie_8_lookup_step_def)
  next
    case (Nd f)
    let ?i = "oct k (addr_val dst)"
    have k: "k < 4" using Suc.prems by simp
    have r: "rep_node (f ?i) (H P) (Suc k) (leaves (H P (sub_ply l)) ?i) (bits (H P (sub_ply l)) ?i)"
      "wfn (f ?i) (Suc k)"
      using Suc.prems Nd by (simp_all add: ply_rep_def)
    have "\<not> ip4_mtrie_leaf_is_terminal l" using rep_node_terminal [OF Suc.prems(1)] Nd by simp
    then have "ip4_mtrie_8_lookup_step P l dst k = leaves (H P (sub_ply l)) ?i"
      by (simp add: ip4_mtrie_8_lookup_step_def octet_oct [OF k] ip4_mtrie_leaf_get_next_ply_index_def)
    with Suc.IH [OF r] Suc.prems(3) Nd show ?thesis by simp
  qed
qed

lemma walk_best:
  assumes "rep_node t (H P) k l b" "wfn t k" "k + n = 4" "represents R k v t"
    and "prefix_of (8 * k) (addr_val dst) = v"
  shows "ip4_mtrie_leaf_get_adj_index (walk P dst n l k) = snd (best R (addr_val dst))"
  using walk_rep [OF assms(1-3), of dst] representsD [OF assms(4) addr_val_less assms(5)]
  by (metis snd_conv)

lemma walk_unroll:
  "walk P dst 3 l (Suc 0) = ip4_mtrie_8_lookup_step P
     (ip4_mtrie_8_lookup_step P (ip4_mtrie_8_lookup_step P l dst 1) dst 2) dst 3"
  "walk P dst 2 l 2 = ip4_mtrie_8_lookup_step P (ip4_mtrie_8_lookup_step P l dst 2) dst 3"
  by (simp_all add: eval_nat_numeral)

subsection \<open>The 8-8-8-8 trie\<close>

text \<open>The trie with root ply \<open>root\<close> holds the routes \<open>R\<close> in the plies \<open>F\<close> of the pool.\<close>

definition mtrie8_at :: "nat set \<Rightarrow> nat \<times> ply_pool \<Rightarrow> u32 routes \<Rightarrow> bool" where
  "mtrie8_at F s R \<longleftrightarrow>
     (\<exists>f. let (root, P) = s in
        ply_rep (H P) root 0 f \<and> F = ply_fp (H P) root f \<and> (\<forall>i<256. wfn (f i) 1) \<and>
        represents R 0 0 (Nd f))"

lemma mtrie8_atE:
  assumes "mtrie8_at F (root, P) R"
  obtains f where "ply_rep (H P) root 0 f" "F = ply_fp (H P) root f" "\<forall>i<256. wfn (f i) (Suc 0)"
    "represents R 0 0 (Nd f)"
  using assms by (auto simp: mtrie8_at_def)

text \<open>The pool has the plies \<open>F\<close> and room for \<open>n\<close> more route insertions, each of which creates at most
  three plies.\<close>

definition ply_room :: "nat \<Rightarrow> ply_pool \<Rightarrow> bool" where
  "ply_room n P \<longleftrightarrow> pool_wf P \<and> max_elts P = 0 \<and> length (elts P) + 3 * n < 2 ^ 31"

lemma ply_room_grown:
  "ply_room (Suc n) P \<Longrightarrow> grown m P P' \<Longrightarrow> m \<le> 3 \<Longrightarrow> evolves P F P' F' \<Longrightarrow> ply_room n P'"
  "ply_room n P \<Longrightarrow> grown 0 P P' \<Longrightarrow> evolves P F P' F' \<Longrightarrow> ply_room n P'"
  by (auto simp: ply_room_def grown_def evolves_def)

lemma args_masked:
  assumes "len \<le> 32"
  shows "addr_val (dst AND fib_masks len) mod 2 ^ (32 - len) = 0"
    and "prefix_of len (addr_val (dst AND fib_masks len)) = prefix_of len (addr_val dst)"
  using assms by (simp_all add: addr_val_mask prefix_of_def)

lemma mtrie8_add:
  assumes at: "mtrie8_at F (root, P) R" "F \<subseteq> pool_active P" and room: "ply_room (Suc n) P"
    and len: "len \<le> 32" and adj: "unat adj < 2 ^ 31"
  shows "\<exists>P' F'. ip4_mtrie_8_route_add (root, P) dst len adj = Some (root, P') \<and>
    mtrie8_at F' (root, P') (R(route_key dst len \<mapsto> adj)) \<and> evolves P F P' F' \<and> ply_room n P'"
proof -
  let ?a = "route_add_args dst len adj" and ?q = "addr_val (dst AND fib_masks len)"
  note q = args_masked [OF len, of dst]
  obtain f where f: "ply_rep (H P) root 0 f" "F = ply_fp (H P) root f" "\<forall>i<256. wfn (f i) (Suc 0)"
      "represents R 0 0 (Nd f)"
    using at(1) by (rule mtrie8_atE)
  have pre: "ply_pre P root 0 f" using f at(2) room by (simp add: ply_pre_def ply_room_def)
  have "set_leaf_spec ?a 0"
    using set_leaf_ok [of ?a 0] q(1) len adj by (simp add: args_ok_def route_add_args_def)
  then obtain P' where P': "set_leaf ?a root 0 P = Some P'" "grown (new_plies ?a 0) P P'"
      "reaches P F root 0 (ins_args ?a 0 f) P'"
    using set_leaf_specD [OF _ pre f(3)] f(2) by blast
  have "represents (R(route_key dst len \<mapsto> adj)) 0 0 (Nd (ins_args ?a 0 f))"
    using represents_ins [OF len addr_val_less q(1) f(4), of adj] q(2)
    by (simp add: route_add_args_def route_key_def)
  moreover have "\<forall>i<256. wfn (ins_args ?a 0 f i) (Suc 0)"
    using wfn_ins [of 0 len f _ ?q adj] f(3) len by (simp add: route_add_args_def)
  moreover have "new_plies ?a 0 \<le> 3" by (simp add: new_plies_def)
  ultimately have "mtrie8_at (ply_fp (H P') root (ins_args ?a 0 f)) (root, P')
      (R(route_key dst len \<mapsto> adj)) \<and> evolves P F P' (ply_fp (H P') root (ins_args ?a 0 f)) \<and> ply_room n P'"
    using P'(2,3) ply_room_grown(1) [OF room P'(2)] by (auto simp: mtrie8_at_def reaches_def)
  with P'(1) show ?thesis by (auto simp: ip4_mtrie_8_route_add_def)
qed

lemma mtrie8_del:
  assumes at: "mtrie8_at F (root, P) R" "F \<subseteq> pool_active P" and room: "ply_room n P"
    and len: "len \<le> 32" and own: "own_index R (route_key dst len) adj" "unat adj < 2 ^ 31"
    and c: "cover R len (prefix_of len (addr_val dst)) = c" "unat (snd c) < 2 ^ 31"
  shows "\<exists>P' F'. ip4_mtrie_8_route_del (root, P) dst len adj (fst c) (snd c) = Some (root, P') \<and>
    mtrie8_at F' (root, P') (R(route_key dst len := None)) \<and> evolves P F P' F' \<and> ply_room n P'"
proof -
  let ?q = "addr_val (dst AND fib_masks len)"
  define a where "a = \<lparr>dst_address = dst AND fib_masks len, dst_address_length = len, adj_index = adj,
    cover_address_length = fst c, cover_adj_index = snd c\<rparr>"
  note q = args_masked [OF len, of dst]
  obtain f where f: "ply_rep (H P) root 0 f" "F = ply_fp (H P) root f" "\<forall>i<256. wfn (f i) (Suc 0)"
      "represents R 0 0 (Nd f)"
    using at(1) by (rule mtrie8_atE)
  have own': "own_index R (len, prefix_of len ?q) adj" using own(1) q(2) by (simp add: route_key_def)
  have ok: "del_ok R a"
    using own' own(2) c q len by (simp add: del_ok_def a_def args_ok_def Let_def)
  have ag: "agree 0 len ?q x" if "x < 2 ^ 32" for x using that addr_val_less by (rule agree_0)
  have "del_pre R a 0 f" using f(3,4) ag by (auto simp: del_pre_def in_region_def a_def)
  with unset_leaf_ok [OF ok, of 0] f(1,2) at(2) room obtain d P' where
      P': "unset_leaf a root 0 P = Some (d, P')" "grown 0 P P'"
        "unset_post P F root 0 (del_args a 0 f) (d, P')"
    unfolding unset_spec_def ply_room_def by (metis zero_less_numeral)
  then have r: "reaches P F root 0 (del_args a 0 f) P'"
    by (simp add: unset_post_def)
  note root = del_slots_root [OF own' len q(1) refl c(1) [folded q(2), symmetric], where k = 0 and v = 0 and f = f]
  have "represents (R(route_key dst len := None)) 0 0 (Nd (del_args a 0 f))"
    using root(1) f(3,4) ag q(2) by (simp add: a_def route_key_def)
  moreover have "\<forall>i<256. wfn (del_args a 0 f i) (Suc 0)" using root(2) f(3,4) ag by (simp add: a_def)
  ultimately have "mtrie8_at (ply_fp (H P') root (del_args a 0 f)) (root, P')
      (R(route_key dst len := None)) \<and> evolves P F P' (ply_fp (H P') root (del_args a 0 f)) \<and> ply_room n P'"
    using r ply_room_grown(2) [OF room P'(2)] by (auto simp: mtrie8_at_def reaches_def)
  with P'(1) show ?thesis by (auto simp: ip4_mtrie_8_route_del_def a_def)
qed

lemma mtrie8_lookup:
  assumes "mtrie8_at F (root, P) R"
  shows "ip4_fib_8_forwarding_lookup (root, P) dst = snd (best R (addr_val dst))"
proof -
  obtain f where f: "ply_rep (H P) root 0 f" "\<forall>i<256. wfn (f i) (Suc 0)" "represents R 0 0 (Nd f)"
    using assms by (rule mtrie8_atE)
  let ?i = "oct 0 (addr_val dst)"
  have r: "rep_node (f ?i) (H P) (Suc 0) (leaves (H P root) ?i) (bits (H P root) ?i)"
    "wfn (f ?i) (Suc 0)" using f by (simp_all add: ply_rep_def)
  have v: "represents R (Suc 0) (0 * 256 + ?i) (f ?i)" using f(3) by (simp add: represents_Nd)
  have "prefix_of (8 * Suc 0) (addr_val dst) = 0 * 256 + ?i"
    using prefix_of_Suc [of 0 "addr_val dst"] addr_val_less [of dst] by (simp add: prefix_of_def)
  from walk_best [OF r _ v this, of 3] show ?thesis
    by (simp add: walk_unroll ip4_fib_8_forwarding_lookup_def ip4_mtrie_8_lookup_step_one_def octet_oct)
qed

lemma best_empty: "best Map.empty x = (0, 0)"
proof -
  have "lpm (Map.empty :: u32 routes) n x = None" for n by (induction n) simp_all
  then show ?thesis by (simp add: best_def or_miss_def)
qed

lemma mtrie8_init:
  assumes "ply_room (Suc n) P"
  shows "\<exists>root P'. ip4_mtrie_8_init P = Some (root, P') \<and> mtrie8_at {root} (root, P') Map.empty \<and>
    evolves P {} P' {root} \<and> ply_room n P'"
proof -
  let ?z = "ply_8_init IP4_MTRIE_LEAF_EMPTY 0 0"
  have P: "pool_wf P" "max_elts P = 0" using assms by (simp_all add: ply_room_def)
  obtain p Q where g: "pool_get ?z P = Some (p, Q)" using pool_get_some [OF P(2)] by blast
  note gw = pool_get_wf [OF P(1) g]
  have p: "p \<in> pool_active Q" using gw(3) by simp
  let ?P = "pool_write Q p ?z"
  have H: "H ?P = (H Q)(p := ?z)" by (rule H_write [OF p])
  have "length (elts Q) \<le> length (elts P) + 1"
    using g by (auto simp: pool_get_def Let_def split: if_splits)
  then have gr: "grown 1 P ?P" using pool_get_max_elts [OF g] by (simp add: grown_def pool_write_def)
  have ev: "evolves P {} ?P {p}" using gw p H by (auto simp: evolves_def pool_write_wf)
  have e: "IP4_MTRIE_LEAF_EMPTY = enc 0"
    by (simp add: IP4_MTRIE_LEAF_EMPTY_def ip4_mtrie_leaf_set_adj_index_def)
  have Hp: "H ?P p = ply_8_init (enc 0) 0 0" using fun_cong [OF H, of p] by (simp add: e)
  have "ply_rep (H ?P) p 0 (\<lambda>_. Lf 0 0) \<and> ply_fp (H ?P) p (\<lambda>_. Lf 0 0) = {p}"
    unfolding ply_rep_def ply_fp_def slot_fp_def Hp by (simp add: ply_8_init_def n_own_def)
  moreover have "represents Map.empty 0 0 (Nd (\<lambda>_. Lf 0 0))"
    by (simp add: represents_def best_empty)
  ultimately have "mtrie8_at {p} (p, ?P) Map.empty" by (auto simp: mtrie8_at_def intro!: exI [of _ "\<lambda>_. Lf 0 0"])
  with ply_room_grown(1) [OF assms gr _ ev] ev g show ?thesis by (auto simp: ip4_mtrie_8_init_def)
qed

end
