(* ===== verification/Mtrie_Root.thy ===== *)
theory Mtrie_Root
  imports Mtrie_Table
begin

text \<open>
  The 16-8-8 trie: its root is an array of 65536 slots embedded in the table, indexed by the upper
  half of the address in network order; the plies below come from the pool. Insertion
  (\<open>set_root_leaf\<close>) and removal (\<open>unset_root_leaf\<close>) refine the tree operations \<open>ins16\<close> and \<open>del16\<close>.
\<close>

unbundle bit_operations_syntax

subsection \<open>The 16-8-8 trie\<close>

text \<open>Slot \<open>s\<close> of the root, numbered by the value of the upper half of the address, is stored at the
  index in network order.\<close>

definition nslot :: "nat \<Rightarrow> nat" where
  "nslot s = unat (clib_host_to_net_u16 (of_nat s))"

lemma nslot_inj: "s < 65536 \<Longrightarrow> t < 65536 \<Longrightarrow> nslot s = nslot t \<longleftrightarrow> s = t"
proof
  assume s: "s < 65536" "t < 65536" and e: "nslot s = nslot t"
  from e have "clib_byte_swap_u16 (of_nat s) = clib_byte_swap_u16 (of_nat t)"
    by (simp add: nslot_def byte_order_defs word_unat_eq_iff)
  then have "unat (of_nat s :: u16) = unat (of_nat t :: u16)" by (metis byte_swap_u16_swap)
  with s show "s = t" by (simp add: unat_of_nat)
qed simp

lemma root_slot_nslot: "root_slot (as_u16_0 dst) i = nslot (prefix_of 16 (addr_val dst) + i)"
proof -
  have "clib_net_to_host_u16 (as_u16_0 dst) = of_nat (prefix_of 16 (addr_val dst))"
    using as_u16_val [of dst] of_nat_unat [of "clib_net_to_host_u16 (as_u16_0 dst)"]
    by (simp add: prefix_of_def flip: as_u16_val)
  then show ?thesis by (simp add: root_slot_def nslot_def)
qed

lemma as_u16_nslot: "unat (as_u16_0 dst) = nslot (prefix_of 16 (addr_val dst))"
  using root_slot_nslot [of dst 0] by (simp add: root_slot_def byte_order_defs)

abbreviation root_leaf :: "ip4_mtrie_16 \<Rightarrow> nat \<Rightarrow> u32" where
  "root_leaf m s \<equiv> root_leaves m (nslot s)"

abbreviation root_fp :: "ply_pool \<Rightarrow> ip4_mtrie_16 \<Rightarrow> (nat \<Rightarrow> node) \<Rightarrow> nat \<Rightarrow> nat set" where
  "root_fp P m f s \<equiv> fp (f s) (H P) (root_leaf m s)"

definition root_rep :: "nat set \<Rightarrow> ip4_mtrie_16 \<times> ply_pool \<Rightarrow> (nat \<Rightarrow> node) \<Rightarrow> bool" where
  "root_rep F s f \<longleftrightarrow> (let (m, P) = s in
     (\<forall>s<65536. rep_node (f s) (H P) 2 (root_leaf m s) (root_bits m (nslot s))) \<and>
     (\<forall>s<65536. \<forall>t<65536. s \<noteq> t \<longrightarrow> root_fp P m f s \<inter> root_fp P m f t = {}) \<and>
     F = (\<Union>s<65536. root_fp P m f s))"

definition mtrie16_at :: "nat set \<Rightarrow> ip4_mtrie_16 \<times> ply_pool \<Rightarrow> u32 routes \<Rightarrow> bool" where
  "mtrie16_at F s R \<longleftrightarrow>
     (\<exists>f. root_rep F s f \<and> (\<forall>s<65536. wfn (f s) 2 \<and> represents R 2 s (f s)))"

text \<open>A change of one slot of the root and of the plies below it.\<close>

lemma root_change:
  assumes rep: "root_rep F (m, P) f" and act: "F \<subseteq> pool_active P" and s: "s < 65536"
    and ev: "evolves P (root_fp P m f s) P' (fp t (H P') l)" and t: "rep_node t (H P') 2 l b"
    and m': "root_leaves m' = (root_leaves m)(nslot s := l)" "root_bits m' = (root_bits m)(nslot s := b)"
  shows "\<exists>F'. root_rep F' (m', P') (f(s := t)) \<and> evolves P F P' F'"
proof -
  let ?f = "f(s := t)" and ?Fs = "root_fp P m f s" and ?Ft = "fp t (H P') l"
  have F: "F = (\<Union>s<65536. root_fp P m f s)"
    and dis: "\<And>i j. i < 65536 \<Longrightarrow> j < 65536 \<Longrightarrow> i \<noteq> j \<Longrightarrow> root_fp P m f i \<inter> root_fp P m f j = {}"
    using rep by (simp_all add: root_rep_def)
  have sub: "root_fp P m f i \<subseteq> pool_active P - ?Fs" if "i < 65536" "i \<noteq> s" for i
    using dis [OF that(1) s that(2)] act that F by blast
  have out: "?Ft \<inter> (pool_active P - ?Fs) = {}" "?Ft \<subseteq> pool_active P'"
      "pool_active P' = (pool_active P - ?Fs) \<union> ?Ft"
      "\<And>p. p \<in> pool_active P - ?Fs \<Longrightarrow> H P' p = H P p"
    using ev unfolding evolves_def by blast+
  have this_slot: "root_leaf m' s = l" "root_bits m' (nslot s) = b" by (simp_all add: m')
  have other: "root_fp P' m' ?f i = root_fp P m f i"
      "rep_node (f i) (H P') 2 (root_leaf m' i) (root_bits m' (nslot i))" if i: "i < 65536" "i \<noteq> s" for i
  proof -
    have e: "root_leaf m' i = root_leaf m i" "root_bits m' (nslot i) = root_bits m (nslot i)"
      using i s by (simp_all add: m' nslot_inj)
    have h: "H P' p = H P p" if "p \<in> root_fp P m f i" for p using that sub [OF i] out(4) by blast
    show "root_fp P' m' ?f i = root_fp P m f i" using i e fp_cong [OF h] by simp
    show "rep_node (f i) (H P') 2 (root_leaf m' i) (root_bits m' (nslot i))"
      using rep i rep_node_cong [OF h] by (simp add: e root_rep_def)
  qed
  have "root_rep (\<Union>s<65536. root_fp P' m' ?f s) (m', P') ?f"
    unfolding root_rep_def prod.case Let_def
  proof (intro conjI allI impI refl)
    fix i :: nat assume i: "i < 65536"
    show "rep_node (?f i) (H P') 2 (root_leaf m' i) (root_bits m' (nslot i))"
      using t other(2) [OF i] this_slot by (cases "i = s") simp_all
    fix j :: nat assume j: "j < 65536" "i \<noteq> j"
    have new: "root_fp P' m' ?f s \<inter> root_fp P' m' ?f k = {}" if "k < 65536" "k \<noteq> s" for k
      using other(1) [OF that] sub [OF that] out(1) this_slot by auto
    show "root_fp P' m' ?f i \<inter> root_fp P' m' ?f j = {}"
      using new [of i] new [of j] other(1) [OF i] other(1) [OF j(1)] dis [OF i j] i j
      by (cases "i = s"; cases "j = s") blast+
  qed
  moreover have un: "(\<Union>i<65536. root_fp P' m' ?f i) = (F - ?Fs) \<union> ?Ft"
  proof -
    have "(\<Union>i<65536. root_fp P' m' ?f i) = (\<Union>i\<in>{..<65536} - {s}. root_fp P m f i) \<union> ?Ft"
      using other(1) this_slot s by (auto split: if_splits)
    moreover have "F - ?Fs = (\<Union>i\<in>{..<65536} - {s}. root_fp P m f i)" using F dis s by blast
    ultimately show ?thesis by simp
  qed
  moreover have "evolves P F P' ((F - ?Fs) \<union> ?Ft)"
    using act ev out F s unfolding evolves_def by blast
  ultimately show ?thesis by auto
qed

text \<open>The state of the loops over root slots.\<close>

definition root_inv ::
  "nat \<Rightarrow> ply_pool \<Rightarrow> nat set \<Rightarrow> (nat \<Rightarrow> node) \<Rightarrow> ip4_mtrie_16 \<times> ply_pool \<Rightarrow> bool" where
  "root_inv n P F f s \<longleftrightarrow> (\<exists>F'. root_rep F' s f \<and> evolves P F (snd s) F' \<and> grown n P (snd s))"

lemma root_inv_pool:
  assumes "root_inv n P F f (m, P1)"
  shows "pool_wf P1" "max_elts P1 = max_elts P" "length (elts P1) \<le> length (elts P) + n"
  using assms by (auto simp: root_inv_def evolves_def grown_def)

lemma root_inv_leaf:
  assumes "root_inv n P F f (m, P1)" "s < 65536" "f s = Lf k b"
  shows "root_leaf m s = enc b" "root_bits m (nslot s) = k" "unat b < 2 ^ 31"
proof -
  have "rep_node (f s) (H P1) 2 (root_leaf m s) (root_bits m (nslot s))"
    using assms(1,2) by (auto simp: root_inv_def root_rep_def)
  with assms(3) show "root_leaf m s = enc b" "root_bits m (nslot s) = k" "unat b < 2 ^ 31" by simp_all
qed

lemma root_inv_sub:
  assumes "root_inv n P F f (m, P1)" "s < 65536" "f s = Nd g"
  shows "root_leaf m s = ip4_mtrie_leaf_set_next_ply_index (sub_ply (root_leaf m s))"
    "\<not> ip4_mtrie_leaf_is_terminal (root_leaf m s)" "root_bits m (nslot s) = 16"
    "ply_rep (H P1) (sub_ply (root_leaf m s)) 2 g" "sub_ply (root_leaf m s) < 2 ^ 31"
    "ply_fp (H P1) (sub_ply (root_leaf m s)) g \<subseteq> pool_active P1"
proof -
  obtain F' where F': "root_rep F' (m, P1) f" "F' \<subseteq> pool_active P1"
    using assms(1) by (auto simp: root_inv_def evolves_def)
  then have r: "rep_node (f s) (H P1) 2 (root_leaf m s) (root_bits m (nslot s))" "root_fp P1 m f s \<subseteq> F'"
    using assms(2) by (auto simp: root_rep_def)
  from r assms(3) show
    "root_leaf m s = ip4_mtrie_leaf_set_next_ply_index (sub_ply (root_leaf m s))"
    "root_bits m (nslot s) = 16" "ply_rep (H P1) (sub_ply (root_leaf m s)) 2 g"
    "sub_ply (root_leaf m s) < 2 ^ 31" by simp_all
  show "\<not> ip4_mtrie_leaf_is_terminal (root_leaf m s)" using rep_node_terminal [OF r(1)] assms(3) by simp
  show "ply_fp (H P1) (sub_ply (root_leaf m s)) g \<subseteq> pool_active P1"
    using r(2) F'(2) assms(3) by simp
qed

lemma root_inv_change:
  assumes inv: "root_inv n P F f (m, P1)" and s: "s < 65536"
    and ch: "evolves P1 (root_fp P1 m f s) P2 (fp t (H P2) l)" "rep_node t (H P2) 2 l b"
      "root_leaves m' = (root_leaves m)(nslot s := l)" "root_bits m' = (root_bits m)(nslot s := b)"
    and gr: "grown j P1 P2"
  shows "root_inv (n + j) P F (f(s := t)) (m', P2)"
proof -
  obtain F1 where F1: "root_rep F1 (m, P1) f" "evolves P F P1 F1" "grown n P P1"
    using inv by (auto simp: root_inv_def)
  moreover have "F1 \<subseteq> pool_active P1" using F1(2) by (simp add: evolves_def)
  ultimately show ?thesis
    using root_change [OF F1(1) _ s ch] evolves_trans [OF F1(2)] grown_trans [OF F1(3) gr]
    unfolding root_inv_def by (metis snd_conv)
qed

lemma root_inv_store:
  assumes inv: "root_inv n P F f (m, P1)" and s: "s < 65536" and fs: "f s = Lf k b" and a: "unat a < 2 ^ 31"
  shows "root_inv n P F (f(s := Lf l a)) (root_store m (nslot s) (enc a) l, P1)"
  using root_inv_change [OF inv s, of P1 "Lf l a" "enc a" l "root_store m (nslot s) (enc a) l" 0]
    fs a root_inv_pool(1) [OF inv] by (simp add: evolves_refl root_store_def)

lemma root_inv_reaches:
  assumes inv: "root_inv n P F f (m, P1)" and s: "s < 65536" and fs: "f s = Nd g"
    and r: "reaches P1 (ply_fp (H P1) (sub_ply (root_leaf m s)) g) (sub_ply (root_leaf m s)) 2 g' P2"
    and gr: "grown j P1 P2"
  shows "root_inv (n + j) P F (f(s := Nd g')) (m, P2)"
proof (rule root_inv_change [OF inv s _ _ _ _ gr])
  note sub = root_inv_sub [OF inv s fs]
  show "evolves P1 (root_fp P1 m f s) P2 (fp (Nd g') (H P2) (root_leaf m s))"
    using r fs by (simp add: reaches_def)
  show "rep_node (Nd g') (H P2) 2 (root_leaf m s) 16" using r sub by (simp add: reaches_def)
  show "root_bits m = (root_bits m)(nslot s := 16)" using sub(3) by auto
qed simp

lemma root_inv_cong:
  assumes "\<And>s. s < 65536 \<Longrightarrow> f s = g s"
  shows "root_inv n P F f s = root_inv n P F g s"
proof -
  have "root_rep F' s f = root_rep F' s g" for F' s using assms by (cases s) (simp add: root_rep_def)
  then show ?thesis by (simp add: root_inv_def)
qed

subsection \<open>Insertion into the 16-8-8 trie\<close>

text \<open>An iteration of the loop that fills the slots of a short prefix.\<close>

lemma set_root_slot:
  assumes inv: "root_inv 0 P F f (m, P1)" and s: "s < 65536" and wf: "wfn (f s) 2"
    and a: "args_ok a" and l: "dst_address_length a \<le> 16"
    and room: "max_elts P = 0" "length (elts P) + 3 < 2 ^ 31"
  shows "\<exists>s'. (let slot = nslot s; old_leaf = root_leaves m slot in
       if root_bits m slot \<le> dst_address_length a
       then let new_leaf = ip4_mtrie_leaf_set_adj_index (adj_index a) in
            if ip4_mtrie_leaf_is_terminal old_leaf
            then Some (root_store m slot new_leaf (dst_address_length a), P1)
            else do { P \<leftarrow> set_ply_with_more_specific_leaf max_depth new_leaf (dst_address_length a)
                        (ip4_mtrie_leaf_get_next_ply_index old_leaf) P1;
                      Some (m, P) }
       else if \<not> ip4_mtrie_leaf_is_terminal old_leaf
       then do { P \<leftarrow> set_leaf a (ip4_mtrie_leaf_get_next_ply_index old_leaf) 2 P1; Some (m, P) }
       else Some (m, P1)) = Some s' \<and>
     root_inv 0 P F (f(s := fill_node (dst_address_length a) (adj_index a) (f s))) s'"
proof (cases "f s")
  case (Lf k b)
  have adj: "unat (adj_index a) < 2 ^ 31" using a by (simp add: args_ok_def)
  note leaf = root_inv_leaf [OF inv s Lf] and store = root_inv_store [OF inv s Lf adj, of "dst_address_length a"]
  have same: "f(s := Lf k b) = f" using Lf by (rule fun_upd_idem)
  show ?thesis
  proof (cases "k \<le> dst_address_length a")
    case True
    with store show ?thesis by (simp only: Let_def leaf Lf fill_node.simps terminal_enc if_True) auto
  next
    case False
    with inv show ?thesis
      by (simp only: Let_def leaf Lf fill_node.simps terminal_enc if_False simp_thms same) auto
  qed
next
  case (Nd g)
  let ?q = "sub_ply (root_leaf m s)" and ?g = "\<lambda>i. fill_node (dst_address_length a) (adj_index a) (g i)"
  note sub = root_inv_sub [OF inv s Nd] and p = root_inv_pool [OF inv]
  have w: "\<forall>i<256. wfn (g i) (Suc 2)" using wf Nd by simp
  have fin: "root_inv 0 P F (f(s := Nd ?g)) (m, P2)"
    if "reaches P1 (ply_fp (H P1) ?q g) ?q 2 ?g P2" "grown 0 P1 P2" for P2
    using root_inv_reaches [OF inv s Nd that] by simp
  show ?thesis
  proof (cases "root_bits m (nslot s) \<le> dst_address_length a")
    case True
    obtain P2 where P2: "set_ply_with_more_specific_leaf max_depth (enc (adj_index a))
        (dst_address_length a) ?q P1 = Some P2"
        "reaches P1 (ply_fp (H P1) ?q g) ?q 2 ?g P2" "grown 0 P1 P2"
      using set_ply_refine [OF sub(4) p(1) sub(6), of max_depth "dst_address_length a" "adj_index a"]
        w l a by (auto simp: args_ok_def max_depth_def)
    have "root_inv 0 P F (f(s := Nd ?g)) (m, P2)" using P2(2,3) by (rule fin)
    with P2(1) True sub(2) show ?thesis by (simp add: Let_def Nd del: fun_upd_apply)
  next
    case False
    have pre: "ply_pre P1 ?q 2 g" using sub(4,6) p room by (simp add: ply_pre_def)
    obtain P2 where P2: "set_leaf a ?q 2 P1 = Some P2" "grown (new_plies a 2) P1 P2"
        "reaches P1 (ply_fp (H P1) ?q g) ?q 2 (ins_args a 2 g) P2"
      using set_leaf_specD [OF set_leaf_ok [OF a] pre w] by auto
    have "ins_args a 2 g i = ?g i" if "i < 256" for i
      using in_rng_whole [of 2 "dst_address_length a" _ i] a l that by (simp add: ins.simps args_ok_def)
    then have "reaches P1 (ply_fp (H P1) ?q g) ?q 2 ?g P2"
      using P2(3) by (rule reaches_cong [THEN iffD1])
    moreover have "grown 0 P1 P2" using P2(2) l by (simp add: new_plies_def)
    ultimately have "root_inv 0 P F (f(s := Nd ?g)) (m, P2)" by (rule fin)
    with P2(1) False sub(2) show ?thesis by (simp add: Let_def Nd del: fun_upd_apply)
  qed
qed

lemma root_rng:
  assumes "l \<le> 16" "q < 2 ^ 32" "q mod 2 ^ (32 - l) = 0"
  shows "prefix_of 16 q + 2 ^ (16 - l) \<le> 65536"
proof -
  have e: "32 - l = 16 + (16 - l)" using assms(1) by simp
  have "2 ^ 16 * 2 ^ (16 - l) dvd q" using assms(3) unfolding e power_add by (simp add: mod_eq_0_iff_dvd)
  then obtain t where t: "q = 2 ^ 16 * (2 ^ (16 - l) * t)" by (auto simp: dvd_def mult.assoc)
  have p: "(2 :: nat) ^ (16 - l) * 2 ^ l = 65536" using assms(1) by (simp flip: power_add)
  have "2 ^ (16 - l) * t < 2 ^ (16 - l) * 2 ^ l" using t assms(2) unfolding p by (simp add: mult.commute)
  then have "2 ^ (16 - l) * (t + 1) \<le> 2 ^ (16 - l) * 2 ^ l"
    by (metis Suc_eq_plus1 Suc_leI mult_le_mono2 mult_less_cancel1)
  with p t show ?thesis by (simp add: prefix_of_def)
qed

abbreviation ins16_args :: "ip4_mtrie_set_unset_leaf_args \<Rightarrow> (nat \<Rightarrow> node) \<Rightarrow> nat \<Rightarrow> node" where
  "ins16_args a f \<equiv> ins16 (dst_address_length a) (addr_val (dst_address a)) (adj_index a) f"

lemma set_root_short:
  assumes inv: "root_inv 0 P F f (m, P)" and wf: "\<forall>s<65536. wfn (f s) 2"
    and a: "args_ok a" and l: "dst_address_length a \<le> 16"
    and room: "max_elts P = 0" "length (elts P) + 3 < 2 ^ 31"
  shows "\<exists>s'. set_root_leaf a (m, P) = Some s' \<and> root_inv 0 P F (ins16_args a f) s'"
proof -
  let ?q = "addr_val (dst_address a)" and ?fill = "fill_node (dst_address_length a) (adj_index a)"
  let ?Q = "prefix_of 16 ?q" and ?n = "2 ^ (16 - dst_address_length a)"
  let ?f = "\<lambda>j s. if ?Q \<le> s \<and> s < ?Q + j then ?fill (f s) else f s"
  have b: "?Q + ?n \<le> 65536" using root_rng [OF l addr_val_less] a by (simp add: args_ok_def)
  have c: "int (dst_address_length a) - 16 \<le> 0" using l by simp
  have "\<exists>s'. set_root_leaf a (m, P) = Some s' \<and> root_inv 0 P F (?f ?n) s'"
    unfolding set_root_leaf_def Let_def root_slot_nslot if_P [OF c]
  proof (rule foldo_upt, goal_cases)
    case 1
    have "?f 0 = f" by (auto simp: fun_eq_iff)
    then show ?case using inv by (simp only:)
  next
    case (3 i t)
    obtain m1 P1 where t: "t = (m1, P1)" by (cases t)
    have Q: "?Q + i < 65536" using 3 b by simp
    have f1: "?f i (?Q + i) = f (?Q + i)" by simp
    have fS: "?f (Suc i) = (?f i)(?Q + i := ?fill (f (?Q + i)))" by (auto simp: fun_eq_iff less_Suc_eq)
    have w: "wfn (?f i (?Q + i)) 2" unfolding f1 using wf Q by simp
    from set_root_slot [OF 3(3) [unfolded t] Q w a l room] show ?case
      unfolding t prod.case Let_def f1 fS .
  qed simp
  then show ?thesis using l by (simp add: ins16_def Let_def)
qed

text \<open>A prefix longer than 16 bits goes to one slot, which becomes a ply if it is a leaf.\<close>

lemma set_root_below:
  assumes inv: "root_inv n P F f (m, P1)" and s: "s < 65536" and fs: "f s = Nd g"
    and wf: "\<forall>i<256. wfn (g i) 3" and a: "args_ok a"
    and room: "max_elts P = 0" "length (elts P) + n + 1 < 2 ^ 31"
  shows "\<exists>P2. set_leaf a (sub_ply (root_leaf m s)) 2 P1 = Some P2 \<and>
    root_inv (n + 1) P F (f(s := Nd (ins_args a 2 g))) (m, P2)"
proof -
  note sub = root_inv_sub [OF inv s fs] and p = root_inv_pool [OF inv]
  have "ply_pre P1 (sub_ply (root_leaf m s)) 2 g" using sub(4,6) p room by (simp add: ply_pre_def)
  then obtain P2 where P2: "set_leaf a (sub_ply (root_leaf m s)) 2 P1 = Some P2"
      "grown (new_plies a 2) P1 P2"
      "reaches P1 (ply_fp (H P1) (sub_ply (root_leaf m s)) g) (sub_ply (root_leaf m s)) 2 (ins_args a 2 g) P2"
    using set_leaf_specD [OF set_leaf_ok [OF a], of 2 P1 "sub_ply (root_leaf m s)" g] wf by auto
  have "grown 1 P1 P2" using P2(2) by (auto simp: grown_def new_plies_def split: if_splits)
  from root_inv_reaches [OF inv s fs P2(3) this] P2(1) show ?thesis by blast
qed

lemma root_new_ply:
  assumes inv: "root_inv 0 P F f (m, P)" and s: "s < 65536" and fs: "f s = Lf n b" and n: "n \<le> 16"
    and room: "max_elts P = 0" "length (elts P) < 2 ^ 31"
  shows "\<exists>p P1. ply_create P (root_leaf m s) (root_bits m (nslot s)) 16 =
      Some (ip4_mtrie_leaf_set_next_ply_index p, P1) \<and> p < 2 ^ 31 \<and>
    root_inv 1 P F (f(s := Nd (\<lambda>_. Lf n b)))
      (root_store m (nslot s) (ip4_mtrie_leaf_set_next_ply_index p) 16, P1)"
proof -
  note leaf = root_inv_leaf [OF inv s fs] and wf = root_inv_pool(1) [OF inv]
  obtain p P1 where c: "ply_create P (enc b) n 16 = Some (ip4_mtrie_leaf_set_next_ply_index p, P1)"
    and P1: "pool_wf P1" "p \<notin> pool_active P" "pool_active P1 = insert p (pool_active P)"
      "H P1 p = ply_8_init (enc b) n 16" "\<And>r. r \<in> pool_active P \<Longrightarrow> H P1 r = H P r"
      "grown 1 P P1" "p \<le> length (elts P)"
    using ply_create_ok [OF wf room(1), of "enc b" n 16] by blast
  have p: "p < 2 ^ 31" using P1(7) room by simp
  note fresh = rep_fresh_ply [of "H P1" p b n 2]
  have ev: "evolves P {} P1 {p}" using P1 by (auto simp: evolves_def)
  have "root_inv (0 + 1) P F (f(s := Nd (\<lambda>_. Lf n b)))
      (root_store m (nslot s) (ip4_mtrie_leaf_set_next_ply_index p) 16, P1)"
    by (rule root_inv_change [OF inv s _ _ _ _ P1(6), of _ "ip4_mtrie_leaf_set_next_ply_index p" 16])
      (use fresh P1(4) n p leaf fs ev in \<open>simp_all add: root_store_def\<close>)
  with c p leaf show ?thesis by auto
qed

lemma set_root_ok:
  assumes inv: "root_inv 0 P F f (m, P)" and wf: "\<forall>s<65536. wfn (f s) 2" and a: "args_ok a"
    and room: "max_elts P = 0" "length (elts P) + 3 < 2 ^ 31"
  shows "\<exists>s' n. set_root_leaf a (m, P) = Some s' \<and> root_inv n P F (ins16_args a f) s' \<and> n \<le> 3"
proof (cases "dst_address_length a \<le> 16")
  case True
  then show ?thesis using set_root_short [OF inv wf a True room] by auto
next
  case False
  let ?Q = "prefix_of 16 (addr_val (dst_address a))"
  have Q: "?Q < 65536" using addr_val_less [of "dst_address a"] by (simp add: prefix_of_def)
  have w: "wfn (f ?Q) 2" using wf Q by simp
  have c: "\<not> int (dst_address_length a) - 16 \<le> 0" using False by simp
  show ?thesis
  proof (cases "f ?Q")
    case (Lf n b)
    have "n \<le> 16" "length (elts P) < 2 ^ 31" using w Lf room by simp_all
    then obtain p P1 where new: "ply_create P (root_leaf m ?Q) (root_bits m (nslot ?Q)) 16 =
          Some (ip4_mtrie_leaf_set_next_ply_index p, P1)" "p < 2 ^ 31"
        "root_inv 1 P F (f(?Q := Nd (\<lambda>_. Lf n b)))
          (root_store m (nslot ?Q) (ip4_mtrie_leaf_set_next_ply_index p) 16, P1)"
      using root_new_ply [OF inv Q Lf] room by blast
    let ?m = "root_store m (nslot ?Q) (ip4_mtrie_leaf_set_next_ply_index p) 16"
    have leaf: "sub_ply (root_leaf ?m ?Q) = p" using new(2) by (simp add: root_store_def)
    have "\<exists>P2. set_leaf a p 2 P1 = Some P2 \<and>
        root_inv (1 + 1) P F ((f(?Q := Nd (\<lambda>_. Lf n b)))(?Q := Nd (ins_args a 2 (\<lambda>_. Lf n b)))) (?m, P2)"
      using set_root_below [OF new(3) Q _ _ a room(1), of "\<lambda>_. Lf n b"] room w Lf
      unfolding leaf by (simp del: fun_upd_upd)
    then obtain P2 where "set_leaf a p 2 P1 = Some P2"
        "root_inv 2 P F (f(?Q := Nd (ins_args a 2 (\<lambda>_. Lf n b)))) (?m, P2)"
      by (auto simp: numeral_2_eq_2)
    with False new(1,2) root_inv_leaf [OF inv Q Lf] Lf show ?thesis
      by (simp add: set_root_leaf_def Let_def as_u16_nslot ins16_def del: fun_upd_apply)
        (intro exI [of _ 2], simp)
  next
    case (Nd g)
    then have "\<forall>i<256. wfn (g i) 3" using w by simp
    then obtain P2 where "set_leaf a (sub_ply (root_leaf m ?Q)) 2 P = Some P2"
        "root_inv 1 P F (f(?Q := Nd (ins_args a 2 g))) (m, P2)"
      using set_root_below [OF inv Q Nd _ a room(1)] room by auto
    with False root_inv_sub(2) [OF inv Q Nd] Nd show ?thesis
      by (simp add: set_root_leaf_def Let_def as_u16_nslot ins16_def del: fun_upd_apply)
        (intro exI [of _ 1], simp)
  qed
qed

subsection \<open>Removal from the 16-8-8 trie\<close>

lemma unset_root_slot:
  assumes inv: "root_inv 0 P F f (m, P1)" and s: "s < 65536" and wf: "wfn (f s) 2"
    and rep: "represents R 2 s (f s)" and ok: "del_ok R a" and reg: "in_region a 2 s"
  shows "\<exists>s'. (do { let slot = nslot s;
             let old_leaf = root_leaves m slot;
             (change, P) \<leftarrow>
               (if old_leaf = ip4_mtrie_leaf_set_adj_index (adj_index a) then Some (True, P1)
                else if \<not> ip4_mtrie_leaf_is_terminal old_leaf
                then unset_leaf a (ip4_mtrie_leaf_get_next_ply_index old_leaf) 2 P1
                else Some (False, P1));
             if change
             then Some (root_store m slot (ip4_mtrie_leaf_set_adj_index (cover_adj_index a))
                          (cover_address_length a), P)
             else Some (m, P) }) = Some s' \<and> root_inv 0 P F (f(s := deln_args a 2 (f s))) s'"
proof (cases "f s")
  case (Lf n b)
  note leaf = root_inv_leaf [OF inv s Lf]
  have adj: "unat (adj_index a) < 2 ^ 31" "unat (cover_adj_index a) < 2 ^ 31"
    using ok by (simp_all add: del_ok_def args_ok_def)
  note store = root_inv_store [OF inv s Lf adj(2), of "cover_address_length a"]
  have same: "f(s := Lf n b) = f" using Lf by (rule fun_upd_idem)
  show ?thesis
  proof (cases "b = adj_index a")
    case True
    with store leaf(1) show ?thesis by (simp add: Let_def Lf del: fun_upd_apply)
  next
    case False
    then have "enc b \<noteq> enc (adj_index a)" using enc_inj leaf(3) adj(1) by blast
    with False inv leaf(1) show ?thesis by (simp add: Let_def Lf same del: fun_upd_apply)
  qed
next
  case (Nd g)
  let ?q = "sub_ply (root_leaf m s)"
  note sub = root_inv_sub [OF inv s Nd] and p = root_inv_pool [OF inv]
  have nt: "root_leaf m s \<noteq> ip4_mtrie_leaf_set_adj_index (adj_index a)" using sub(2) by auto
  have "del_pre R a 2 g" using wf rep reg s Nd by (auto simp: del_pre_def)
  then obtain d P2 where P2: "unset_leaf a ?q 2 P1 = Some (d, P2)" "grown 0 P1 P2"
      "unset_post P1 (ply_fp (H P1) ?q g) ?q 2 (del_args a 2 g) (d, P2)"
    using unset_leaf_ok [OF ok, of 2, unfolded unset_spec_def, rule_format, OF _ sub(4) p(1) sub(6)] by auto
  show ?thesis
  proof (cases d)
    case True
    then have e: "all_empty 2 (del_args a 2 g)" "evolves P1 (ply_fp (H P1) ?q g) P2 {}"
      using P2(3) by (simp_all add: unset_post_def)
    have "root_inv (0 + 0) P F (f(s := Lf (cover_address_length a) (cover_adj_index a)))
        (root_store m (nslot s) (enc (cover_adj_index a)) (cover_address_length a), P2)"
      by (rule root_inv_change [OF inv s _ _ _ _ P2(2), of _ "enc (cover_adj_index a)" "cover_address_length a"])
        (use e(2) ok Nd in \<open>simp_all add: root_store_def del_ok_def\<close>)
    with True e(1) P2(1) nt sub(2) show ?thesis by (simp add: Let_def Nd del: fun_upd_apply)
  next
    case False
    then have e: "\<not> all_empty 2 (del_args a 2 g)" "reaches P1 (ply_fp (H P1) ?q g) ?q 2 (del_args a 2 g) P2"
      using P2(3) by (simp_all add: unset_post_def)
    have "root_inv (0 + 0) P F (f(s := Nd (del_args a 2 g))) (m, P2)"
      by (rule root_inv_reaches [OF inv s Nd e(2) P2(2)])
    with False e(1) P2(1) nt sub(2) show ?thesis by (simp add: Let_def Nd del: fun_upd_apply)
  qed
qed

abbreviation del16_args :: "ip4_mtrie_set_unset_leaf_args \<Rightarrow> (nat \<Rightarrow> node) \<Rightarrow> nat \<Rightarrow> node" where
  "del16_args a f \<equiv>
     del16 (dst_address_length a) (addr_val (dst_address a)) (adj_index a) (cover_args a) f"

lemma unset_root_ok:
  assumes inv: "root_inv 0 P F f (m, P)" and f: "\<forall>s<65536. wfn (f s) 2 \<and> represents R 2 s (f s)"
    and ok: "del_ok R a"
  shows "\<exists>s'. unset_root_leaf a (m, P) = Some s' \<and> root_inv 0 P F (del16_args a f) s'"
proof -
  let ?l = "dst_address_length a" and ?q = "addr_val (dst_address a)"
  let ?Q = "prefix_of 16 ?q" and ?n = "2 ^ (16 - ?l) :: nat"
  let ?f = "\<lambda>j s. if ?Q \<le> s \<and> s < ?Q + j then deln_args a 2 (f s) else f s"
  have l: "?l \<le> 32" "?q mod 2 ^ (32 - ?l) = 0" using ok by (simp_all add: del_ok_def args_ok_def)
  have b: "?Q + ?n \<le> 65536"
  proof (cases "?l \<le> 16")
    case True
    then show ?thesis using root_rng [OF True addr_val_less l(2)] by simp
  next
    case False
    then show ?thesis using addr_val_less [of "dst_address a"] by (simp add: prefix_of_def)
  qed
  have n: "(2 ^ (if int ?l - 16 \<le> 0 then 16 - ?l else 0)) = ?n" by simp
  have "\<exists>s'. unset_root_leaf a (m, P) = Some s' \<and> root_inv 0 P F (?f ?n) s'"
    unfolding unset_root_leaf_def Let_def root_slot_nslot n
  proof (rule foldo_upt, goal_cases)
    case 1
    have "?f 0 = f" by (auto simp: fun_eq_iff)
    then show ?case using inv by (simp only:)
  next
    case (3 i t)
    obtain m1 P1 where t: "t = (m1, P1)" by (cases t)
    have Q: "?Q + i < 65536" using 3 b by simp
    have f1: "?f i (?Q + i) = f (?Q + i)" by simp
    have fS: "?f (Suc i) = (?f i)(?Q + i := deln_args a 2 (f (?Q + i)))"
      by (auto simp: fun_eq_iff less_Suc_eq)
    have w: "wfn (?f i (?Q + i)) 2" "represents R 2 (?Q + i) (?f i (?Q + i))" unfolding f1 using f Q by simp_all
    have "in_region a 2 (?Q + i)" using agree_2 [OF l] 3 by (auto simp: in_region_def)
    from unset_root_slot [OF 3(3) [unfolded t] Q w ok this] show ?case
      unfolding t prod.case Let_def f1 fS .
  qed simp
  then show ?thesis by (simp add: del16_def Let_def)
qed

subsection \<open>The operations of the 16-8-8 trie\<close>

lemma root_inv_start:
  "root_rep F (m, P) f \<Longrightarrow> F \<subseteq> pool_active P \<Longrightarrow> pool_wf P \<Longrightarrow> root_inv 0 P F f (m, P)"
  by (auto simp: root_inv_def evolves_refl)

lemma mtrie16_add:
  assumes at: "mtrie16_at F (m, P) R" "F \<subseteq> pool_active P" and room: "ply_room (Suc n) P"
    and len: "len \<le> 32" and adj: "unat adj < 2 ^ 31"
  shows "\<exists>m' P' F'. ip4_mtrie_16_route_add (m, P) dst len adj = Some (m', P') \<and>
    mtrie16_at F' (m', P') (R(route_key dst len \<mapsto> adj)) \<and> evolves P F P' F' \<and> ply_room n P'"
proof -
  let ?a = "route_add_args dst len adj" and ?q = "addr_val (dst AND fib_masks len)"
  note q = args_masked [OF len, of dst]
  obtain f where f: "root_rep F (m, P) f" "\<forall>s<65536. wfn (f s) 2 \<and> represents R 2 s (f s)"
    using at(1) by (auto simp: mtrie16_at_def)
  have inv: "root_inv 0 P F f (m, P)"
    using root_inv_start [OF f(1) at(2)] room by (simp add: ply_room_def)
  have a: "args_ok ?a" using q(1) len adj by (simp add: args_ok_def route_add_args_def)
  obtain m' P' k where s': "set_root_leaf ?a (m, P) = Some (m', P')"
      "root_inv k P F (ins16 len ?q adj f) (m', P')" "k \<le> 3"
    using set_root_ok [OF inv _ a] f(2) room by (auto simp: ply_room_def route_add_args_def)
  then obtain F' where F': "root_rep F' (m', P') (ins16 len ?q adj f)" "evolves P F P' F'" "grown k P P'"
    by (auto simp: root_inv_def)
  have "prefix_of 16 ?q < 65536" using addr_val_less [of "dst AND fib_masks len"] by (simp add: prefix_of_def)
  then have "wfn (ins16 len ?q adj f s) 2 \<and>
      represents (R(route_key dst len \<mapsto> adj)) 2 s (ins16 len ?q adj f s)" if "s < 65536" for s
    using wfn_ins16 [OF len] represents_ins16 [OF len q(1), of R s f adj] f(2) q(2) that
    by (simp add: route_key_def)
  with F' have "mtrie16_at F' (m', P') (R(route_key dst len \<mapsto> adj))" by (auto simp: mtrie16_at_def)
  with F'(2) s'(1) ply_room_grown(1) [OF room F'(3) s'(3) F'(2)] show ?thesis
    by (auto simp: ip4_mtrie_16_route_add_def)
qed

lemma mtrie16_del:
  assumes at: "mtrie16_at F (m, P) R" "F \<subseteq> pool_active P" and room: "ply_room n P"
    and len: "len \<le> 32" and own: "own_index R (route_key dst len) adj" "unat adj < 2 ^ 31"
    and c: "cover R len (prefix_of len (addr_val dst)) = c" "unat (snd c) < 2 ^ 31"
  shows "\<exists>m' P' F'. ip4_mtrie_16_route_del (m, P) dst len adj (fst c) (snd c) = Some (m', P') \<and>
    mtrie16_at F' (m', P') (R(route_key dst len := None)) \<and> evolves P F P' F' \<and> ply_room n P'"
proof -
  let ?q = "addr_val (dst AND fib_masks len)"
  define a where "a = \<lparr>dst_address = dst AND fib_masks len, dst_address_length = len, adj_index = adj,
    cover_address_length = fst c, cover_adj_index = snd c\<rparr>"
  note q = args_masked [OF len, of dst]
  obtain f where f: "root_rep F (m, P) f" "\<forall>s<65536. wfn (f s) 2 \<and> represents R 2 s (f s)"
    using at(1) by (auto simp: mtrie16_at_def)
  have inv: "root_inv 0 P F f (m, P)"
    using root_inv_start [OF f(1) at(2)] room by (simp add: ply_room_def)
  have own': "own_index R (len, prefix_of len ?q) adj" using own(1) q(2) by (simp add: route_key_def)
  have ok: "del_ok R a"
    using own' own(2) c q len by (simp add: del_ok_def a_def args_ok_def Let_def)
  obtain m' P' where s': "unset_root_leaf a (m, P) = Some (m', P')"
      "root_inv 0 P F (del16 len ?q adj c f) (m', P')"
    using unset_root_ok [OF inv f(2) ok] by (auto simp: a_def)
  then obtain F' where F': "root_rep F' (m', P') (del16 len ?q adj c f)" "evolves P F P' F'" "grown 0 P P'"
    by (auto simp: root_inv_def)
  have "wfn (del16 len ?q adj c f s) 2 \<and>
      represents (R(route_key dst len := None)) 2 s (del16 len ?q adj c f s)" if "s < 65536" for s
    using del16_ok [OF own' len q(1) refl c(1) [folded q(2), symmetric] that] f(2) q(2) that
    by (simp add: route_key_def)
  with F' have "mtrie16_at F' (m', P') (R(route_key dst len := None))" by (auto simp: mtrie16_at_def)
  with F'(2) s'(1) ply_room_grown(2) [OF room F'(3,2)] show ?thesis
    by (auto simp: ip4_mtrie_16_route_del_def a_def)
qed

lemma mtrie16_lookup:
  assumes "mtrie16_at F (m, P) R"
  shows "ip4_fib_16_forwarding_lookup (m, P) dst = snd (best R (addr_val dst))"
proof -
  let ?s = "prefix_of 16 (addr_val dst)"
  obtain f where f: "root_rep F (m, P) f" "\<forall>s<65536. wfn (f s) 2 \<and> represents R 2 s (f s)"
    using assms by (auto simp: mtrie16_at_def)
  have s: "?s < 65536" using addr_val_less [of dst] by (simp add: prefix_of_def)
  have r: "rep_node (f ?s) (H P) 2 (root_leaf m ?s) (root_bits m (nslot ?s))"
    using f(1) s by (simp add: root_rep_def)
  have "wfn (f ?s) 2" "represents R 2 ?s (f ?s)" using f(2) s by simp_all
  from walk_best [OF r this(1) _ this(2), of 2 dst] show ?thesis
    by (simp add: walk_unroll ip4_fib_16_forwarding_lookup_def ip4_mtrie_16_lookup_step_one_def
        step_16_eq_8 as_u16_nslot)
qed

lemma mtrie16_init: "mtrie16_at {} (ip4_mtrie_16_init, P) Map.empty"
  unfolding mtrie16_at_def
  by (rule exI [of _ "\<lambda>_. Lf 0 0"])
    (simp add: root_rep_def ip4_mtrie_16_init_def ply_16_init_def IP4_MTRIE_LEAF_EMPTY_def
      ip4_mtrie_leaf_set_adj_index_def represents_def best_empty)

end
