(* ===== verification/Fwd_Tables.thy ===== *)
theory Fwd_Tables
  imports Mtrie_Root
begin

text \<open>
  Forwarding tables that share the ply pool. Every IPv4 FIB has a trie of its own; the plies of all of
  them come from \<open>ip4_ply_pool\<close>. The locale \<open>shared_plies\<close> is the contract of one trie: what its plies
  hold depends on those plies only, and an update changes only them. From it come the laws of
  \<open>lpm_table\<close> for one table, and that tables in one pool do not interfere. It is interpreted for the
  8-8-8-8 and for the 16-8-8 trie.
\<close>

subsection \<open>Several tables\<close>

text \<open>The state is the root of each table and the pool.\<close>

type_synonym 'r tables = "(nat \<Rightarrow> 'r) \<times> ply_pool"

text \<open>Index 0 of the ply pool is taken at start-up; the contents of that ply are never set.\<close>

definition ip4_mtrie_module_init :: "ip4_mtrie_8_ply \<Rightarrow> ply_pool option" where
  "ip4_mtrie_module_init z = map_option snd (pool_get z pool_null)"

text \<open>The creation of \<open>N\<close> FIBs with 8-8-8-8 tries.\<close>

definition create_8_table :: "nat \<Rightarrow> nat tables \<Rightarrow> nat tables option" where
  "create_8_table i s =
     map_option (\<lambda>(root, P). ((fst s)(i := root), P)) (ip4_mtrie_8_init (snd s))"

definition create_8_tables :: "nat \<Rightarrow> ply_pool \<Rightarrow> nat tables option" where
  "create_8_tables N P = foldo create_8_table [0..<N] (\<lambda>_. 0, P)"

text \<open>The updates are a sequence of pairs of a table and a route update of it.\<close>

definition tables_upd ::
  "('r \<times> ply_pool) table_add \<Rightarrow> ('r \<times> ply_pool) table_del \<Rightarrow> nat \<times> route_update \<Rightarrow>
   (nat \<Rightarrow> u32 routes) \<Rightarrow> 'r tables \<Rightarrow> 'r tables option" where
  "tables_upd add del iu T s =
     map_option (\<lambda>(r, P). ((fst s)(fst iu := r), P))
       (table_upd add del (snd iu) (T (fst iu)) (fst s (fst iu), snd s))"

definition upd_tables :: "nat \<times> route_update \<Rightarrow> (nat \<Rightarrow> u32 routes) \<Rightarrow> nat \<Rightarrow> u32 routes" where
  "upd_tables iu T = T(fst iu := upd_routes (snd iu) (T (fst iu)))"

primrec tables_run ::
  "('r \<times> ply_pool) table_add \<Rightarrow> ('r \<times> ply_pool) table_del \<Rightarrow> (nat \<times> route_update) list \<Rightarrow>
   (nat \<Rightarrow> u32 routes) \<Rightarrow> 'r tables \<Rightarrow> 'r tables option" where
  "tables_run add del [] T s = Some s"
| "tables_run add del (iu # us) T s =
     Option.bind (tables_upd add del iu T s) (tables_run add del us (upd_tables iu T))"

primrec tables_upds_ok :: "nat \<Rightarrow> (nat \<times> route_update) list \<Rightarrow> (nat \<Rightarrow> u32 routes) \<Rightarrow> bool" where
  "tables_upds_ok N [] T \<longleftrightarrow> True"
| "tables_upds_ok N (iu # us) T \<longleftrightarrow>
     fst iu < N \<and> upd_ok (snd iu) (T (fst iu)) \<and> tables_upds_ok N us (upd_tables iu T)"

definition tables_rep ::
  "(nat set \<Rightarrow> 'r \<times> ply_pool \<Rightarrow> u32 routes \<Rightarrow> bool) \<Rightarrow> nat \<Rightarrow> 'r tables \<Rightarrow> (nat \<Rightarrow> u32 routes) \<Rightarrow> bool" where
  "tables_rep at N s T \<longleftrightarrow> (\<exists>F.
     (\<forall>i<N. at (F i) (fst s i, snd s) (T i) \<and> F i \<subseteq> pool_active (snd s)) \<and>
     (\<forall>i<N. \<forall>j<N. i \<noteq> j \<longrightarrow> F i \<inter> F j = {}))"

text \<open>A table that only sees its own updates.\<close>

lemma upd_tables_own:
  "fold upd_tables us T i = fold upd_routes (map snd (filter (\<lambda>iu. fst iu = i) us)) (T i)"
  by (induction us arbitrary: T) (auto simp: upd_tables_def)

subsection \<open>The contract of a trie\<close>

locale shared_plies =
  fixes at :: "nat set \<Rightarrow> 'r \<times> ply_pool \<Rightarrow> u32 routes \<Rightarrow> bool"
    and add :: "('r \<times> ply_pool) table_add"
    and del :: "('r \<times> ply_pool) table_del"
    and lookup :: "'r \<times> ply_pool \<Rightarrow> ip4_address \<Rightarrow> u32"
  assumes at_frame: "at F (r, P) R \<Longrightarrow> \<forall>p\<in>F. H P' p = H P p \<Longrightarrow> at F (r, P') R"
    and at_add: "at F (r, P) R \<Longrightarrow> F \<subseteq> pool_active P \<Longrightarrow> ply_room (Suc n) P \<Longrightarrow> len \<le> 32 \<Longrightarrow>
      unat adj < 2 ^ 31 \<Longrightarrow> \<exists>r' P' F'. add (r, P) dst len adj = Some (r', P') \<and>
        at F' (r', P') (R(route_key dst len \<mapsto> adj)) \<and> evolves P F P' F' \<and> ply_room n P'"
    and at_del: "at F (r, P) R \<Longrightarrow> F \<subseteq> pool_active P \<Longrightarrow> ply_room n P \<Longrightarrow> len \<le> 32 \<Longrightarrow>
      own_index R (route_key dst len) adj \<Longrightarrow> unat adj < 2 ^ 31 \<Longrightarrow>
      cover R len (prefix_of len (addr_val dst)) = c \<Longrightarrow> unat (snd c) < 2 ^ 31 \<Longrightarrow>
      \<exists>r' P' F'. del (r, P) dst len adj (fst c) (snd c) = Some (r', P') \<and>
        at F' (r', P') (R(route_key dst len := None)) \<and> evolves P F P' F' \<and> ply_room n P'"
    and at_lookup: "at F (r, P) R \<Longrightarrow> lookup (r, P) dst = snd (best R (addr_val dst))"
begin

lemma at_upd:
  assumes at: "at F (r, P) R" "F \<subseteq> pool_active P" and room: "ply_room (Suc n) P" and u: "upd_ok u R"
  shows "\<exists>r' P' F'. table_upd add del u R (r, P) = Some (r', P') \<and>
    at F' (r', P') (upd_routes u R) \<and> evolves P F P' F' \<and> ply_room n P'"
proof (cases u)
  case (Add_route dst len adj)
  with u at_add [OF at room] show ?thesis by simp
next
  case (Del_route dst len)
  with u obtain adj where adj: "own_index R (route_key dst len) adj" "unat adj < 2 ^ 31"
    and l: "len \<le> 32" and c: "unat (snd (cover R len (prefix_of len (addr_val dst)))) < 2 ^ 31"
    by auto
  have "ply_room n P" using room by (simp add: ply_room_def)
  from at_del [OF at this l adj refl c] own_indexD(1) [OF adj(1)] show ?thesis
    by (simp add: Del_route Let_def)
qed

lemma at_run:
  assumes "at F (r, P) R" "F \<subseteq> pool_active P" "ply_room (length us) P" "upds_ok us R"
  shows "\<exists>r' P' F'. table_run add del us R (r, P) = Some (r', P') \<and>
    at F' (r', P') (fold upd_routes us R) \<and> evolves P F P' F'"
  using assms
proof (induction us arbitrary: r P R F)
  case Nil
  then show ?case using evolves_refl [of P F] by (auto simp: ply_room_def)
next
  case (Cons u us)
  have u: "upd_ok u R" "upds_ok us (upd_routes u R)" "ply_room (Suc (length us)) P"
    using Cons.prems(3,4) by simp_all
  obtain r1 P1 F1 where 1: "table_upd add del u R (r, P) = Some (r1, P1)"
      "at F1 (r1, P1) (upd_routes u R)" "evolves P F P1 F1" "ply_room (length us) P1"
    using at_upd [OF Cons.prems(1,2) u(3,1)] by blast
  have "F1 \<subseteq> pool_active P1" using 1(3) by (simp add: evolves_def)
  from Cons.IH [OF 1(2) this 1(4) u(2)] obtain r' P' F' where
    "table_run add del us (upd_routes u R) (r1, P1) = Some (r', P')"
    "at F' (r', P') (fold upd_routes us (upd_routes u R))" "evolves P1 F1 P' F'" by blast
  with 1(1) evolves_trans [OF 1(3)] show ?case by auto
qed

text \<open>An update of one table is a step of the whole.\<close>

lemma tables_step:
  assumes rep: "tables_rep at N s T" and room: "ply_room (Suc n) (snd s)"
    and iu: "fst iu < N" "upd_ok (snd iu) (T (fst iu))"
  shows "\<exists>s'. tables_upd add del iu T s = Some s' \<and> tables_rep at N s' (upd_tables iu T) \<and> ply_room n (snd s')"
proof -
  let ?i = "fst iu" and ?P = "snd s"
  obtain F where "(\<forall>i<N. at (F i) (fst s i, ?P) (T i) \<and> F i \<subseteq> pool_active ?P) \<and>
      (\<forall>i<N. \<forall>j<N. i \<noteq> j \<longrightarrow> F i \<inter> F j = {})"
    using rep unfolding tables_rep_def ..
  then have F: "\<And>i. i < N \<Longrightarrow> at (F i) (fst s i, ?P) (T i)" "\<And>i. i < N \<Longrightarrow> F i \<subseteq> pool_active ?P"
      "\<And>i j. i < N \<Longrightarrow> j < N \<Longrightarrow> i \<noteq> j \<Longrightarrow> F i \<inter> F j = {}" by simp_all
  obtain r' P' F' where u: "table_upd add del (snd iu) (T ?i) (fst s ?i, ?P) = Some (r', P')"
      "at F' (r', P') (upd_routes (snd iu) (T ?i))" "evolves ?P (F ?i) P' F'" "ply_room n P'"
    using at_upd [OF F(1,2) [OF iu(1)] room iu(2)] by blast
  have act: "F' \<subseteq> pool_active P'" "pool_active P' - F' = pool_active ?P - F ?i"
      "\<And>p. p \<in> pool_active ?P - F ?i \<Longrightarrow> H P' p = H ?P p"
    using u(3) by (simp_all add: evolves_def)
  have out: "F j \<subseteq> pool_active ?P - F ?i" if "j < N" "j \<noteq> ?i" for j
    using F(2,3) that iu(1) by blast
  have frame: "at (F j) (fst s j, P') (T j)" if "j < N" "j \<noteq> ?i" for j
    using at_frame [OF F(1) [OF that(1)]] out [OF that] act(3) by blast
  have sep: "F j \<subseteq> pool_active P' - F'" if "j < N" "j \<noteq> ?i" for j
    using out [OF that] act(2) by blast
  have "tables_rep at N ((fst s)(?i := r'), P') (upd_tables iu T)"
    unfolding tables_rep_def upd_tables_def
  proof (rule exI [of _ "F(?i := F')"], intro conjI allI impI)
    fix j assume j: "j < N"
    show "at ((F(?i := F')) j) (fst ((fst s)(?i := r'), P') j, snd ((fst s)(?i := r'), P'))
        ((T(?i := upd_routes (snd iu) (T ?i))) j)"
      using u(2) frame [OF j] by simp
    show "(F(?i := F')) j \<subseteq> pool_active (snd ((fst s)(?i := r'), P'))" using sep [OF j] act(1) by auto
    fix k assume k: "k < N" "j \<noteq> k"
    show "(F(?i := F')) j \<inter> (F(?i := F')) k = {}" using sep [OF j] sep [OF k(1)] F(3) [OF j k] k(2) by auto
  qed
  with u(1,4) show ?thesis by (simp add: tables_upd_def)
qed

lemma tables_run_rep:
  assumes "tables_rep at N s T" "ply_room (length us) (snd s)" "tables_upds_ok N us T"
  shows "\<exists>s'. tables_run add del us T s = Some s' \<and> tables_rep at N s' (fold upd_tables us T)"
  using assms
proof (induction us arbitrary: s T)
  case (Cons iu us)
  then obtain s' where "tables_upd add del iu T s = Some s'" "tables_rep at N s' (upd_tables iu T)"
      "ply_room (length us) (snd s')"
    using tables_step [OF Cons.prems(1), of "length us" iu] by auto
  with Cons show ?case by simp
qed simp

lemma tables_run_lookup:
  assumes "tables_rep at N s T" "ply_room (length us) (snd s)" "tables_upds_ok N us T"
  shows "\<exists>s'. tables_run add del us T s = Some s' \<and> (\<forall>i<N. \<forall>dst. lookup (fst s' i, snd s') dst =
    snd (best (fold upd_routes (map snd (filter (\<lambda>iu. fst iu = i) us)) (T i)) (addr_val dst)))"
proof -
  obtain s' where s': "tables_run add del us T s = Some s'" "tables_rep at N s' (fold upd_tables us T)"
    using tables_run_rep [OF assms] by blast
  have "lookup (fst s' i, snd s') dst = snd (best (fold upd_tables us T i) (addr_val dst))" if "i < N" for i dst
    using s'(2) that at_lookup unfolding tables_rep_def by blast
  with s'(1) show ?thesis unfolding upd_tables_own by blast
qed

end

text \<open>One table, whatever else is in the pool.\<close>

sublocale shared_plies \<subseteq> lpm_table "\<lambda>s R. \<exists>F. at F s R \<and> F \<subseteq> pool_active (snd s)"
  "\<lambda>n s. ply_room n (snd s)" add del lookup
proof
  fix s R n and len :: nat and adj :: u32 and dst
  assume "\<exists>F. at F s R \<and> F \<subseteq> pool_active (snd s)" "ply_room (Suc n) (snd s)" "len \<le> 32" "unat adj < 2 ^ 31"
  then show "\<exists>s'. add s dst len adj = Some s' \<and>
      (\<exists>F. at F s' (R(route_key dst len \<mapsto> adj)) \<and> F \<subseteq> pool_active (snd s')) \<and> ply_room n (snd s')"
    using at_add [of _ "fst s" "snd s" R n len adj dst] unfolding evolves_def
    by (metis prod.collapse snd_conv)
next
  fix s R n and len :: nat and adj :: u32 and dst c
  assume "\<exists>F. at F s R \<and> F \<subseteq> pool_active (snd s)" "ply_room n (snd s)" "len \<le> 32"
    "own_index R (route_key dst len) adj" "unat adj < 2 ^ 31"
    "cover R len (prefix_of len (addr_val dst)) = c" "unat (snd c) < 2 ^ 31"
  then show "\<exists>s'. del s dst len adj (fst c) (snd c) = Some s' \<and>
      (\<exists>F. at F s' (R(route_key dst len := None)) \<and> F \<subseteq> pool_active (snd s')) \<and> ply_room n (snd s')"
    using at_del [of _ "fst s" "snd s" R n len dst adj c] unfolding evolves_def
    by (metis prod.collapse snd_conv)
next
  fix s R dst
  assume "\<exists>F. at F s R \<and> F \<subseteq> pool_active (snd s)"
  then show "lookup s dst = snd (best R (addr_val dst))" using at_lookup [of _ "fst s" "snd s"] by auto
qed (simp add: ply_room_def)

subsection \<open>The two tries\<close>

lemma ply_frame:
  assumes "ply_rep h q k f" "\<forall>p\<in>ply_fp h q f. h' p = h p"
  shows "ply_rep h' q k f" "ply_fp h' q f = ply_fp h q f"
proof -
  have q: "h' q = h q" using assms(2) by (simp add: ply_fp_def)
  have e: "h' p = h p" if "i < 256" "p \<in> fp (f i) h (leaves (h q) i)" for i p
    using assms(2) that by (auto simp: ply_fp_def slot_fp_def)
  have s: "slot_fp h' q f i = slot_fp h q f i" if "i < 256" for i
    unfolding slot_fp_def q using fp_cong [OF e [OF that]] .
  have "rep_node (f i) h' (Suc k) (leaves (h q) i) (bits (h q) i) =
      rep_node (f i) h (Suc k) (leaves (h q) i) (bits (h q) i)" if "i < 256" for i
    using rep_node_cong [OF e [OF that]] .
  with assms(1) s show "ply_rep h' q k f" "ply_fp h' q f = ply_fp h q f"
    by (simp_all add: ply_rep_def ply_fp_def q)
qed

lemma mtrie8_frame:
  assumes "mtrie8_at F (r, P) R" "\<forall>p\<in>F. H P' p = H P p"
  shows "mtrie8_at F (r, P') R"
proof -
  obtain f where f: "ply_rep (H P) r 0 f" "F = ply_fp (H P) r f" "\<forall>i<256. wfn (f i) (Suc 0)"
      "represents R 0 0 (Nd f)"
    using assms(1) by (rule mtrie8_atE)
  with ply_frame [OF f(1), of "H P'"] assms(2) show ?thesis by (auto simp: mtrie8_at_def)
qed

lemma mtrie16_frame:
  assumes "mtrie16_at F (m, P) R" "\<forall>p\<in>F. H P' p = H P p"
  shows "mtrie16_at F (m, P') R"
proof -
  obtain f where f: "root_rep F (m, P) f" "\<forall>s<65536. wfn (f s) 2 \<and> represents R 2 s (f s)"
    using assms(1) by (auto simp: mtrie16_at_def)
  have e: "H P' p = H P p" if "s < 65536" "p \<in> root_fp P m f s" for s p
    using f(1) assms(2) that by (auto simp: root_rep_def)
  have "rep_node (f s) (H P') 2 (root_leaf m s) (root_bits m (nslot s)) =
        rep_node (f s) (H P) 2 (root_leaf m s) (root_bits m (nslot s))"
      "root_fp P' m f s = root_fp P m f s" if "s < 65536" for s
    using rep_node_cong [OF e [OF that]] fp_cong [OF e [OF that]] by simp_all
  then have "root_rep F (m, P') f" using f(1) by (simp add: root_rep_def)
  with f(2) show ?thesis by (auto simp: mtrie16_at_def)
qed

interpretation fib8: shared_plies mtrie8_at ip4_mtrie_8_route_add ip4_mtrie_8_route_del ip4_fib_8_forwarding_lookup
  by unfold_locales (fact mtrie8_frame, use mtrie8_add in blast, use mtrie8_del in blast, fact mtrie8_lookup)

interpretation fib16: shared_plies mtrie16_at ip4_mtrie_16_route_add ip4_mtrie_16_route_del ip4_fib_16_forwarding_lookup
  by unfold_locales (fact mtrie16_frame, fact mtrie16_add, fact mtrie16_del, fact mtrie16_lookup)

lemma tables16_init: "tables_rep mtrie16_at N (\<lambda>_. ip4_mtrie_16_init, P) (\<lambda>_. Map.empty)"
  using mtrie16_init by (auto simp: tables_rep_def intro!: exI [of _ "\<lambda>_. {}"])

lemma tables8_init:
  assumes "ply_room (N + n) P"
  shows "\<exists>s. create_8_tables N P = Some s \<and> tables_rep mtrie8_at N s (\<lambda>_. Map.empty) \<and> ply_room n (snd s)"
proof -
  let ?I = "\<lambda>j s. tables_rep mtrie8_at j s (\<lambda>_. Map.empty) \<and> ply_room (N + n - j) (snd s)"
  have "\<exists>s. create_8_tables N P = Some s \<and> ?I N s"
    unfolding create_8_tables_def
  proof (rule foldo_upt [where I = ?I])
    show "?I 0 (\<lambda>_. 0, P)" using assms by (simp add: tables_rep_def)
  next
    fix j s assume j: "j < N" and I: "?I j s"
    obtain r P1 where s: "s = (r, P1)" by (cases s)
    have "ply_room (Suc (N + n - Suc j)) P1" using I j s by (simp add: Suc_diff_Suc)
    from mtrie8_init [OF this] obtain root P2 where new: "ip4_mtrie_8_init P1 = Some (root, P2)"
        "mtrie8_at {root} (root, P2) Map.empty" "evolves P1 {} P2 {root}" "ply_room (N + n - Suc j) P2"
      by blast
    obtain F where "(\<forall>i<j. mtrie8_at (F i) (r i, P1) Map.empty \<and> F i \<subseteq> pool_active P1) \<and>
        (\<forall>i<j. \<forall>k<j. i \<noteq> k \<longrightarrow> F i \<inter> F k = {})"
      using I unfolding s tables_rep_def by auto
    then have F: "\<And>i. i < j \<Longrightarrow> mtrie8_at (F i) (r i, P1) Map.empty"
        "\<And>i. i < j \<Longrightarrow> F i \<subseteq> pool_active P1" "\<And>i k. i < j \<Longrightarrow> k < j \<Longrightarrow> i \<noteq> k \<Longrightarrow> F i \<inter> F k = {}"
      by simp_all
    have ev: "pool_active P2 - {root} = pool_active P1" "root \<in> pool_active P2"
        "\<And>p. p \<in> pool_active P1 \<Longrightarrow> H P2 p = H P1 p"
      using new(3) by (auto simp: evolves_def)
    have old: "mtrie8_at (F i) (r i, P2) Map.empty \<and> F i \<subseteq> pool_active P2 - {root}" if "i < j" for i
      using mtrie8_frame [OF F(1) [OF that]] F(2) [OF that] ev by blast
    have "tables_rep mtrie8_at (Suc j) (r(j := root), P2) (\<lambda>_. Map.empty)"
      unfolding tables_rep_def
    proof (rule exI [of _ "F(j := {root})"], intro conjI allI impI)
      fix i assume i: "i < Suc j"
      show "mtrie8_at ((F(j := {root})) i) (fst (r(j := root), P2) i, snd (r(j := root), P2)) Map.empty"
        using old [of i] new(2) i by (cases "i = j") simp_all
      show "(F(j := {root})) i \<subseteq> pool_active (snd (r(j := root), P2))"
        using old [of i] ev(2) i by (cases "i = j") auto
      fix k assume k: "k < Suc j" "i \<noteq> k"
      show "(F(j := {root})) i \<inter> (F(j := {root})) k = {}"
        using old [of i] old [of k] F(3) [of i k] i k by (auto simp: less_Suc_eq)
    qed
    with new(1,4) show "\<exists>s'. create_8_table j s = Some s' \<and> ?I (Suc j) s'"
      by (simp add: s create_8_table_def)
  qed simp
  then show ?thesis by auto
qed

lemma module_init_room:
  assumes "3 * n + 1 < 2 ^ 31"
  shows "\<exists>P. ip4_mtrie_module_init z = Some P \<and> ply_room n P"
proof -
  have m: "max_elts (pool_null :: ply_pool) = 0" by (simp add: pool_null_def)
  obtain p Q where g: "pool_get z pool_null = Some (p, Q)" using pool_get_some [OF m] by blast
  have "length (elts Q) = 1" using g by (auto simp: pool_get_def pool_null_def Let_def split: if_splits)
  with assms g pool_get_wf(1) [OF pool_wf_null g] pool_get_max_elts [OF g] m show ?thesis
    by (auto simp: ip4_mtrie_module_init_def ply_room_def)
qed

subsection \<open>Properties\<close>

text \<open>Evaluation of the specification on examples.\<close>

lemma lpm_numeral:
  "lpm R (numeral v) x =
     (case R (numeral v, prefix_of (numeral v) x) of Some a \<Rightarrow> Some (numeral v, a)
      | None \<Rightarrow> lpm R (pred_numeral v) x)"
  by (metis lpm.simps(2) numeral_eq_Suc)

lemma addr_examples:
  "addr_val 0x0000000A = 0x0A000000" "addr_val 0x0100000A = 0x0A000001"
  "addr_val 0x0200000A = 0x0A000002" "addr_val 0x0400000A = 0x0A000004" "addr_val 0 = 0"
  by (simp_all add: addr_val_def byte_order_defs clib_byte_swap_u32_def)

text \<open>C1. IPv4 FIBs with 16-8-8 tries, sharing one ply pool from start-up on: any sequence of route
  insertions and removals over any number of FIBs succeeds as long as the pool has less than 2^31
  plies, and afterwards the forwarding lookup in each FIB returns the index of the longest prefix
  that matches in that FIB (0 if none does), whatever was done to the other FIBs. A removal
  is given the index and the cover that the FIB has for the prefix; the index is that of no other
  prefix.\<close>

theorem fib16_forwarding_is_lpm:
  assumes "3 * length us + 1 < 2 ^ 31" and "tables_upds_ok N us (\<lambda>_. Map.empty)"
  shows "\<exists>P s. ip4_mtrie_module_init z = Some P \<and>
    tables_run ip4_mtrie_16_route_add ip4_mtrie_16_route_del us (\<lambda>_. Map.empty)
      (\<lambda>_. ip4_mtrie_16_init, P) = Some s \<and>
    (\<forall>i<N. \<forall>dst. ip4_fib_16_forwarding_lookup (fst s i, snd s) dst =
      snd (best (fold upd_routes (map snd (filter (\<lambda>iu. fst iu = i) us)) Map.empty) (addr_val dst)))"
proof -
  obtain P where P: "ip4_mtrie_module_init z = Some P" "ply_room (length us) P"
    using module_init_room [OF assms(1)] by blast
  with fib16.tables_run_lookup [OF tables16_init _ assms(2)] show ?thesis by simp
qed

theorem fib16_forwarding_is_lpm_witness:
  "\<exists>P s. ip4_mtrie_module_init (ply_8_init 0 0 0) = Some P \<and>
    tables_run ip4_mtrie_16_route_add ip4_mtrie_16_route_del
      [(0, Add_route 0x0000000A 8 5), (1, Add_route 0x0000000A 8 6), (0, Add_route 0x0100000A 32 7),
       (1, Del_route 0x0000000A 8)] (\<lambda>_. Map.empty) (\<lambda>_. ip4_mtrie_16_init, P) = Some s \<and>
    ip4_fib_16_forwarding_lookup (fst s 0, snd s) 0x0100000A = 7 \<and>
    ip4_fib_16_forwarding_lookup (fst s 0, snd s) 0x0200000A = 5 \<and>
    ip4_fib_16_forwarding_lookup (fst s 1, snd s) 0x0100000A = 0"
proof -
  let ?us = "[(0, Add_route 0x0000000A 8 5), (1, Add_route 0x0000000A 8 6), (0, Add_route 0x0100000A 32 7),
       (1, Del_route 0x0000000A 8)]"
  have ok: "tables_upds_ok 2 ?us (\<lambda>_. Map.empty)"
    by (simp add: upd_tables_def route_key_def own_index_def addr_examples prefix_of_def cover_def
        or_miss_def lpm_numeral)
  obtain P s where "ip4_mtrie_module_init (ply_8_init 0 0 0) = Some P"
      "tables_run ip4_mtrie_16_route_add ip4_mtrie_16_route_del ?us (\<lambda>_. Map.empty)
        (\<lambda>_. ip4_mtrie_16_init, P) = Some s"
      "\<And>i dst. i < 2 \<Longrightarrow> ip4_fib_16_forwarding_lookup (fst s i, snd s) dst =
        snd (best (fold upd_routes (map snd (filter (\<lambda>iu. fst iu = i) ?us)) Map.empty) (addr_val dst))"
    using fib16_forwarding_is_lpm [OF _ ok, of "ply_8_init 0 0 0"] by auto
  then show ?thesis
    by (intro exI [of _ P] exI [of _ s]) (simp add: addr_examples route_key_def best_def or_miss_def
        lpm_numeral prefix_of_def)
qed

text \<open>C2. The same for FIBs with 8-8-8-8 tries, whose root plies come from the shared pool as well.\<close>

theorem fib8_forwarding_is_lpm:
  assumes "3 * (N + length us) + 1 < 2 ^ 31" and "tables_upds_ok N us (\<lambda>_. Map.empty)"
  shows "\<exists>P s0 s. ip4_mtrie_module_init z = Some P \<and> create_8_tables N P = Some s0 \<and>
    tables_run ip4_mtrie_8_route_add ip4_mtrie_8_route_del us (\<lambda>_. Map.empty) s0 = Some s \<and>
    (\<forall>i<N. \<forall>dst. ip4_fib_8_forwarding_lookup (fst s i, snd s) dst =
      snd (best (fold upd_routes (map snd (filter (\<lambda>iu. fst iu = i) us)) Map.empty) (addr_val dst)))"
proof -
  obtain P where P: "ip4_mtrie_module_init z = Some P" "ply_room (N + length us) P"
    using module_init_room [OF assms(1)] by blast
  moreover obtain s0 where "create_8_tables N P = Some s0" "tables_rep mtrie8_at N s0 (\<lambda>_. Map.empty)"
      "ply_room (length us) (snd s0)" using tables8_init [OF P(2)] by blast
  ultimately show ?thesis using fib8.tables_run_lookup [OF _ _ assms(2)] by blast
qed

theorem fib8_forwarding_is_lpm_witness:
  "\<exists>P s0 s. ip4_mtrie_module_init (ply_8_init 0 0 0) = Some P \<and> create_8_tables 2 P = Some s0 \<and>
    tables_run ip4_mtrie_8_route_add ip4_mtrie_8_route_del
      [(1, Add_route 0 0 4), (0, Add_route 0x0000000A 8 5), (1, Add_route 0x0200000A 30 6)]
      (\<lambda>_. Map.empty) s0 = Some s \<and>
    ip4_fib_8_forwarding_lookup (fst s 0, snd s) 0x0100000A = 5 \<and>
    ip4_fib_8_forwarding_lookup (fst s 1, snd s) 0x0100000A = 6 \<and>
    ip4_fib_8_forwarding_lookup (fst s 1, snd s) 0x0400000A = 4"
proof -
  let ?us = "[(1, Add_route 0 0 4), (0, Add_route 0x0000000A 8 5), (1, Add_route 0x0200000A 30 6)]"
  have ok: "tables_upds_ok 2 ?us (\<lambda>_. Map.empty)" by simp
  obtain P s0 s where "ip4_mtrie_module_init (ply_8_init 0 0 0) = Some P" "create_8_tables 2 P = Some s0"
      "tables_run ip4_mtrie_8_route_add ip4_mtrie_8_route_del ?us (\<lambda>_. Map.empty) s0 = Some s"
      "\<And>i dst. i < 2 \<Longrightarrow> ip4_fib_8_forwarding_lookup (fst s i, snd s) dst =
        snd (best (fold upd_routes (map snd (filter (\<lambda>iu. fst iu = i) ?us)) Map.empty) (addr_val dst))"
    using fib8_forwarding_is_lpm [OF _ ok, of "ply_8_init 0 0 0"] by auto
  then show ?thesis
    by (intro exI [of _ P] exI [of _ s0] exI [of _ s]) (simp add: addr_examples route_key_def best_def
        or_miss_def lpm_numeral prefix_of_def)
qed

text \<open>C3. The two tries are interchangeable: after the same updates on a table of each kind, both
  return, and they forward every destination alike.\<close>

theorem fib16_fib8_equivalent:
  assumes "3 * length us + 4 < 2 ^ 31" and "upds_ok us Map.empty" and "ip4_mtrie_module_init z = Some P"
  shows "\<exists>root P' s8 s16. ip4_mtrie_8_init P = Some (root, P') \<and>
    table_run ip4_mtrie_8_route_add ip4_mtrie_8_route_del us Map.empty (root, P') = Some s8 \<and>
    table_run ip4_mtrie_16_route_add ip4_mtrie_16_route_del us Map.empty (ip4_mtrie_16_init, P) = Some s16 \<and>
    ip4_fib_8_forwarding_lookup s8 = ip4_fib_16_forwarding_lookup s16"
proof -
  have P: "ply_room (Suc (length us)) P" using module_init_room [of "Suc (length us)" z] assms(1,3) by simp
  from mtrie8_init [OF this] obtain root P' where new: "ip4_mtrie_8_init P = Some (root, P')"
      "mtrie8_at {root} (root, P') Map.empty" "evolves P {} P' {root}" "ply_room (length us) P'" by blast
  have "ply_room (length us) P" using P by (simp add: ply_room_def)
  then obtain s16 where s16: "table_run ip4_mtrie_16_route_add ip4_mtrie_16_route_del us Map.empty
        (ip4_mtrie_16_init, P) = Some s16"
      "\<forall>dst. ip4_fib_16_forwarding_lookup s16 dst = snd (best (fold upd_routes us Map.empty) (addr_val dst))"
    using fib16.run_lookup [of "(ip4_mtrie_16_init, P)", OF _ _ assms(2)] mtrie16_init by auto
  obtain s8 where s8: "table_run ip4_mtrie_8_route_add ip4_mtrie_8_route_del us Map.empty
        (root, P') = Some s8"
      "\<forall>dst. ip4_fib_8_forwarding_lookup s8 dst = snd (best (fold upd_routes us Map.empty) (addr_val dst))"
    using fib8.run_lookup [of "(root, P')", OF _ _ assms(2)] new(2-4) by (auto simp: evolves_def)
  have "ip4_fib_8_forwarding_lookup s8 = ip4_fib_16_forwarding_lookup s16"
    using s16(2) s8(2) by (simp add: fun_eq_iff)
  with new(1) s16(1) s8(1) show ?thesis by blast
qed

theorem fib16_fib8_equivalent_witness:
  "\<exists>P root P' s8 s16. ip4_mtrie_8_init P = Some (root, P') \<and>
    table_run ip4_mtrie_8_route_add ip4_mtrie_8_route_del [Add_route 10 8 5] Map.empty (root, P') = Some s8 \<and>
    table_run ip4_mtrie_16_route_add ip4_mtrie_16_route_del [Add_route 10 8 5] Map.empty
      (ip4_mtrie_16_init, P) = Some s16 \<and>
    ip4_fib_8_forwarding_lookup s8 = ip4_fib_16_forwarding_lookup s16"
proof -
  obtain P where "ip4_mtrie_module_init (ply_8_init 0 0 0) = Some P"
    using module_init_room [of 0 "ply_8_init 0 0 0"] by auto
  from fib16_fib8_equivalent [OF _ _ this, of "[Add_route 10 8 5]"] show ?thesis by simp blast
qed

text \<open>C18. Removal undoes insertion: adding a prefix that a 16-8-8 table does not have, with a non-zero index
  of its own, and removing it with its cover leaves every lookup as it was, in a table reached by any
  updates.\<close>

theorem fib16_del_undoes_add:
  assumes "3 * (length us + 2) + 1 < 2 ^ 31" and "ip4_mtrie_module_init z = Some P"
    and "R = fold upd_routes us Map.empty" and "upds_ok us Map.empty"
    and "R (route_key dst len) = None" and "adj \<noteq> 0" "adj \<notin> ran R" and "len \<le> 32" and "unat adj < 2 ^ 31"
    and "cover R len (prefix_of len (addr_val dst)) = (cover_len, cover_adj)" "unat cover_adj < 2 ^ 31"
  shows "\<exists>s s1 s2.
    table_run ip4_mtrie_16_route_add ip4_mtrie_16_route_del us Map.empty (ip4_mtrie_16_init, P) = Some s \<and>
    ip4_mtrie_16_route_add s dst len adj = Some s1 \<and>
    ip4_mtrie_16_route_del s1 dst len adj cover_len cover_adj = Some s2 \<and>
    ip4_fib_16_forwarding_lookup s2 = ip4_fib_16_forwarding_lookup s"
proof -
  let ?k = "route_key dst len"
  have i: "\<exists>F. mtrie16_at F (ip4_mtrie_16_init, P) Map.empty \<and> F \<subseteq> pool_active (snd (ip4_mtrie_16_init, P))"
    using mtrie16_init by blast
  have "ply_room (length us + 2) P" using module_init_room [OF assms(1), of z] assms(2) by simp
  then obtain s where s: "table_run ip4_mtrie_16_route_add ip4_mtrie_16_route_del us Map.empty
        (ip4_mtrie_16_init, P) = Some s" "\<exists>F. mtrie16_at F s R \<and> F \<subseteq> pool_active (snd s)"
      "ply_room 2 (snd s)"
    using fib16.run_rep_room [OF i, of us 2] assms(3,4) by fastforce
  have r: "ply_room (Suc 1) (snd s)" using s(3) by (simp add: numeral_2_eq_2)
  from fib16.add_rep [OF s(2) r assms(8,9), of dst] obtain s1 where s1: "ip4_mtrie_16_route_add s dst len adj = Some s1"
      "\<exists>F. mtrie16_at F s1 (R(?k \<mapsto> adj)) \<and> F \<subseteq> pool_active (snd s1)" "ply_room 1 (snd s1)"
    by blast
  have own: "own_index (R(?k \<mapsto> adj)) ?k adj"
    using assms(6,7) by (auto simp: own_index_def ran_def split: if_splits)
  have cov: "cover (R(?k \<mapsto> adj)) len (prefix_of len (addr_val dst)) = (cover_len, cover_adj)"
    using assms(10) by (simp add: route_key_def cover_upd)
  from fib16.del_rep [OF s1(2,3) assms(8) own assms(9) cov] assms(11)
  obtain s2 where s2: "ip4_mtrie_16_route_del s1 dst len adj cover_len cover_adj = Some s2"
      "\<exists>F. mtrie16_at F s2 (R(?k \<mapsto> adj, ?k := None)) \<and> F \<subseteq> pool_active (snd s2)"
    unfolding fst_conv snd_conv by blast
  have e: "R(?k \<mapsto> adj, ?k := None) = R" using assms(5) by auto
  have "ip4_fib_16_forwarding_lookup s2 = ip4_fib_16_forwarding_lookup s"
    using fib16.lookup_rep [OF s2(2) [unfolded e]] fib16.lookup_rep [OF s(2)] by (intro ext) simp
  with s(1) s1(1) s2(1) show ?thesis by blast
qed

theorem fib16_del_undoes_add_witness:
  "\<exists>P s s1 s2. table_run ip4_mtrie_16_route_add ip4_mtrie_16_route_del [Add_route 10 8 5] Map.empty
      (ip4_mtrie_16_init, P) = Some s \<and>
    ip4_mtrie_16_route_add s 0x0200000A 31 7 = Some s1 \<and>
    ip4_mtrie_16_route_del s1 0x0200000A 31 7 8 5 = Some s2 \<and>
    ip4_fib_16_forwarding_lookup s2 = ip4_fib_16_forwarding_lookup s"
proof -
  obtain P where P: "ip4_mtrie_module_init (ply_8_init 0 0 0) = Some P"
    using module_init_room [of 0 "ply_8_init 0 0 0"] by auto
  let ?R = "fold upd_routes [Add_route 10 8 5] Map.empty"
  have R: "?R = [(8, 10) \<mapsto> 5]" using addr_examples by (simp add: route_key_def prefix_of_def)
  have c: "cover ?R 31 (prefix_of 31 (addr_val 0x0200000A)) = (8, 5)"
    unfolding R by (simp add: cover_def addr_examples prefix_of_def or_miss_def lpm_numeral)
  have "?R (route_key 0x0200000A 31) = None" unfolding R by (simp add: route_key_def)
  moreover have "7 \<notin> ran ?R" unfolding R by simp
  moreover have "upds_ok [Add_route 10 8 5] Map.empty" by simp
  ultimately show ?thesis
    using fib16_del_undoes_add [of "[Add_route 10 8 5]", OF _ P refl _ _ _ _ _ _ c, of 7] by simp blast
qed

text \<open>The lookups of two and four packets at a time give each packet the result of the single
  lookup in its own FIB.\<close>

theorem forwarding_lookup_batches:
  "ip4_fib_16_forwarding_lookup_x2 ((m0, m1), P) (a0, a1) =
     (ip4_fib_16_forwarding_lookup (m0, P) a0, ip4_fib_16_forwarding_lookup (m1, P) a1) \<and>
   ip4_fib_16_forwarding_lookup_x4 m P a =
     map (\<lambda>j. ip4_fib_16_forwarding_lookup (m j, P) (a j)) [0..<4] \<and>
   ip4_fib_8_forwarding_lookup_x2 ((r0, r1), P) (a0, a1) =
     (ip4_fib_8_forwarding_lookup (r0, P) a0, ip4_fib_8_forwarding_lookup (r1, P) a1) \<and>
   ip4_fib_8_forwarding_lookup_x4 r P a =
     map (\<lambda>j. ip4_fib_8_forwarding_lookup (r j, P) (a j)) [0..<4]"
  unfolding ip4_fib_16_forwarding_lookup_x2_def ip4_fib_16_forwarding_lookup_x4_def
    ip4_fib_8_forwarding_lookup_x2_def ip4_fib_8_forwarding_lookup_x4_def
    ip4_fib_16_forwarding_lookup_def ip4_fib_8_forwarding_lookup_def
  by simp

text \<open>A trie keeps a ply only for routes that need it.\<close>

lemma short_routes_leaf:
  assumes R: "\<And>k. R k \<noteq> None \<Longrightarrow> fst k \<le> 8 * k0"
    and "represents R k v t" "v < 256 ^ k" "wfn t k" "k0 \<le> k" "k \<le> 4"
  shows "\<exists>n a. t = Lf n a \<and> n \<le> 8 * k0"
  using assms(2-)
proof (induction t arbitrary: k v)
  case (Lf n a)
  let ?x = "v * 2 ^ (32 - 8 * k)"
  have "v < 2 ^ (8 * k)" using Lf.prems(2) by (simp add: power_mult)
  then have "v * 2 ^ (32 - 8 * k) < 2 ^ (8 * k) * 2 ^ (32 - 8 * k)" by simp
  also have "\<dots> = 2 ^ 32" using Lf.prems(5) by (simp flip: power_add)
  finally have "(n, a) = best R ?x"
    using representsD [OF Lf.prems(1), of ?x] by (simp add: prefix_of_def)
  then show ?case using R
    by (fastforce simp: best_def or_miss_def lpm_Some_iff split: option.splits)
next
  case (Nd f)
  have k: "k < 4" using Nd.prems(3) by simp
  have "empty_at k (f i)" if i: "i < 256" for i
  proof -
    have "represents R (Suc k) (v * 256 + i) (f i)" using Nd.prems(1) i k by (simp add: represents_Nd)
    moreover have "v * 256 + i < 256 ^ Suc k" using Nd.prems(2) i by simp
    ultimately obtain n a where "f i = Lf n a" "n \<le> 8 * k0"
      using Nd.IH [of "f i" "Suc k" "v * 256 + i"] Nd.prems(3,4) i k by auto
    then show ?thesis using Nd.prems(4) by simp
  qed
  then show ?case using Nd.prems(3) by (simp add: all_empty_def)
qed

lemma mtrie16_short:
  assumes at: "mtrie16_at F (m, P) R" and R: "\<And>k. R k \<noteq> None \<Longrightarrow> fst k \<le> 16"
  shows "F = {}" "ip4_mtrie_16_free m = Some ()"
proof -
  obtain f where f: "root_rep F (m, P) f" "\<forall>s<65536. wfn (f s) 2 \<and> represents R 2 s (f s)"
    using at by (auto simp: mtrie16_at_def)
  have leaf: "\<exists>n a. f s = Lf n a" if "s < 65536" for s
    using short_routes_leaf [of R 2 2 s "f s"] R f(2) that by auto
  have slot: "root_fp P m f s = {} \<and> ip4_mtrie_leaf_is_terminal (root_leaf m s)" if "s < 65536" for s
  proof -
    have "rep_node (f s) (H P) 2 (root_leaf m s) (root_bits m (nslot s))"
      using f(1) that by (simp add: root_rep_def)
    with leaf [OF that] show ?thesis by auto
  qed
  then show "F = {}" using f(1) by (simp add: root_rep_def)
  have "ip4_mtrie_leaf_is_terminal (root_leaves m i)" if "i < 65536" for i
  proof -
    let ?s = "unat (clib_byte_swap_u16 (of_nat i))"
    have "nslot ?s = i" using that by (simp add: nslot_def byte_order_defs unat_of_nat)
    moreover have "?s < 65536" using unsigned_less [of "clib_byte_swap_u16 (of_nat i)", where 'a = nat] by simp
    ultimately show ?thesis using slot [of ?s] by simp
  qed
  then show "ip4_mtrie_16_free m = Some ()"
    by (simp add: ip4_mtrie_16_free_def list_all_iff ip4_mtrie_leaf_is_next_ply_def
        ip4_mtrie_leaf_is_terminal_def)
qed

lemma mtrie8_short:
  assumes at: "mtrie8_at F (root, P) R" and R: "\<And>k. R k \<noteq> None \<Longrightarrow> fst k \<le> 8"
  shows "F = {root}" "ip4_mtrie_8_free root P = Some (pool_put_index P root)"
proof -
  obtain f where f: "ply_rep (H P) root 0 f" "F = ply_fp (H P) root f" "\<forall>i<256. wfn (f i) (Suc 0)"
      "represents R 0 0 (Nd f)"
    using at by (rule mtrie8_atE)
  have slot: "slot_fp (H P) root f i = {} \<and> ip4_mtrie_leaf_is_terminal (leaves (H P root) i)" if "i < 256" for i
  proof -
    have "represents R (Suc 0) i (f i)" using f(4) that by (simp add: represents_Nd)
    then have "\<exists>n a. f i = Lf n a \<and> n \<le> 8 * 1"
      using R f(3) that by (intro short_routes_leaf [of R 1 "Suc 0" i "f i"]) auto
    then obtain n a where "f i = Lf n a" by auto
    moreover have "rep_node (f i) (H P) (Suc 0) (leaves (H P root) i) (bits (H P root) i)"
      using f(1) that by (simp add: ply_rep_def)
    ultimately show ?thesis by (simp add: slot_fp_def)
  qed
  then show "F = {root}" using f(2) by (simp add: ply_fp_def)
  from slot show "ip4_mtrie_8_free root P = Some (pool_put_index P root)"
    by (simp add: ip4_mtrie_8_free_def list_all_iff ip4_mtrie_leaf_is_next_ply_def
        ip4_mtrie_leaf_is_terminal_def)
qed

lemma mtrie16_run_short:
  assumes room: "ply_room (length us) P" and us: "upds_ok us Map.empty" and R: "R = fold upd_routes us Map.empty"
    and short: "\<forall>k. R k \<noteq> None \<longrightarrow> fst k \<le> 16"
  shows "\<exists>m P'. table_run ip4_mtrie_16_route_add ip4_mtrie_16_route_del us Map.empty (ip4_mtrie_16_init, P) =
    Some (m, P') \<and> ip4_mtrie_16_free m = Some () \<and> pool_active P' = pool_active P"
proof -
  obtain m P' F where r: "table_run ip4_mtrie_16_route_add ip4_mtrie_16_route_del us Map.empty
        (ip4_mtrie_16_init, P) = Some (m, P')" "mtrie16_at F (m, P') R" "evolves P {} P' F"
    using fib16.at_run [OF mtrie16_init _ room us] R by auto
  have "F = {}" "ip4_mtrie_16_free m = Some ()" using mtrie16_short [OF r(2)] short by auto
  with r show ?thesis by (auto simp: evolves_def)
qed

lemma mtrie8_run_short:
  assumes room: "ply_room (Suc (length us)) P" and us: "upds_ok us Map.empty"
    and R: "R = fold upd_routes us Map.empty" and short: "\<forall>k. R k \<noteq> None \<longrightarrow> fst k \<le> 8"
  shows "\<exists>s root P' P''. ip4_mtrie_8_init P = Some s \<and>
    table_run ip4_mtrie_8_route_add ip4_mtrie_8_route_del us Map.empty s = Some (root, P') \<and>
    ip4_mtrie_8_free root P' = Some P'' \<and> pool_active P'' = pool_active P"
proof -
  obtain root P1 where new: "ip4_mtrie_8_init P = Some (root, P1)"
      "mtrie8_at {root} (root, P1) Map.empty" "evolves P {} P1 {root}" "ply_room (length us) P1"
    using mtrie8_init [OF room] by blast
  have "{root} \<subseteq> pool_active P1" using new(3) by (simp add: evolves_def)
  from fib8.at_run [OF new(2) this new(4) us] R obtain root' P' F where
    r: "table_run ip4_mtrie_8_route_add ip4_mtrie_8_route_del us Map.empty (root, P1) = Some (root', P')"
      "mtrie8_at F (root', P') R" "evolves P1 {root} P' F" by auto
  have F: "F = {root'}" "ip4_mtrie_8_free root' P' = Some (pool_put_index P' root')"
    using mtrie8_short [OF r(2)] short by auto
  have P': "pool_wf P'" "root' \<in> pool_active P'" "pool_active P' - {root'} = pool_active P"
    using evolves_trans [OF new(3) r(3)] F(1) by (auto simp: evolves_def)
  with new(1) r(1) F(2) pool_put_wf(2) [OF P'(1,2)] show ?thesis by blast
qed

text \<open>C19. No ply leaks. When all routes left in a FIB are no longer than the stride of its root, its
  trie holds no ply but the root: the releases of both tries find what they assert, the 16-8-8 trie
  has returned every ply it took from the pool, and releasing the 8-8-8-8 trie returns the root.\<close>

theorem mtrie_no_ply_leak:
  assumes "3 * (length us + 1) + 1 < 2 ^ 31" and "ip4_mtrie_module_init z = Some P"
    and "upds_ok us Map.empty" and "R = fold upd_routes us Map.empty"
  shows "((\<forall>k. R k \<noteq> None \<longrightarrow> fst k \<le> 16) \<longrightarrow>
      (\<exists>m P'. table_run ip4_mtrie_16_route_add ip4_mtrie_16_route_del us Map.empty (ip4_mtrie_16_init, P) =
        Some (m, P') \<and> ip4_mtrie_16_free m = Some () \<and> pool_active P' = pool_active P)) \<and>
    ((\<forall>k. R k \<noteq> None \<longrightarrow> fst k \<le> 8) \<longrightarrow>
      (\<exists>s root P' P''. ip4_mtrie_8_init P = Some s \<and>
        table_run ip4_mtrie_8_route_add ip4_mtrie_8_route_del us Map.empty s = Some (root, P') \<and>
        ip4_mtrie_8_free root P' = Some P'' \<and> pool_active P'' = pool_active P))"
proof -
  have "ply_room (Suc (length us)) P" using module_init_room [OF assms(1), of z] assms(2) by simp
  moreover from this have "ply_room (length us) P" by (simp add: ply_room_def)
  ultimately show ?thesis
    using mtrie16_run_short [OF _ assms(3,4)] mtrie8_run_short [OF _ assms(3,4)] by simp
qed

theorem mtrie_no_ply_leak_witness:
  "\<exists>P m P'. ip4_mtrie_module_init (ply_8_init 0 0 0) = Some P \<and>
    table_run ip4_mtrie_16_route_add ip4_mtrie_16_route_del
      [Add_route 10 8 5, Add_route 0x0100000A 32 7, Del_route 0x0100000A 32] Map.empty (ip4_mtrie_16_init, P) =
      Some (m, P') \<and> ip4_mtrie_16_free m = Some () \<and> pool_active P' = pool_active P"
proof -
  let ?us = "[Add_route 10 8 5, Add_route 0x0100000A 32 7, Del_route 0x0100000A 32]"
  obtain P where P: "ip4_mtrie_module_init (ply_8_init 0 0 0) = Some P"
    using module_init_room [of 0 "ply_8_init 0 0 0"] by auto
  have us: "upds_ok ?us Map.empty"
    using addr_examples by (simp add: route_key_def own_index_def prefix_of_def cover_def or_miss_def lpm_numeral)
  have "fold upd_routes ?us Map.empty = [(8, 10) \<mapsto> 5]"
    using addr_examples by (simp add: route_key_def prefix_of_def fun_eq_iff)
  then have "\<forall>k. fold upd_routes ?us Map.empty k \<noteq> None \<longrightarrow> fst k \<le> 16" by (simp only:) simp
  with mtrie_no_ply_leak [OF _ P us refl] have "\<exists>m P'. table_run ip4_mtrie_16_route_add ip4_mtrie_16_route_del
      ?us Map.empty (ip4_mtrie_16_init, P) = Some (m, P') \<and> ip4_mtrie_16_free m = Some () \<and>
      pool_active P' = pool_active P" by (simp del: fold.simps table_run.simps)
  with P show ?thesis by blast
qed

end
