(* ===== verification/Fib_Hash.thy ===== *)
theory Fib_Hash
  imports Fwd_Tables
begin

text \<open>
  The control-plane side of an IPv4 FIB, \<^verbatim>\<open>vnet/fib/ip4_fib_hash.c\<close>: one hash table per prefix length
  from masked address to FIB entry, and the two kinds of FIB (\<^verbatim>\<open>ip4_fib_16.c\<close>, \<^verbatim>\<open>ip4_fib_8.c\<close>) that pair
  it with a forwarding trie. A hash table is a finite map (a table that was never created is the empty
  map); the order in which \<^verbatim>\<open>hash_foreach_pair\<close> visits a table is the argument \<open>pairs\<close>. FIB
  entries are given by \<open>fib_entry_get\<close>, with the fields that the tables read. It is shown
  that the hash tables hold a set of routes with longest-prefix lookup, what walks visit, and
  that the data plane forwards as the control plane resolves.
\<close>

unbundle bit_operations_syntax

subsection \<open>The hash tables\<close>

type_synonym fib_node_index = nat

record ip4_fib_hash =
  fib_entry_by_dst_address :: "nat \<Rightarrow> u32 \<rightharpoonup> fib_node_index"
  table_id :: u32

record fib_entry =
  fe_prefix :: "ip4_address \<times> nat"
  fe_lb :: u32

type_synonym fib_entries = "fib_node_index \<Rightarrow> fib_entry"

definition ip4_fib_hash_table_lookup_exact_match ::
  "ip4_fib_hash \<Rightarrow> ip4_address \<Rightarrow> nat \<Rightarrow> fib_node_index option" where
  "ip4_fib_hash_table_lookup_exact_match fib addr len =
     (let hash = fib_entry_by_dst_address fib len; key = addr AND fib_masks len in hash key)"

primrec ip4_fib_hash_table_lookup ::
  "ip4_fib_hash \<Rightarrow> ip4_address \<Rightarrow> nat \<Rightarrow> fib_node_index option" where
  "ip4_fib_hash_table_lookup fib addr 0 = fib_entry_by_dst_address fib 0 (addr AND fib_masks 0)"
| "ip4_fib_hash_table_lookup fib addr (Suc mask_len) =
     (case fib_entry_by_dst_address fib (Suc mask_len) (addr AND fib_masks (Suc mask_len)) of
        Some result \<Rightarrow> Some result
      | None \<Rightarrow> ip4_fib_hash_table_lookup fib addr mask_len)"

definition ip4_fib_hash_table_lookup_lb :: "fib_entries \<Rightarrow> ip4_fib_hash \<Rightarrow> ip4_address \<Rightarrow> u32 option" where
  "ip4_fib_hash_table_lookup_lb E fib addr =
     (case ip4_fib_hash_table_lookup fib addr 32 of
        Some fei \<Rightarrow> Some (fe_lb (E fei)) | None \<Rightarrow> None)"

definition ip4_fib_hash_table_entry_insert ::
  "ip4_fib_hash \<Rightarrow> ip4_address \<Rightarrow> nat \<Rightarrow> fib_node_index \<Rightarrow> ip4_fib_hash option" where
  "ip4_fib_hash_table_entry_insert fib addr len fib_entry_index =
     (let key = addr AND fib_masks len; hash = fib_entry_by_dst_address fib len in
      case hash key of
        None \<Rightarrow> Some (fib\<lparr>fib_entry_by_dst_address :=
                  (fib_entry_by_dst_address fib)(len := hash(key \<mapsto> fib_entry_index))\<rparr>)
      | Some result \<Rightarrow> None)"

definition ip4_fib_hash_table_entry_remove :: "ip4_fib_hash \<Rightarrow> ip4_address \<Rightarrow> nat \<Rightarrow> ip4_fib_hash" where
  "ip4_fib_hash_table_entry_remove fib addr len =
     (let key = addr AND fib_masks len; hash = fib_entry_by_dst_address fib len;
          hash = (case hash key of None \<Rightarrow> hash | Some result \<Rightarrow> hash(key := None))
      in fib\<lparr>fib_entry_by_dst_address := (fib_entry_by_dst_address fib)(len := hash)\<rparr>)"

datatype fib_table_walk_rc =
  FIB_TABLE_WALK_CONTINUE | FIB_TABLE_WALK_SUB_TREE_STOP | FIB_TABLE_WALK_STOP

type_synonym 'c walk_fn = "fib_node_index \<Rightarrow> 'c \<Rightarrow> fib_table_walk_rc \<times> 'c"

text \<open>The state of a walk: whether it was stopped, the sub-trees to skip, and the context of the
  callback.\<close>

type_synonym 'c walk = "bool \<times> (ip4_address \<times> nat) list \<times> 'c"

fun walk_pairs ::
  "ip4_address \<times> nat \<Rightarrow> 'c walk_fn \<Rightarrow> nat \<Rightarrow> (u32 \<times> fib_node_index) list \<Rightarrow> 'c walk \<Rightarrow> 'c walk" where
  "walk_pairs root fn i ps (True, sub_trees, ctx) = (True, sub_trees, ctx)"
| "walk_pairs root fn i [] s = s"
| "walk_pairs root fn i ((key, fei) # ps) (False, sub_trees, ctx) =
     walk_pairs root fn i ps
       (if ip4_destination_matches_route key (fst root) (snd root) \<and>
           \<not> list_ex (\<lambda>st. ip4_destination_matches_route key (fst st) (snd st)) sub_trees
        then case fn fei ctx of
               (FIB_TABLE_WALK_CONTINUE, ctx) \<Rightarrow> (False, sub_trees, ctx)
             | (FIB_TABLE_WALK_SUB_TREE_STOP, ctx) \<Rightarrow> (False, sub_trees @ [(key, i)], ctx)
             | (FIB_TABLE_WALK_STOP, ctx) \<Rightarrow> (True, sub_trees, ctx)
        else (False, sub_trees, ctx))"

definition ip4_fib_hash_table_sub_tree_walk ::
  "((u32 \<rightharpoonup> fib_node_index) \<Rightarrow> (u32 \<times> fib_node_index) list) \<Rightarrow> ip4_fib_hash \<Rightarrow> ip4_address \<times> nat \<Rightarrow>
   'c walk_fn \<Rightarrow> 'c \<Rightarrow> 'c" where
  "ip4_fib_hash_table_sub_tree_walk pairs fib root fn ctx =
     snd (snd (fold (\<lambda>i. walk_pairs root fn i (pairs (fib_entry_by_dst_address fib i)))
       [snd root..<33] (False, [], ctx)))"

definition ip4_fib_hash_table_walk ::
  "((u32 \<rightharpoonup> fib_node_index) \<Rightarrow> (u32 \<times> fib_node_index) list) \<Rightarrow> ip4_fib_hash \<Rightarrow> 'c walk_fn \<Rightarrow> 'c \<Rightarrow> 'c" where
  "ip4_fib_hash_table_walk pairs fib fn ctx = ip4_fib_hash_table_sub_tree_walk pairs fib (0, 0) fn ctx"

subsection \<open>The two kinds of FIB\<close>

record ip4_fib_16 =
  mtrie_16 :: ip4_mtrie_16
  hash_16 :: ip4_fib_hash

record ip4_fib_8 =
  mtrie_8 :: nat
  hash_8 :: ip4_fib_hash

definition ip4_fib_16_table_init :: "ip4_fib_16 \<Rightarrow> ip4_fib_16" where
  "ip4_fib_16_table_init fib = fib\<lparr>mtrie_16 := ip4_mtrie_16_init\<rparr>"

definition ip4_fib_8_table_init :: "ip4_fib_8 \<times> ply_pool \<Rightarrow> (ip4_fib_8 \<times> ply_pool) option" where
  "ip4_fib_8_table_init s =
     do { (root, P) \<leftarrow> ip4_mtrie_8_init (snd s); Some ((fst s)\<lparr>mtrie_8 := root\<rparr>, P) }"

definition ip4_fib_16_table_free :: "ip4_fib_16 \<Rightarrow> unit option" where
  "ip4_fib_16_table_free fib = ip4_mtrie_16_free (mtrie_16 fib)"

definition ip4_fib_8_table_free :: "ip4_fib_8 \<times> ply_pool \<Rightarrow> (ip4_fib_8 \<times> ply_pool) option" where
  "ip4_fib_8_table_free s = map_option (Pair (fst s)) (ip4_mtrie_8_free (mtrie_8 (fst s)) (snd s))"

definition ip4_fib_16_table_lookup_exact_match :: "ip4_fib_16 \<Rightarrow> ip4_address \<Rightarrow> nat \<Rightarrow> fib_node_index option" where
  "ip4_fib_16_table_lookup_exact_match fib addr len = ip4_fib_hash_table_lookup_exact_match (hash_16 fib) addr len"

definition ip4_fib_16_table_lookup_lb :: "fib_entries \<Rightarrow> ip4_fib_16 \<Rightarrow> ip4_address \<Rightarrow> u32 option" where
  "ip4_fib_16_table_lookup_lb E fib addr = ip4_fib_hash_table_lookup_lb E (hash_16 fib) addr"

definition ip4_fib_16_table_lookup :: "ip4_fib_16 \<Rightarrow> ip4_address \<Rightarrow> nat \<Rightarrow> fib_node_index option" where
  "ip4_fib_16_table_lookup fib addr len = ip4_fib_hash_table_lookup (hash_16 fib) addr len"

definition ip4_fib_8_table_lookup_exact_match :: "ip4_fib_8 \<Rightarrow> ip4_address \<Rightarrow> nat \<Rightarrow> fib_node_index option" where
  "ip4_fib_8_table_lookup_exact_match fib addr len = ip4_fib_hash_table_lookup_exact_match (hash_8 fib) addr len"

definition ip4_fib_8_table_lookup_lb :: "fib_entries \<Rightarrow> ip4_fib_8 \<Rightarrow> ip4_address \<Rightarrow> u32 option" where
  "ip4_fib_8_table_lookup_lb E fib addr = ip4_fib_hash_table_lookup_lb E (hash_8 fib) addr"

definition ip4_fib_8_table_lookup :: "ip4_fib_8 \<Rightarrow> ip4_address \<Rightarrow> nat \<Rightarrow> fib_node_index option" where
  "ip4_fib_8_table_lookup fib addr len = ip4_fib_hash_table_lookup (hash_8 fib) addr len"

definition ip4_fib_16_table_entry_insert ::
  "ip4_fib_16 \<times> ply_pool \<Rightarrow> ip4_address \<Rightarrow> nat \<Rightarrow> fib_node_index \<Rightarrow> (ip4_fib_16 \<times> ply_pool) option" where
  "ip4_fib_16_table_entry_insert s addr len fib_entry_index =
     do { h \<leftarrow> ip4_fib_hash_table_entry_insert (hash_16 (fst s)) addr len fib_entry_index;
          Some ((fst s)\<lparr>hash_16 := h\<rparr>, snd s) }"

definition ip4_fib_8_table_entry_insert ::
  "ip4_fib_8 \<times> ply_pool \<Rightarrow> ip4_address \<Rightarrow> nat \<Rightarrow> fib_node_index \<Rightarrow> (ip4_fib_8 \<times> ply_pool) option" where
  "ip4_fib_8_table_entry_insert s addr len fib_entry_index =
     do { h \<leftarrow> ip4_fib_hash_table_entry_insert (hash_8 (fst s)) addr len fib_entry_index;
          Some ((fst s)\<lparr>hash_8 := h\<rparr>, snd s) }"

definition ip4_fib_16_table_entry_remove ::
  "ip4_fib_16 \<times> ply_pool \<Rightarrow> ip4_address \<Rightarrow> nat \<Rightarrow> ip4_fib_16 \<times> ply_pool" where
  "ip4_fib_16_table_entry_remove s addr len =
     ((fst s)\<lparr>hash_16 := ip4_fib_hash_table_entry_remove (hash_16 (fst s)) addr len\<rparr>, snd s)"

definition ip4_fib_8_table_entry_remove ::
  "ip4_fib_8 \<times> ply_pool \<Rightarrow> ip4_address \<Rightarrow> nat \<Rightarrow> ip4_fib_8 \<times> ply_pool" where
  "ip4_fib_8_table_entry_remove s addr len =
     ((fst s)\<lparr>hash_8 := ip4_fib_hash_table_entry_remove (hash_8 (fst s)) addr len\<rparr>, snd s)"

definition ip4_fib_16_table_fwding_dpo_update ::
  "ip4_fib_16 \<times> ply_pool \<Rightarrow> ip4_address \<Rightarrow> nat \<Rightarrow> u32 \<Rightarrow> (ip4_fib_16 \<times> ply_pool) option" where
  "ip4_fib_16_table_fwding_dpo_update s addr len dpoi_index =
     do { (m, P) \<leftarrow> ip4_mtrie_16_route_add (mtrie_16 (fst s), snd s) addr len dpoi_index;
          Some ((fst s)\<lparr>mtrie_16 := m\<rparr>, P) }"

definition ip4_fib_8_table_fwding_dpo_update ::
  "ip4_fib_8 \<times> ply_pool \<Rightarrow> ip4_address \<Rightarrow> nat \<Rightarrow> u32 \<Rightarrow> (ip4_fib_8 \<times> ply_pool) option" where
  "ip4_fib_8_table_fwding_dpo_update s addr len dpoi_index =
     do { (m, P) \<leftarrow> ip4_mtrie_8_route_add (mtrie_8 (fst s), snd s) addr len dpoi_index;
          Some ((fst s)\<lparr>mtrie_8 := m\<rparr>, P) }"

definition ip4_fib_16_table_fwding_dpo_remove ::
  "fib_entries \<Rightarrow> ip4_fib_16 \<times> ply_pool \<Rightarrow> ip4_address \<Rightarrow> nat \<Rightarrow> u32 \<Rightarrow> fib_node_index \<Rightarrow>
   (ip4_fib_16 \<times> ply_pool) option" where
  "ip4_fib_16_table_fwding_dpo_remove E s addr len dpoi_index cover_index =
     do { let cover_prefix = fe_prefix (E cover_index);
          let cover_dpo = fe_lb (E cover_index);
          (m, P) \<leftarrow> ip4_mtrie_16_route_del (mtrie_16 (fst s), snd s) addr len dpoi_index
                      (snd cover_prefix) cover_dpo;
          Some ((fst s)\<lparr>mtrie_16 := m\<rparr>, P) }"

definition ip4_fib_8_table_fwding_dpo_remove ::
  "fib_entries \<Rightarrow> ip4_fib_8 \<times> ply_pool \<Rightarrow> ip4_address \<Rightarrow> nat \<Rightarrow> u32 \<Rightarrow> fib_node_index \<Rightarrow>
   (ip4_fib_8 \<times> ply_pool) option" where
  "ip4_fib_8_table_fwding_dpo_remove E s addr len dpoi_index cover_index =
     do { let cover_prefix = fe_prefix (E cover_index);
          let cover_dpo = fe_lb (E cover_index);
          (m, P) \<leftarrow> ip4_mtrie_8_route_del (mtrie_8 (fst s), snd s) addr len dpoi_index
                      (snd cover_prefix) cover_dpo;
          Some ((fst s)\<lparr>mtrie_8 := m\<rparr>, P) }"

text \<open>The IPv4 branches of \<^verbatim>\<open>fib_table.c\<close>: the cover of a prefix is the longest match with one bit less,
  and a prefix is withdrawn from the forwarding trie in favour of its cover.\<close>

definition fib_table_get_less_specific :: "ip4_fib_hash \<Rightarrow> ip4_address \<times> nat \<Rightarrow> fib_node_index option" where
  "fib_table_get_less_specific fib prefix =
     (let (addr, len) = prefix; len = (if len \<noteq> 0 then len - 1 else len)
      in ip4_fib_hash_table_lookup fib addr len)"

definition fib_16_table_fwding_dpo_remove ::
  "fib_entries \<Rightarrow> ip4_fib_16 \<times> ply_pool \<Rightarrow> ip4_address \<times> nat \<Rightarrow> u32 \<Rightarrow> (ip4_fib_16 \<times> ply_pool) option" where
  "fib_16_table_fwding_dpo_remove E s prefix dpoi_index =
     do { cover \<leftarrow> fib_table_get_less_specific (hash_16 (fst s)) prefix;
          ip4_fib_16_table_fwding_dpo_remove E s (fst prefix) (snd prefix) dpoi_index cover }"

definition fib_8_table_fwding_dpo_remove ::
  "fib_entries \<Rightarrow> ip4_fib_8 \<times> ply_pool \<Rightarrow> ip4_address \<times> nat \<Rightarrow> u32 \<Rightarrow> (ip4_fib_8 \<times> ply_pool) option" where
  "fib_8_table_fwding_dpo_remove E s prefix dpoi_index =
     do { cover \<leftarrow> fib_table_get_less_specific (hash_8 (fst s)) prefix;
          ip4_fib_8_table_fwding_dpo_remove E s (fst prefix) (snd prefix) dpoi_index cover }"

subsection \<open>The routes in the hash tables\<close>

definition key_of :: "nat \<Rightarrow> nat \<Rightarrow> u32" where
  "key_of n p = clib_host_to_net_u32 (of_nat (p * 2 ^ (32 - n)))"

definition fib_routes :: "ip4_fib_hash \<Rightarrow> fib_node_index routes" where
  "fib_routes fib k =
     (if fst k \<le> 32 \<and> snd k < 2 ^ fst k then fib_entry_by_dst_address fib (fst k) (key_of (fst k) (snd k))
      else None)"

lemma prefix_of_less: "x < 2 ^ 32 \<Longrightarrow> n \<le> 32 \<Longrightarrow> prefix_of n x < 2 ^ n"
  unfolding prefix_of_def by (rule less_mult_imp_div_less) (simp flip: power_add)

lemma prefix_addr_less [simp]: "n \<le> 32 \<Longrightarrow> prefix_of n (addr_val a) < 2 ^ n"
  using addr_val_less by (rule prefix_of_less)

lemma key_val:
  assumes "n \<le> 32" "p < 2 ^ n"
  shows "addr_val (key_of n p) = p * 2 ^ (32 - n)"
proof -
  have "p * 2 ^ (32 - n) < 2 ^ n * 2 ^ (32 - n)" using assms(2) by simp
  also have "\<dots> = 2 ^ 32" using assms(1) by (simp flip: power_add)
  finally show ?thesis unfolding key_of_def by (rule addr_val_of_nat)
qed

lemma mask_key:
  assumes "n \<le> 32"
  shows "addr AND fib_masks n = key_of n (prefix_of n (addr_val addr))"
proof -
  have "addr_val (addr AND fib_masks n) = addr_val (key_of n (prefix_of n (addr_val addr)))"
    using assms by (simp only: addr_val_mask key_val prefix_addr_less) (simp add: prefix_of_def)
  then show ?thesis by (simp add: addr_val_inj)
qed

lemma key_of_inj: "n \<le> 32 \<Longrightarrow> p < 2 ^ n \<Longrightarrow> q < 2 ^ n \<Longrightarrow> key_of n p = key_of n q \<longleftrightarrow> p = q"
proof
  assume n: "n \<le> 32" "p < 2 ^ n" "q < 2 ^ n" and "key_of n p = key_of n q"
  then have "p * 2 ^ (32 - n) = q * 2 ^ (32 - n)" by (metis key_val)
  then show "p = q" by simp
qed simp

lemma lookup_exact_routes:
  "len \<le> 32 \<Longrightarrow> ip4_fib_hash_table_lookup_exact_match fib addr len = fib_routes fib (route_key addr len)"
  by (simp add: ip4_fib_hash_table_lookup_exact_match_def Let_def mask_key fib_routes_def route_key_def)

lemma lookup_routes:
  "len \<le> 32 \<Longrightarrow> ip4_fib_hash_table_lookup fib addr len = map_option snd (lpm (fib_routes fib) len (addr_val addr))"
proof (induction len)
  case 0
  have "addr AND fib_masks 0 = key_of 0 (prefix_of 0 (addr_val addr))" by (rule mask_key) simp
  moreover have "prefix_of 0 (addr_val addr) < 1" using prefix_addr_less [of 0 addr] by simp
  ultimately show ?case by (simp add: fib_routes_def option.map_comp comp_def option.map_ident)
next
  case (Suc n)
  have "addr AND fib_masks (Suc n) = key_of (Suc n) (prefix_of (Suc n) (addr_val addr))"
    by (rule mask_key) (rule Suc.prems)
  moreover have "fib_routes fib (Suc n, prefix_of (Suc n) (addr_val addr)) =
      fib_entry_by_dst_address fib (Suc n) (key_of (Suc n) (prefix_of (Suc n) (addr_val addr)))"
    using Suc.prems prefix_addr_less [of "Suc n" addr] by (simp add: fib_routes_def)
  ultimately show ?case using Suc by (simp split: option.split)
qed

lemma fib_routes_upd:
  assumes "len \<le> 32"
  shows "fib_routes (fib\<lparr>fib_entry_by_dst_address := (fib_entry_by_dst_address fib)
      (len := (fib_entry_by_dst_address fib len)(addr AND fib_masks len := x))\<rparr>) =
    (fib_routes fib)(route_key addr len := x)"
proof
  fix k :: "nat \<times> nat"
  obtain n p where k: "k = (n, p)" by (cases k)
  have "key_of len p = key_of len (prefix_of len (addr_val addr)) \<longleftrightarrow> p = prefix_of len (addr_val addr)"
    if "p < 2 ^ len" using key_of_inj [OF assms that prefix_addr_less [OF assms]] .
  then show "fib_routes (fib\<lparr>fib_entry_by_dst_address := (fib_entry_by_dst_address fib)
      (len := (fib_entry_by_dst_address fib len)(addr AND fib_masks len := x))\<rparr>) k =
    ((fib_routes fib)(route_key addr len := x)) k"
    using assms prefix_addr_less [OF assms, of addr]
    by (auto simp: fib_routes_def k route_key_def mask_key)
qed

lemma insert_routes:
  assumes "len \<le> 32" "fib_routes fib (route_key addr len) = None"
  obtains fib' where "ip4_fib_hash_table_entry_insert fib addr len fei = Some fib'"
    "fib_routes fib' = (fib_routes fib)(route_key addr len \<mapsto> fei)"
proof (rule that)
  have "fib_entry_by_dst_address fib len (addr AND fib_masks len) = None"
    using assms lookup_exact_routes [OF assms(1), of fib addr]
    by (simp add: ip4_fib_hash_table_lookup_exact_match_def Let_def)
  then show "ip4_fib_hash_table_entry_insert fib addr len fei = Some (fib\<lparr>fib_entry_by_dst_address :=
      (fib_entry_by_dst_address fib)(len := (fib_entry_by_dst_address fib len)(addr AND fib_masks len \<mapsto> fei))\<rparr>)"
    by (simp add: ip4_fib_hash_table_entry_insert_def Let_def)
qed (rule fib_routes_upd [OF assms(1)])

lemma remove_routes:
  assumes "len \<le> 32"
  shows "fib_routes (ip4_fib_hash_table_entry_remove fib addr len) = (fib_routes fib)(route_key addr len := None)"
proof (cases "fib_entry_by_dst_address fib len (addr AND fib_masks len)")
  case None
  then have "(fib_entry_by_dst_address fib len)(addr AND fib_masks len := None) = fib_entry_by_dst_address fib len"
    by auto
  with None fib_routes_upd [OF assms, of fib addr None] show ?thesis
    by (simp add: ip4_fib_hash_table_entry_remove_def Let_def)
next
  case (Some f)
  with fib_routes_upd [OF assms, of fib addr None] show ?thesis
    by (simp add: ip4_fib_hash_table_entry_remove_def Let_def)
qed

subsection \<open>Entries added and deleted\<close>

text \<open>An entry that is added installs its load-balance in the trie and is inserted into the hash
  table; an entry that is deleted is withdrawn from the trie while the hash table still holds it,
  and then removed.\<close>

datatype fib_op = Fib_add fib_node_index | Fib_del fib_node_index

primrec fib_step ::
  "('s \<Rightarrow> ip4_address \<Rightarrow> nat \<Rightarrow> fib_node_index \<Rightarrow> 's option) \<Rightarrow> ('s \<Rightarrow> ip4_address \<Rightarrow> nat \<Rightarrow> 's) \<Rightarrow>
   ('s \<Rightarrow> ip4_address \<Rightarrow> nat \<Rightarrow> u32 \<Rightarrow> 's option) \<Rightarrow>
   (fib_entries \<Rightarrow> 's \<Rightarrow> ip4_address \<times> nat \<Rightarrow> u32 \<Rightarrow> 's option) \<Rightarrow>
   fib_entries \<Rightarrow> fib_op \<Rightarrow> 's \<Rightarrow> 's option" where
  "fib_step entry_insert entry_remove dpo_update dpo_remove E (Fib_add f) s =
     (let (addr, len) = fe_prefix (E f)
      in do { s \<leftarrow> dpo_update s addr len (fe_lb (E f)); entry_insert s addr len f })"
| "fib_step entry_insert entry_remove dpo_update dpo_remove E (Fib_del f) s =
     (let (addr, len) = fe_prefix (E f)
      in do { s \<leftarrow> dpo_remove E s (addr, len) (fe_lb (E f)); Some (entry_remove s addr len) })"

definition fib_16_run :: "fib_entries \<Rightarrow> fib_op list \<Rightarrow> ip4_fib_16 \<times> ply_pool \<Rightarrow> (ip4_fib_16 \<times> ply_pool) option" where
  "fib_16_run E = foldo (fib_step ip4_fib_16_table_entry_insert ip4_fib_16_table_entry_remove
     ip4_fib_16_table_fwding_dpo_update fib_16_table_fwding_dpo_remove E)"

definition fib_8_run :: "fib_entries \<Rightarrow> fib_op list \<Rightarrow> ip4_fib_8 \<times> ply_pool \<Rightarrow> (ip4_fib_8 \<times> ply_pool) option" where
  "fib_8_run E = foldo (fib_step ip4_fib_8_table_entry_insert ip4_fib_8_table_entry_remove
     ip4_fib_8_table_fwding_dpo_update fib_8_table_fwding_dpo_remove E)"

abbreviation entry_key :: "fib_entries \<Rightarrow> fib_node_index \<Rightarrow> prefix" where
  "entry_key E f \<equiv> route_key (fst (fe_prefix (E f))) (snd (fe_prefix (E f)))"

primrec fib_op_routes :: "fib_entries \<Rightarrow> fib_op \<Rightarrow> fib_node_index routes \<Rightarrow> fib_node_index routes" where
  "fib_op_routes E (Fib_add f) R = R(entry_key E f \<mapsto> f)"
| "fib_op_routes E (Fib_del f) R = R(entry_key E f := None)"

text \<open>An entry added has a prefix not in the table and a load-balance of its own; an entry deleted is in
  the table, is not the default route, and the table has a default route.\<close>

primrec fib_op_ok :: "fib_entries \<Rightarrow> fib_op \<Rightarrow> fib_node_index routes \<Rightarrow> bool" where
  "fib_op_ok E (Fib_add f) R \<longleftrightarrow> snd (fe_prefix (E f)) \<le> 32 \<and> R (entry_key E f) = None \<and>
     fe_lb (E f) \<noteq> 0 \<and> unat (fe_lb (E f)) < 2 ^ 31 \<and> (\<forall>k g. R k = Some g \<longrightarrow> fe_lb (E g) \<noteq> fe_lb (E f))"
| "fib_op_ok E (Fib_del f) R \<longleftrightarrow>
     R (entry_key E f) = Some f \<and> snd (fe_prefix (E f)) \<noteq> 0 \<and> R (0, 0) \<noteq> None"

primrec fib_ops_ok :: "fib_entries \<Rightarrow> fib_op list \<Rightarrow> fib_node_index routes \<Rightarrow> bool" where
  "fib_ops_ok E [] R \<longleftrightarrow> True"
| "fib_ops_ok E (u # us) R \<longleftrightarrow> fib_op_ok E u R \<and> fib_ops_ok E us (fib_op_routes E u R)"

definition fib_inv :: "fib_entries \<Rightarrow> fib_node_index routes \<Rightarrow> bool" where
  "fib_inv E R \<longleftrightarrow>
     (\<forall>k f. R k = Some f \<longrightarrow> entry_key E f = k \<and> fst k \<le> 32 \<and> fe_lb (E f) \<noteq> 0 \<and> unat (fe_lb (E f)) < 2 ^ 31) \<and>
     (\<forall>k l f g. R k = Some f \<longrightarrow> R l = Some g \<longrightarrow> fe_lb (E f) = fe_lb (E g) \<longrightarrow> f = g)"

lemma fib_invD:
  assumes "fib_inv E R" "R k = Some f"
  shows "entry_key E f = k" "fst k \<le> 32" "snd (fe_prefix (E f)) = fst k" "fe_lb (E f) \<noteq> 0"
    "unat (fe_lb (E f)) < 2 ^ 31" "R l = Some g \<Longrightarrow> fe_lb (E f) = fe_lb (E g) \<Longrightarrow> f = g"
proof -
  show "entry_key E f = k" "fst k \<le> 32" "fe_lb (E f) \<noteq> 0" "unat (fe_lb (E f)) < 2 ^ 31"
    "R l = Some g \<Longrightarrow> fe_lb (E f) = fe_lb (E g) \<Longrightarrow> f = g"
    using assms unfolding fib_inv_def by blast+
  then show "snd (fe_prefix (E f)) = fst k" by (auto simp: route_key_def)
qed

lemma fib_inv_step:
  assumes inv: "fib_inv E R" and ok: "fib_op_ok E u R"
  shows "fib_inv E (fib_op_routes E u R)"
proof (cases u)
  case (Fib_add f)
  let ?R = "fib_op_routes E u R"
  have f: "snd (fe_prefix (E f)) \<le> 32" "fe_lb (E f) \<noteq> 0" "unat (fe_lb (E f)) < 2 ^ 31"
      "\<And>k g. R k = Some g \<Longrightarrow> fe_lb (E g) \<noteq> fe_lb (E f)"
    using ok Fib_add by auto
  have R: "?R k = Some g \<longleftrightarrow> (if k = entry_key E f then g = f else R k = Some g)" for k g
    using Fib_add by auto
  show ?thesis
    unfolding fib_inv_def
  proof (intro conjI allI impI)
    fix k g assume g: "?R k = Some g"
    show "entry_key E g = k" "fst k \<le> 32" "fe_lb (E g) \<noteq> 0" "unat (fe_lb (E g)) < 2 ^ 31"
      using g f(1-3) fib_invD(1,2,4,5) [OF inv, of k g] unfolding R
      by (cases "k = entry_key E f"; simp add: route_key_def)+
    fix l h assume h: "?R l = Some h" and lb: "fe_lb (E g) = fe_lb (E h)"
    show "g = h"
      using g h lb f(4) [of k g] f(4) [of l h] fib_invD(6) [OF inv, of k g l h] unfolding R
      by (auto split: if_splits)
  qed
next
  case (Fib_del f)
  then have "fib_op_routes E u R k = Some g \<Longrightarrow> R k = Some g" for k g by (auto split: if_splits)
  then show ?thesis using inv unfolding fib_inv_def by blast
qed

text \<open>The routes of the trie are those of the hash table, with each entry's load-balance.\<close>

definition lb_routes :: "fib_entries \<Rightarrow> fib_node_index routes \<Rightarrow> u32 routes" where
  "lb_routes E R k = map_option (\<lambda>f. fe_lb (E f)) (R k)"

lemma lpm_lb_routes: "lpm (lb_routes E R) n x = map_option (map_prod id (\<lambda>f. fe_lb (E f))) (lpm R n x)"
  by (induction n) (auto simp: lb_routes_def option.map_comp comp_def split: option.split)

lemma lb_routes_upd:
  "lb_routes E (R(k \<mapsto> f)) = (lb_routes E R)(k \<mapsto> fe_lb (E f))"
  "lb_routes E (R(k := None)) = (lb_routes E R)(k := None)"
  by (auto simp: lb_routes_def)

lemma own_index_lb:
  assumes "fib_inv E R" "R k = Some f"
  shows "own_index (lb_routes E R) k (fe_lb (E f))"
  unfolding own_index_def lb_routes_def
proof (intro conjI allI impI)
  fix l assume "map_option (\<lambda>f. fe_lb (E f)) (R l) = Some (fe_lb (E f))"
  then obtain g where g: "R l = Some g" "fe_lb (E f) = fe_lb (E g)" by auto
  then show "l = k" using fib_invD(6) [OF assms g] fib_invD(1) [OF assms] fib_invD(1) [OF assms(1) g(1)] by simp
qed (use assms fib_invD(4) [OF assms] in simp_all)

text \<open>The less specific entry is the cover.\<close>

lemma less_specific_cover:
  assumes inv: "fib_inv E R" and R: "fib_routes fib = R" and len: "0 < len" "len \<le> 32"
    and dflt: "R (0, 0) \<noteq> None"
  shows "\<exists>f. fib_table_get_less_specific fib (addr, len) = Some f \<and>
    cover (lb_routes E R) len (prefix_of len (addr_val addr)) = (snd (fe_prefix (E f)), fe_lb (E f)) \<and>
    unat (fe_lb (E f)) < 2 ^ 31"
proof -
  let ?x = "prefix_of len (addr_val addr) * 2 ^ (32 - len)"
  have "prefix_of len ?x = prefix_of len (addr_val addr)" using len by (simp add: prefix_of_self)
  then have "prefix_of (len - 1) ?x = prefix_of (len - 1) (addr_val addr)"
    by (rule prefix_of_mono) (use len in auto)
  then have e: "lpm R (len - 1) ?x = lpm R (len - 1) (addr_val addr)"
    by (rule lpm_cong) (use len in simp)
  have "prefix_of 0 (addr_val addr) = 0" using prefix_addr_less [of 0 addr] by simp
  with dflt have "lpm R (len - 1) (addr_val addr) \<noteq> None" by (auto simp: lpm_None_iff)
  then obtain n f where l: "lpm R (len - 1) (addr_val addr) = Some (n, f)" by auto
  then have "R (n, prefix_of n (addr_val addr)) = Some f" by (simp add: lpm_Some_iff)
  note f = fib_invD(3,5) [OF inv this]
  have "fib_table_get_less_specific fib (addr, len) = Some f"
    using len l lookup_routes [of "len - 1" fib addr] R by (simp add: fib_table_get_less_specific_def)
  moreover have "cover (lb_routes E R) len (prefix_of len (addr_val addr)) = (n, fe_lb (E f))"
    using len e l by (simp add: cover_def lpm_lb_routes or_miss_def)
  ultimately show ?thesis using f by simp
qed

lemma lookup_lb_best:
  assumes "fib_routes fib = R"
  shows "(case ip4_fib_hash_table_lookup_lb E fib dst of None \<Rightarrow> 0 | Some lb \<Rightarrow> lb) =
    snd (best (lb_routes E R) (addr_val dst))"
  using lookup_routes [of 32 fib dst] assms
  by (auto simp: ip4_fib_hash_table_lookup_lb_def best_def or_miss_def lpm_lb_routes split: option.splits)

subsection \<open>A FIB keeps its two tables in step\<close>

text \<open>What the two kinds of FIB have in common: the operations act on the hash table and on the trie
  separately.\<close>

locale fib_kind = shared_plies at add del lookup
  for at :: "nat set \<Rightarrow> 'r \<times> ply_pool \<Rightarrow> u32 routes \<Rightarrow> bool"
    and add :: "('r \<times> ply_pool) table_add" and del :: "('r \<times> ply_pool) table_del"
    and lookup :: "'r \<times> ply_pool \<Rightarrow> ip4_address \<Rightarrow> u32" +
  fixes mtrie :: "'f \<Rightarrow> 'r"
    and hash :: "'f \<Rightarrow> ip4_fib_hash"
    and entry_insert :: "'f \<times> ply_pool \<Rightarrow> ip4_address \<Rightarrow> nat \<Rightarrow> fib_node_index \<Rightarrow> ('f \<times> ply_pool) option"
    and entry_remove :: "'f \<times> ply_pool \<Rightarrow> ip4_address \<Rightarrow> nat \<Rightarrow> 'f \<times> ply_pool"
    and dpo_update :: "'f \<times> ply_pool \<Rightarrow> ip4_address \<Rightarrow> nat \<Rightarrow> u32 \<Rightarrow> ('f \<times> ply_pool) option"
    and dpo_remove :: "fib_entries \<Rightarrow> 'f \<times> ply_pool \<Rightarrow> ip4_address \<times> nat \<Rightarrow> u32 \<Rightarrow> ('f \<times> ply_pool) option"
  assumes insert_law: "ip4_fib_hash_table_entry_insert (hash f) addr len fei = Some h \<Longrightarrow>
      \<exists>f'. entry_insert (f, P) addr len fei = Some (f', P) \<and> hash f' = h \<and> mtrie f' = mtrie f"
    and remove_law: "\<exists>f'. entry_remove (f, P) addr len = (f', P) \<and>
      hash f' = ip4_fib_hash_table_entry_remove (hash f) addr len \<and> mtrie f' = mtrie f"
    and update_law: "add (mtrie f, P) addr len lb = Some (m, P') \<Longrightarrow>
      \<exists>f'. dpo_update (f, P) addr len lb = Some (f', P') \<and> hash f' = hash f \<and> mtrie f' = m"
    and withdraw_law: "fib_table_get_less_specific (hash f) prefix = Some c \<Longrightarrow>
      del (mtrie f, P) (fst prefix) (snd prefix) lb (snd (fe_prefix (E c))) (fe_lb (E c)) = Some (m, P') \<Longrightarrow>
      \<exists>f'. dpo_remove E (f, P) prefix lb = Some (f', P') \<and> hash f' = hash f \<and> mtrie f' = m"
begin

lemma fib_step_ok:
  assumes at: "at F (mtrie f, P) (lb_routes E R)" "F \<subseteq> pool_active P" and R: "fib_routes (hash f) = R"
    and room: "ply_room (Suc n) P" and inv: "fib_inv E R" and ok: "fib_op_ok E u R"
  shows "\<exists>f' P' F'. fib_step entry_insert entry_remove dpo_update dpo_remove E u (f, P) = Some (f', P') \<and>
    at F' (mtrie f', P') (lb_routes E (fib_op_routes E u R)) \<and> F' \<subseteq> pool_active P' \<and>
    fib_routes (hash f') = fib_op_routes E u R \<and> ply_room n P'"
proof (cases u)
  case (Fib_add e)
  let ?a = "fst (fe_prefix (E e))" and ?l = "snd (fe_prefix (E e))"
  have e: "?l \<le> 32" "R (entry_key E e) = None" "unat (fe_lb (E e)) < 2 ^ 31" using ok Fib_add by auto
  obtain m P' F' where t: "add (mtrie f, P) ?a ?l (fe_lb (E e)) = Some (m, P')"
      "at F' (m, P') (lb_routes E (R(entry_key E e \<mapsto> e)))" "evolves P F P' F'" "ply_room n P'"
    using at_add [OF at room e(1,3), of ?a] unfolding lb_routes_upd by blast
  obtain f1 where f1: "dpo_update (f, P) ?a ?l (fe_lb (E e)) = Some (f1, P')" "hash f1 = hash f" "mtrie f1 = m"
    using update_law [OF t(1)] by blast
  obtain h where h: "ip4_fib_hash_table_entry_insert (hash f1) ?a ?l e = Some h"
      "fib_routes h = R(entry_key E e \<mapsto> e)"
    using insert_routes [OF e(1), of "hash f" ?a e] e(2) R f1(2) by metis
  obtain f' where "entry_insert (f1, P') ?a ?l e = Some (f', P')" "hash f' = h" "mtrie f' = mtrie f1"
    using insert_law [OF h(1)] by blast
  with f1 h t show ?thesis by (auto simp: Fib_add case_prod_beta evolves_def)
next
  case (Fib_del e)
  let ?a = "fst (fe_prefix (E e))" and ?l = "snd (fe_prefix (E e))"
  have e: "R (entry_key E e) = Some e" "0 < ?l" "R (0, 0) \<noteq> None" using ok Fib_del by auto
  have l: "?l \<le> 32" "unat (fe_lb (E e)) < 2 ^ 31" using fib_invD(2,3,5) [OF inv e(1)] by simp_all
  obtain c where c: "fib_table_get_less_specific (hash f) (?a, ?l) = Some c"
      "cover (lb_routes E R) ?l (prefix_of ?l (addr_val ?a)) = (snd (fe_prefix (E c)), fe_lb (E c))"
      "unat (fe_lb (E c)) < 2 ^ 31"
    using less_specific_cover [OF inv R e(2) l(1) e(3), of ?a] by blast
  have room': "ply_room n P" using room by (simp add: ply_room_def)
  obtain m P' F' where t: "del (mtrie f, P) ?a ?l (fe_lb (E e)) (snd (fe_prefix (E c))) (fe_lb (E c)) = Some (m, P')"
      "at F' (m, P') (lb_routes E (R(entry_key E e := None)))" "evolves P F P' F'" "ply_room n P'"
    using at_del [OF at room' l(1) own_index_lb [OF inv e(1)] l(2) c(2)] c(3)
    unfolding lb_routes_upd fst_conv snd_conv by blast
  obtain f1 where f1: "dpo_remove E (f, P) (?a, ?l) (fe_lb (E e)) = Some (f1, P')" "hash f1 = hash f" "mtrie f1 = m"
    using withdraw_law [OF c(1), of P "fe_lb (E e)" E m P'] t(1) by auto
  obtain f' where "entry_remove (f1, P') ?a ?l = (f', P')"
      "hash f' = ip4_fib_hash_table_entry_remove (hash f1) ?a ?l" "mtrie f' = mtrie f1"
    using remove_law by blast
  with f1 t remove_routes [OF l(1), of "hash f" ?a] R show ?thesis
    by (auto simp: Fib_del case_prod_beta evolves_def)
qed

lemma fib_run_ok:
  assumes "at F (mtrie f, P) (lb_routes E R)" "F \<subseteq> pool_active P" "fib_routes (hash f) = R"
    and "ply_room (length us) P" "fib_inv E R" "fib_ops_ok E us R"
  shows "\<exists>f' P' F' R'. foldo (fib_step entry_insert entry_remove dpo_update dpo_remove E) us (f, P) = Some (f', P') \<and>
    at F' (mtrie f', P') (lb_routes E R') \<and> fib_routes (hash f') = R'"
  using assms
proof (induction us arbitrary: f P F R)
  case (Cons u us)
  have u: "fib_op_ok E u R" "fib_ops_ok E us (fib_op_routes E u R)" "ply_room (Suc (length us)) P"
    using Cons.prems(4,6) by simp_all
  from fib_step_ok [OF Cons.prems(1-3) u(3) Cons.prems(5) u(1)] obtain f1 P1 F1 where
    s: "fib_step entry_insert entry_remove dpo_update dpo_remove E u (f, P) = Some (f1, P1)"
      "at F1 (mtrie f1, P1) (lb_routes E (fib_op_routes E u R))" "F1 \<subseteq> pool_active P1"
      "fib_routes (hash f1) = fib_op_routes E u R" "ply_room (length us) P1" by blast
  from Cons.IH [OF s(2-5) fib_inv_step [OF Cons.prems(5) u(1)] u(2)] s(1) show ?case by simp
qed auto

lemma fib_run_agree:
  assumes "at F (mtrie f, P) Map.empty" "F \<subseteq> pool_active P" "fib_routes (hash f) = Map.empty"
    and "ply_room (length us) P" "fib_ops_ok E us Map.empty"
  shows "\<exists>f' P'. foldo (fib_step entry_insert entry_remove dpo_update dpo_remove E) us (f, P) = Some (f', P') \<and>
    (\<forall>dst. lookup (mtrie f', P') dst =
       (case ip4_fib_hash_table_lookup_lb E (hash f') dst of None \<Rightarrow> 0 | Some lb \<Rightarrow> lb))"
proof -
  have "lb_routes E Map.empty = Map.empty" by (auto simp: lb_routes_def)
  with fib_run_ok [of F f P E Map.empty us] assms obtain f' P' F' R' where
    r: "foldo (fib_step entry_insert entry_remove dpo_update dpo_remove E) us (f, P) = Some (f', P')"
      "at F' (mtrie f', P') (lb_routes E R')" "fib_routes (hash f') = R'"
    by (auto simp: fib_inv_def)
  with at_lookup [OF r(2)] lookup_lb_best [OF r(3)] show ?thesis by auto
qed

end

interpretation fib_16: fib_kind mtrie16_at ip4_mtrie_16_route_add ip4_mtrie_16_route_del
  ip4_fib_16_forwarding_lookup mtrie_16 hash_16 ip4_fib_16_table_entry_insert ip4_fib_16_table_entry_remove
  ip4_fib_16_table_fwding_dpo_update fib_16_table_fwding_dpo_remove
  by unfold_locales (auto simp: ip4_fib_16_table_entry_insert_def ip4_fib_16_table_entry_remove_def
      ip4_fib_16_table_fwding_dpo_update_def fib_16_table_fwding_dpo_remove_def
      ip4_fib_16_table_fwding_dpo_remove_def)

interpretation fib_8: fib_kind mtrie8_at ip4_mtrie_8_route_add ip4_mtrie_8_route_del
  ip4_fib_8_forwarding_lookup mtrie_8 hash_8 ip4_fib_8_table_entry_insert ip4_fib_8_table_entry_remove
  ip4_fib_8_table_fwding_dpo_update fib_8_table_fwding_dpo_remove
  by unfold_locales (auto simp: ip4_fib_8_table_entry_insert_def ip4_fib_8_table_entry_remove_def
      ip4_fib_8_table_fwding_dpo_update_def fib_8_table_fwding_dpo_remove_def
      ip4_fib_8_table_fwding_dpo_remove_def)

end
