(* ===== verification/Fib_Walk.thy ===== *)
theory Fib_Walk
  imports Fib_Hash
begin

text \<open>
  Walks over a FIB (\<open>ip4_fib_hash_table_walk\<close>, \<open>ip4_fib_hash_table_sub_tree_walk\<close>), and the properties of
  the FIB as a whole: the two planes agree, the hash tables are a route map, and a walk visits
  the entries under its root except those below an entry where the callback cut the walk.
\<close>

unbundle bit_operations_syntax

subsection \<open>Walks\<close>

text \<open>What the code relies on: keys are masked with the mask of their length, and
  \<^verbatim>\<open>hash_foreach_pair\<close> visits every pair of a table once.\<close>

definition fib_masked :: "ip4_fib_hash \<Rightarrow> bool" where
  "fib_masked fib \<longleftrightarrow>
     (\<forall>n\<le>32. finite (dom (fib_entry_by_dst_address fib n)) \<and>
        (\<forall>k f. fib_entry_by_dst_address fib n k = Some f \<longrightarrow> k AND fib_masks n = k))"

definition visits_all :: "((u32 \<rightharpoonup> fib_node_index) \<Rightarrow> (u32 \<times> fib_node_index) list) \<Rightarrow> bool" where
  "visits_all pairs \<longleftrightarrow>
     (\<forall>h. finite (dom h) \<longrightarrow> distinct (map fst (pairs h)) \<and> (\<forall>k f. (k, f) \<in> set (pairs h) \<longleftrightarrow> h k = Some f))"

definition under_root :: "ip4_fib_hash \<Rightarrow> ip4_address \<times> nat \<Rightarrow> nat \<Rightarrow> u32 \<Rightarrow> fib_node_index \<Rightarrow> bool" where
  "under_root fib root n k f \<longleftrightarrow> snd root \<le> n \<and> n \<le> 32 \<and> fib_entry_by_dst_address fib n k = Some f \<and>
     ip4_destination_matches_route k (fst root) (snd root)"

lemma matches_trans:
  assumes "ip4_destination_matches_route k j m" "ip4_destination_matches_route j i n" "n \<le> m" "m \<le> 32"
  shows "ip4_destination_matches_route k i n"
proof -
  have "prefix_of m (addr_val k) = prefix_of m (addr_val j)" "prefix_of n (addr_val j) = prefix_of n (addr_val i)"
    using assms by (simp_all add: matches_route_iff prefix_of_def)
  moreover from this(1) have "prefix_of n (addr_val k) = prefix_of n (addr_val j)"
    by (rule prefix_of_mono) (use assms in simp_all)
  ultimately show ?thesis using assms by (simp add: matches_route_iff prefix_of_def)
qed

lemma matches_refl: "ip4_destination_matches_route k k n"
  by (simp add: ip4_destination_matches_route_def)

lemma matches_masked:
  assumes "n \<le> 32" "k AND fib_masks n = k" "j AND fib_masks n = j" "ip4_destination_matches_route k j n"
  shows "k = j"
proof -
  have "prefix_of n (addr_val k) = prefix_of n (addr_val j)"
    using assms(1,4) by (simp add: matches_route_iff prefix_of_def)
  then have "k AND fib_masks n = j AND fib_masks n" by (simp only: mask_key [OF assms(1)])
  then show ?thesis unfolding assms(2,3) .
qed

text \<open>The callback that records what it is called with; it never stops the walk altogether.\<close>

abbreviation record_fn :: "(fib_node_index \<Rightarrow> bool) \<Rightarrow> fib_node_index list walk_fn" where
  "record_fn prune \<equiv> \<lambda>f ctx.
     (if prune f then FIB_TABLE_WALK_SUB_TREE_STOP else FIB_TABLE_WALK_CONTINUE, ctx @ [f])"

abbreviation below :: "(ip4_address \<times> nat) list \<Rightarrow> u32 \<Rightarrow> bool" where
  "below st k \<equiv> list_ex (\<lambda>s. ip4_destination_matches_route k (fst s) (snd s)) st"

lemma walk_pairs_record:
  assumes "i \<le> 32" "distinct (map fst ps)" "\<forall>(k, f)\<in>set ps. k AND fib_masks i = k"
  shows "walk_pairs root (record_fn prune) i ps (False, st, ctx) =
    (let vs = filter (\<lambda>(k, f). ip4_destination_matches_route k (fst root) (snd root) \<and> \<not> below st k) ps
     in (False, st @ map (\<lambda>(k, f). (k, i)) (filter (\<lambda>(k, f). prune f) vs), ctx @ map snd vs))"
  using assms(2,3)
proof (induction ps arbitrary: st ctx)
  case (Cons p ps)
  obtain k f where p: "p = (k, f)" by (cases p)
  let ?v = "\<lambda>st (j, g). ip4_destination_matches_route j (fst root) (snd root) \<and> \<not> below st j"
  have k: "k \<notin> fst ` set ps" "k AND fib_masks i = k" "distinct (map fst ps)"
      "\<forall>(k, f)\<in>set ps. k AND fib_masks i = k"
    using Cons.prems p by simp_all
  have "\<not> ip4_destination_matches_route j k i" if "(j, g) \<in> set ps" for j g
  proof
    assume "ip4_destination_matches_route j k i"
    moreover have "j AND fib_masks i = j" using bspec [OF k(4) that] by simp
    ultimately have "j = k" by (intro matches_masked [OF assms(1) _ k(2)])
    then show False using k(1) imageI [OF that, of fst] by simp
  qed
  then have e: "filter (?v (st @ [(k, i)])) ps = filter (?v st) ps"
    by (intro filter_cong) auto
  note IH = Cons.IH [OF k(3,4)]
  show ?case
  proof (cases "?v st (k, f)")
    case True
    then have c: "ip4_destination_matches_route k (fst root) (snd root)" "\<not> below st k" by simp_all
    show ?thesis
    proof (cases "prune f")
      case True
      then show ?thesis
        unfolding p walk_pairs.simps using IH [of "st @ [(k, i)]" "ctx @ [f]"] unfolding e
        by (simp add: c Let_def del: list_ex_append)
    next
      case False
      then show ?thesis unfolding p walk_pairs.simps using IH [of st "ctx @ [f]"] by (simp add: c Let_def)
    qed
  next
    case False
    then have c: "(ip4_destination_matches_route k (fst root) (snd root) \<and> \<not> below st k) = False" by simp
    show ?thesis unfolding p walk_pairs.simps c if_False using IH [of st ctx] by (simp only: filter.simps prod.case c if_False)
  qed
qed simp

text \<open>After the tables of length less than \<open>i\<close>.\<close>

definition walk_inv ::
  "ip4_fib_hash \<Rightarrow> ip4_address \<times> nat \<Rightarrow> (fib_node_index \<Rightarrow> bool) \<Rightarrow> nat \<Rightarrow> fib_node_index list walk \<Rightarrow> bool" where
  "walk_inv fib root prune i s \<longleftrightarrow> (case s of (stopped, st, ctx) \<Rightarrow> \<not> stopped \<and>
     (\<forall>(j, m)\<in>set st. m < i \<and> (\<exists>g. under_root fib root m j g \<and> prune g)) \<and>
     (\<forall>m j g. m < i \<longrightarrow> under_root fib root m j g \<longrightarrow> prune g \<longrightarrow>
        (\<exists>(l, n)\<in>set st. n \<le> m \<and> ip4_destination_matches_route j l n)) \<and>
     (\<forall>f. f \<in> set ctx \<longleftrightarrow> (\<exists>n k. n < i \<and> under_root fib root n k f \<and>
        (\<forall>m j g. m < n \<longrightarrow> under_root fib root m j g \<longrightarrow> prune g \<longrightarrow> \<not> ip4_destination_matches_route k j m))))"

lemma in_snd_image: "y \<in> snd ` X \<longleftrightarrow> (\<exists>x. (x, y) \<in> X)"
  by force

lemma walk_inv_step:
  assumes wf: "fib_masked fib" and pairs: "visits_all pairs" and root: "snd root \<le> i" and i: "i \<le> 32"
    and inv: "walk_inv fib root prune i s"
  shows "walk_inv fib root prune (Suc i)
    (walk_pairs root (record_fn prune) i (pairs (fib_entry_by_dst_address fib i)) s)"
proof -
  let ?h = "fib_entry_by_dst_address fib i" and ?m = ip4_destination_matches_route
  obtain st ctx where s: "s = (False, st, ctx)" using inv by (cases s) (auto simp: walk_inv_def)
  have st: "m < i \<and> (\<exists>g. under_root fib root m j g \<and> prune g)" if "(j, m) \<in> set st" for j m
    using inv that by (auto simp: s walk_inv_def)
  have cov: "\<exists>(l, n)\<in>set st. n \<le> m \<and> ?m j l n" if "m < i" "under_root fib root m j g" "prune g" for m j g
    using inv that by (auto simp: s walk_inv_def)
  have ctx: "f \<in> set ctx \<longleftrightarrow> (\<exists>n k. n < i \<and> under_root fib root n k f \<and>
      (\<forall>m j g. m < n \<longrightarrow> under_root fib root m j g \<longrightarrow> prune g \<longrightarrow> \<not> ?m k j m))" for f
    using inv by (auto simp: s walk_inv_def)
  have ps: "distinct (map fst (pairs ?h))" "\<And>k f. (k, f) \<in> set (pairs ?h) \<longleftrightarrow> ?h k = Some f"
      "\<forall>(k, f)\<in>set (pairs ?h). k AND fib_masks i = k"
    using wf pairs i unfolding fib_masked_def visits_all_def by auto
  have bl: "below st k \<longleftrightarrow> (\<exists>m j g. m < i \<and> under_root fib root m j g \<and> prune g \<and> ?m k j m)" for k
  proof
    assume "below st k"
    then obtain j m where "(j, m) \<in> set st" "?m k j m" by (auto simp: list_ex_iff)
    then show "\<exists>m j g. m < i \<and> under_root fib root m j g \<and> prune g \<and> ?m k j m" using st by blast
  next
    assume "\<exists>m j g. m < i \<and> under_root fib root m j g \<and> prune g \<and> ?m k j m"
    then obtain m j g where m: "m < i" "under_root fib root m j g" "prune g" "?m k j m" by blast
    then obtain l n where "(l, n) \<in> set st" "n \<le> m" "?m j l n" using cov [OF m(1-3)] by blast
    with matches_trans [OF m(4), of l n] m(1) i show "below st k" by (force simp: list_ex_iff)
  qed
  let ?vs = "filter (\<lambda>(k, f). ?m k (fst root) (snd root) \<and> \<not> below st k) (pairs ?h)"
  have vs: "(k, f) \<in> set ?vs \<longleftrightarrow> under_root fib root i k f \<and> \<not> below st k" for k f
    using ps(2) root i by (auto simp: under_root_def)
  have "walk_inv fib root prune (Suc i)
      (False, st @ map (\<lambda>(k, f). (k, i)) (filter (\<lambda>(k, f). prune f) ?vs), ctx @ map snd ?vs)"
    unfolding walk_inv_def prod.case
  proof (intro conjI allI impI ballI)
    fix x assume "x \<in> set (st @ map (\<lambda>(k, f). (k, i)) (filter (\<lambda>(k, f). prune f) ?vs))"
    then consider "x \<in> set st" | k f where "x = (k, i)" "(k, f) \<in> set ?vs" "prune f" by auto
    then show "case x of (j, m) \<Rightarrow> m < Suc i \<and> (\<exists>g. under_root fib root m j g \<and> prune g)"
    proof cases
      case 1
      then show ?thesis using st [of "fst x" "snd x"] by (cases x) auto
    next
      case 2
      then show ?thesis using vs by auto
    qed
  next
    fix m j g assume a: "m < Suc i" "under_root fib root m j g" "prune g"
    show "\<exists>(l, n)\<in>set (st @ map (\<lambda>(k, f). (k, i)) (filter (\<lambda>(k, f). prune f) ?vs)). n \<le> m \<and> ?m j l n"
    proof (cases "m < i \<or> below st j")
      case True
      have "\<exists>(l, n)\<in>set st. n \<le> m \<and> ?m j l n"
      proof (cases "m < i")
        case True
        then show ?thesis using cov a by blast
      next
        case False
        then obtain l n where l: "(l, n) \<in> set st" "?m j l n" using \<open>m < i \<or> below st j\<close> by (auto simp: list_ex_iff)
        moreover have "n \<le> m" using st [OF l(1)] False by simp
        ultimately show ?thesis by (intro bexI [of _ "(l, n)"]) simp_all
      qed
      then show ?thesis by auto
    next
      case False
      then have "m = i" "(j, g) \<in> set ?vs" using a vs by (auto simp: less_Suc_eq)
      with a(3) show ?thesis by (force simp: matches_refl)
    qed
  next
    fix f
    define A where "A n k \<longleftrightarrow> under_root fib root n k f \<and>
        (\<forall>m j g. m < n \<longrightarrow> under_root fib root m j g \<longrightarrow> prune g \<longrightarrow> \<not> ?m k j m)" for n k
    have "(k, f) \<in> set ?vs \<longleftrightarrow> A i k" for k using vs [of k f] bl [of k] unfolding A_def by blast
    then have "f \<in> set (map snd ?vs) \<longleftrightarrow> (\<exists>k. A i k)" unfolding set_map in_snd_image by (simp only:)
    moreover have "f \<in> set ctx \<longleftrightarrow> (\<exists>n k. n < i \<and> A n k)" unfolding ctx A_def ..
    ultimately have "f \<in> set (ctx @ map snd ?vs) \<longleftrightarrow> (\<exists>n k. n < Suc i \<and> A n k)"
      unfolding set_append Un_iff less_Suc_eq by blast
    then show "f \<in> set (ctx @ map snd ?vs) \<longleftrightarrow> (\<exists>n k. n < Suc i \<and> under_root fib root n k f \<and>
        (\<forall>m j g. m < n \<longrightarrow> under_root fib root m j g \<longrightarrow> prune g \<longrightarrow> \<not> ?m k j m))"
      unfolding A_def .
  qed simp
  then show ?thesis unfolding s walk_pairs_record [OF i ps(1,3)] Let_def .
qed

lemma walk_inv_fold:
  assumes "fib_masked fib" "visits_all pairs" "snd root \<le> i" "i \<le> 33"
  shows "walk_inv fib root prune i (fold (\<lambda>i. walk_pairs root (record_fn prune) i
    (pairs (fib_entry_by_dst_address fib i))) [snd root..<i] (False, [], []))"
  using assms(3,4)
proof (induction i)
  case (Suc i)
  show ?case
  proof (cases "snd root = Suc i")
    case True
    then show ?thesis by (auto simp: walk_inv_def under_root_def)
  next
    case False
    then have "snd root \<le> i" "i \<le> 32" using Suc.prems by simp_all
    with walk_inv_step [OF assms(1,2) this Suc.IH] show ?thesis by simp
  qed
qed (simp add: walk_inv_def)

subsection \<open>Properties\<close>

text \<open>C4. The data plane forwards as the control plane resolves. Start a FIB of either kind
  empty and add and delete any entries, as long as an added prefix is new and has a load-balance of its
  own, and what is deleted is not the default route and is covered by one. Every operation succeeds,
  and afterwards the forwarding lookup of every destination in the trie gives the load-balance
  of the entry that the hash tables resolve it to (0 if they have none).\<close>

theorem fib_planes_agree:
  assumes "3 * (length us + 1) + 1 < 2 ^ 31" and "ip4_mtrie_module_init z = Some P"
    and "fib_ops_ok E us Map.empty" and "fib_entry_by_dst_address h = (\<lambda>_. Map.empty)"
  shows "(\<exists>f P'. fib_16_run E us (ip4_fib_16_table_init \<lparr>mtrie_16 = m, hash_16 = h\<rparr>, P) = Some (f, P') \<and>
      (\<forall>dst. ip4_fib_16_forwarding_lookup (mtrie_16 f, P') dst =
        (case ip4_fib_16_table_lookup_lb E f dst of None \<Rightarrow> 0 | Some lb \<Rightarrow> lb))) \<and>
    (\<exists>s f P'. ip4_fib_8_table_init (\<lparr>mtrie_8 = r, hash_8 = h\<rparr>, P) = Some s \<and> fib_8_run E us s = Some (f, P') \<and>
      (\<forall>dst. ip4_fib_8_forwarding_lookup (mtrie_8 f, P') dst =
        (case ip4_fib_8_table_lookup_lb E f dst of None \<Rightarrow> 0 | Some lb \<Rightarrow> lb)))"
proof
  have room: "ply_room (Suc (length us)) P" using module_init_room [OF assms(1), of z] assms(2) by simp
  have h: "fib_routes h = Map.empty" by (simp add: fun_eq_iff fib_routes_def assms(4))
  let ?f = "ip4_fib_16_table_init \<lparr>mtrie_16 = m, hash_16 = h\<rparr>"
  have "mtrie16_at {} (mtrie_16 ?f, P) Map.empty" using mtrie16_init by (simp add: ip4_fib_16_table_init_def)
  moreover have "fib_routes (hash_16 ?f) = Map.empty" using h by (simp add: ip4_fib_16_table_init_def)
  ultimately show "\<exists>f P'. fib_16_run E us (?f, P) = Some (f, P') \<and>
      (\<forall>dst. ip4_fib_16_forwarding_lookup (mtrie_16 f, P') dst =
        (case ip4_fib_16_table_lookup_lb E f dst of None \<Rightarrow> 0 | Some lb \<Rightarrow> lb))"
    unfolding fib_16_run_def ip4_fib_16_table_lookup_lb_def using fib_16.fib_run_agree [OF _ _ _ _ assms(3)] room
    by (simp add: ply_room_def)
  obtain root P1 where new: "ip4_mtrie_8_init P = Some (root, P1)"
      "mtrie8_at {root} (root, P1) Map.empty" "evolves P {} P1 {root}" "ply_room (length us) P1"
    using mtrie8_init [OF room] by blast
  let ?g = "\<lparr>mtrie_8 = root, hash_8 = h\<rparr>"
  have "\<exists>f P'. fib_8_run E us (?g, P1) = Some (f, P') \<and>
      (\<forall>dst. ip4_fib_8_forwarding_lookup (mtrie_8 f, P') dst =
        (case ip4_fib_8_table_lookup_lb E f dst of None \<Rightarrow> 0 | Some lb \<Rightarrow> lb))"
    unfolding fib_8_run_def ip4_fib_8_table_lookup_lb_def
    by (rule fib_8.fib_run_agree [OF _ _ _ new(4) assms(3), of "{root}"])
      (use new h in \<open>simp_all add: evolves_def\<close>)
  moreover have "ip4_fib_8_table_init (\<lparr>mtrie_8 = r, hash_8 = h\<rparr>, P) = Some (?g, P1)"
    using new(1) by (simp add: ip4_fib_8_table_init_def)
  ultimately show "\<exists>s f P'. ip4_fib_8_table_init (\<lparr>mtrie_8 = r, hash_8 = h\<rparr>, P) = Some s \<and>
      fib_8_run E us s = Some (f, P') \<and> (\<forall>dst. ip4_fib_8_forwarding_lookup (mtrie_8 f, P') dst =
        (case ip4_fib_8_table_lookup_lb E f dst of None \<Rightarrow> 0 | Some lb \<Rightarrow> lb))" by blast
qed

text \<open>A default route, 10/8 and 10.0.0.1/32, as entries 0, 1 and 2.\<close>

definition example_entries :: fib_entries where
  "example_entries = ((\<lambda>_. \<lparr>fe_prefix = (0, 0), fe_lb = 3\<rparr>)
     (1 := \<lparr>fe_prefix = (0x0000000A, 8), fe_lb = 4\<rparr>, 2 := \<lparr>fe_prefix = (0x0100000A, 32), fe_lb = 5\<rparr>))"

theorem fib_planes_agree_witness:
  "\<exists>P f P'. ip4_mtrie_module_init (ply_8_init 0 0 0) = Some P \<and>
    fib_16_run example_entries [Fib_add 0, Fib_add 1, Fib_add 2, Fib_del 1]
      (ip4_fib_16_table_init \<lparr>mtrie_16 = ply_16_init 0 0,
         hash_16 = \<lparr>fib_entry_by_dst_address = (\<lambda>_. Map.empty), table_id = 0\<rparr>\<rparr>, P) = Some (f, P') \<and>
    (\<forall>dst. ip4_fib_16_forwarding_lookup (mtrie_16 f, P') dst =
       (case ip4_fib_16_table_lookup_lb example_entries f dst of None \<Rightarrow> 0 | Some lb \<Rightarrow> lb))"
proof -
  obtain P where P: "ip4_mtrie_module_init (ply_8_init 0 0 0) = Some P"
    using module_init_room [of 0 "ply_8_init 0 0 0"] by auto
  have "fib_ops_ok example_entries [Fib_add 0, Fib_add 1, Fib_add 2, Fib_del 1] Map.empty"
    by (simp add: example_entries_def route_key_def addr_examples prefix_of_def)
  from fib_planes_agree [OF _ P this, of "\<lparr>fib_entry_by_dst_address = (\<lambda>_. Map.empty), table_id = 0\<rparr>" "ply_16_init 0 0"]
  show ?thesis using P by simp
qed

text \<open>C20. The hash tables of a FIB are a map from prefixes to entries: an exact-match lookup reads the
  map, an insertion of a new prefix adds a binding and that of an existing one fails, a removal drops
  the binding, and a lookup with \<open>len\<close> bits of the address returns the entry of the longest prefix
  of at most that length that matches.\<close>

theorem fib_hash_is_route_map:
  assumes "len \<le> 32"
  shows "ip4_fib_hash_table_lookup_exact_match fib addr len = fib_routes fib (route_key addr len) \<and>
    (fib_routes fib (route_key addr len) = None \<longrightarrow>
      map_option fib_routes (ip4_fib_hash_table_entry_insert fib addr len fei) =
        Some ((fib_routes fib)(route_key addr len \<mapsto> fei))) \<and>
    (fib_routes fib (route_key addr len) \<noteq> None \<longrightarrow> ip4_fib_hash_table_entry_insert fib addr len fei = None) \<and>
    fib_routes (ip4_fib_hash_table_entry_remove fib addr len) = (fib_routes fib)(route_key addr len := None) \<and>
    ip4_fib_hash_table_lookup fib addr len = map_option snd (lpm (fib_routes fib) len (addr_val addr))"
proof (intro conjI impI)
  assume "fib_routes fib (route_key addr len) = None"
  from insert_routes [OF assms this, of fei]
  show "map_option fib_routes (ip4_fib_hash_table_entry_insert fib addr len fei) =
      Some ((fib_routes fib)(route_key addr len \<mapsto> fei))" by auto
next
  assume "fib_routes fib (route_key addr len) \<noteq> None"
  then show "ip4_fib_hash_table_entry_insert fib addr len fei = None"
    using lookup_exact_routes [OF assms, of fib addr]
    by (auto simp: ip4_fib_hash_table_entry_insert_def ip4_fib_hash_table_lookup_exact_match_def Let_def)
qed (simp_all add: assms lookup_exact_routes remove_routes lookup_routes)

theorem fib_hash_is_route_map_witness:
  "ip4_fib_hash_table_lookup_exact_match \<lparr>fib_entry_by_dst_address = (\<lambda>_ _. Some 1), table_id = 0\<rparr> 10 8 = Some 1 \<and>
   ip4_fib_hash_table_entry_insert \<lparr>fib_entry_by_dst_address = (\<lambda>_ _. Some 1), table_id = 0\<rparr> 10 8 2 = None"
  using fib_hash_is_route_map [of 8 "\<lparr>fib_entry_by_dst_address = (\<lambda>_ _. Some 1), table_id = 0\<rparr>" 10 2] addr_examples
  by (simp add: fib_routes_def route_key_def prefix_of_def)

text \<open>C21. A walk of the sub-tree under a prefix, with a callback that for some entries asks not to descend
  below them, calls the callback for exactly the entries whose prefix is in the sub-tree and is
  below none of those entries.\<close>

theorem fib_sub_tree_walk_visits:
  assumes "fib_masked fib" and "visits_all pairs" and "snd root \<le> 32"
  shows "f \<in> set (ip4_fib_hash_table_sub_tree_walk pairs fib root
      (\<lambda>f ctx. (if prune f then FIB_TABLE_WALK_SUB_TREE_STOP else FIB_TABLE_WALK_CONTINUE, ctx @ [f])) []) \<longleftrightarrow>
    (\<exists>n k. under_root fib root n k f \<and>
      (\<forall>m j g. m < n \<longrightarrow> under_root fib root m j g \<longrightarrow> prune g \<longrightarrow> \<not> ip4_destination_matches_route k j m))"
proof -
  let ?s = "fold (\<lambda>i. walk_pairs root (record_fn prune) i (pairs (fib_entry_by_dst_address fib i)))
    [snd root..<33] (False, [], [])"
  have "walk_inv fib root prune 33 ?s" using walk_inv_fold [OF assms(1,2), of root 33] assms(3) by simp
  then have "f \<in> set (snd (snd ?s)) \<longleftrightarrow> (\<exists>n k. n < 33 \<and> under_root fib root n k f \<and>
      (\<forall>m j g. m < n \<longrightarrow> under_root fib root m j g \<longrightarrow> prune g \<longrightarrow> \<not> ip4_destination_matches_route k j m))"
    by (cases ?s) (simp add: walk_inv_def)
  moreover have "under_root fib root n k f \<Longrightarrow> n < 33" for n k by (simp add: under_root_def)
  ultimately show ?thesis unfolding ip4_fib_hash_table_sub_tree_walk_def by blast
qed

lemma visits_all_sorted: "visits_all (\<lambda>h. map (\<lambda>k. (k, the (h k))) (sorted_list_of_set (dom h)))"
  by (auto simp: visits_all_def comp_def image_iff)

theorem fib_sub_tree_walk_visits_witness:
  "let fib = \<lparr>fib_entry_by_dst_address = (\<lambda>_. Map.empty)(0 := [0 \<mapsto> 0], 8 := [0x0000000A \<mapsto> 1], 32 := [0x0100000A \<mapsto> 2]),
        table_id = 0\<rparr>;
      visited = ip4_fib_hash_table_sub_tree_walk (\<lambda>h. map (\<lambda>k. (k, the (h k))) (sorted_list_of_set (dom h))) fib (0, 0)
        (\<lambda>f ctx. (if f = 1 then FIB_TABLE_WALK_SUB_TREE_STOP else FIB_TABLE_WALK_CONTINUE, ctx @ [f])) []
   in 1 \<in> set visited \<and> 2 \<notin> set visited"
proof -
  let ?fib = "\<lparr>fib_entry_by_dst_address = (\<lambda>_. Map.empty)(0 := [0 \<mapsto> 0], 8 := [0x0000000A \<mapsto> 1], 32 := [0x0100000A \<mapsto> 2]),
      table_id = 0\<rparr> :: ip4_fib_hash"
  have m: "ip4_destination_matches_route 0x0100000A 0x0000000A 8" "\<And>k. ip4_destination_matches_route k 0 0"
    using matches_route_iff [of 0] addr_val_less
    by (simp_all add: matches_route_iff addr_examples)
  have "0x0000000A AND fib_masks 8 = 0x0000000A" "0x0100000A AND fib_masks 32 = 0x0100000A"
    by (simp_all add: addr_val_mask addr_examples flip: addr_val_inj)
  then have wf: "fib_masked ?fib" by (auto simp: fib_masked_def split: if_splits)
  have u: "under_root ?fib (0, 0) n k f \<longleftrightarrow> (n, k, f) \<in> {(0, 0, 0), (8, 0x0000000A, 1), (32, 0x0100000A, 2)}" for n k f
    by (auto simp: under_root_def m split: if_splits)
  have r: "snd (0 :: ip4_address, 0 :: nat) \<le> 32" by simp
  show ?thesis unfolding Let_def fib_sub_tree_walk_visits [OF wf visits_all_sorted r] u by (auto simp: m)
qed

end
