(* ===== verification/Anti_Replay.thy ===== *)
theory Anti_Replay
  imports Bitmap
begin

text \<open>
  The anti-replay window of an IPsec SA, \<^verbatim>\<open>vnet/ipsec/ipsec_sa.h\<close>: the part of the SA that the window
  functions use, the check before and after decryption, and the advance of window and
  sequence number, for the window of 64 numbers in a word and for the window of up to 2^31
  numbers in a bitmap. Sequence numbers are 32-bit words as in the code; counts of packets are
  natural numbers.
\<close>

unbundle bit_operations_syntax

subsection \<open>Flags and the replay part of an SA\<close>

text \<open>\<open>replay_window\<close> and \<open>replay_window_huge\<close> are a union in the code; the flag
  \<open>ANTI_REPLAY_HUGE\<close> says which is in use.\<close>

record ipsec_sa_replay =
  replay_window :: uword
  replay_window_huge :: clib_bitmap_t
  seq :: u32
  seq_hi :: u32
  flags :: u16

definition IPSEC_SA_FLAG_USE_ESN :: u16 where "IPSEC_SA_FLAG_USE_ESN = 1"
definition IPSEC_SA_FLAG_USE_ANTI_REPLAY :: u16 where "IPSEC_SA_FLAG_USE_ANTI_REPLAY = 2"
definition IPSEC_SA_FLAG_IS_TUNNEL :: u16 where "IPSEC_SA_FLAG_IS_TUNNEL = 4"
definition IPSEC_SA_FLAG_IS_TUNNEL_V6 :: u16 where "IPSEC_SA_FLAG_IS_TUNNEL_V6 = 8"
definition IPSEC_SA_FLAG_UDP_ENCAP :: u16 where "IPSEC_SA_FLAG_UDP_ENCAP = 16"
definition IPSEC_SA_FLAG_IS_PROTECT :: u16 where "IPSEC_SA_FLAG_IS_PROTECT = 32"
definition IPSEC_SA_FLAG_IS_INBOUND :: u16 where "IPSEC_SA_FLAG_IS_INBOUND = 64"
definition IPSEC_SA_FLAG_IS_AEAD :: u16 where "IPSEC_SA_FLAG_IS_AEAD = 128"
definition IPSEC_SA_FLAG_IS_CTR :: u16 where "IPSEC_SA_FLAG_IS_CTR = 256"
definition IPSEC_SA_FLAG_IS_ASYNC :: u16 where "IPSEC_SA_FLAG_IS_ASYNC = 512"
definition IPSEC_SA_FLAG_NO_ALGO_NO_DROP :: u16 where "IPSEC_SA_FLAG_NO_ALGO_NO_DROP = 1024"
definition IPSEC_SA_FLAG_IS_NULL_GMAC :: u16 where "IPSEC_SA_FLAG_IS_NULL_GMAC = 2048"
definition IPSEC_SA_FLAG_ANTI_REPLAY_HUGE :: u16 where "IPSEC_SA_FLAG_ANTI_REPLAY_HUGE = 4096"

definition ipsec_sa_is_set :: "u16 \<Rightarrow> 'a ipsec_sa_replay_scheme \<Rightarrow> bool" where
  "ipsec_sa_is_set f sa \<longleftrightarrow> flags sa AND f \<noteq> 0"

definition ipsec_sa_set :: "u16 \<Rightarrow> 'a ipsec_sa_replay_scheme \<Rightarrow> 'a ipsec_sa_replay_scheme" where
  "ipsec_sa_set f sa = sa\<lparr>flags := flags sa OR f\<rparr>"

definition ipsec_sa_unset :: "u16 \<Rightarrow> 'a ipsec_sa_replay_scheme \<Rightarrow> 'a ipsec_sa_replay_scheme" where
  "ipsec_sa_unset f sa = sa\<lparr>flags := flags sa AND NOT f\<rparr>"

subsection \<open>The window\<close>

definition IPSEC_SA_ANTI_REPLAY_WINDOW_SIZE_KNOWN_WIN :: "'a ipsec_sa_replay_scheme \<Rightarrow> bool \<Rightarrow> u32" where
  "IPSEC_SA_ANTI_REPLAY_WINDOW_SIZE_KNOWN_WIN sa is_huge =
     (if is_huge then of_nat (clib_bitmap_bytes (replay_window_huge sa) * 8) else 64)"

definition IPSEC_SA_ANTI_REPLAY_WINDOW_SIZE :: "'a ipsec_sa_replay_scheme \<Rightarrow> u32" where
  "IPSEC_SA_ANTI_REPLAY_WINDOW_SIZE sa =
     (if ipsec_sa_is_set IPSEC_SA_FLAG_ANTI_REPLAY_HUGE sa
      then of_nat (clib_bitmap_bytes (replay_window_huge sa) * 8) else 64)"

definition IPSEC_SA_ANTI_REPLAY_WINDOW_N_SEEN_KNOWN_WIN :: "'a ipsec_sa_replay_scheme \<Rightarrow> bool \<Rightarrow> nat" where
  "IPSEC_SA_ANTI_REPLAY_WINDOW_N_SEEN_KNOWN_WIN sa is_huge =
     (if is_huge then clib_bitmap_count_set_bits (replay_window_huge sa)
      else count_set_bits (replay_window sa))"

definition IPSEC_SA_ANTI_REPLAY_WINDOW_LOWER_BOUND_KNOWN_WIN :: "'a ipsec_sa_replay_scheme \<Rightarrow> bool \<Rightarrow> u32" where
  "IPSEC_SA_ANTI_REPLAY_WINDOW_LOWER_BOUND_KNOWN_WIN sa is_huge =
     seq sa - IPSEC_SA_ANTI_REPLAY_WINDOW_SIZE_KNOWN_WIN sa is_huge + 1"

definition ipsec_sa_anti_replay_get_64b_window :: "'a ipsec_sa_replay_scheme \<Rightarrow> uword" where
  "ipsec_sa_anti_replay_get_64b_window sa =
     (if \<not> ipsec_sa_is_set IPSEC_SA_FLAG_ANTI_REPLAY_HUGE sa then replay_window sa
      else let window_size = IPSEC_SA_ANTI_REPLAY_WINDOW_SIZE sa;
               tl_win_index = unat (seq sa AND (window_size - 1));
               h = replay_window_huge sa
           in if 63 \<le> tl_win_index
              then clib_bitmap_get_multiple h (tl_win_index - 63) 64
              else push_bit (63 - tl_win_index) (clib_bitmap_get_multiple_no_check h 0 (tl_win_index + 1)) OR
                   clib_bitmap_get_multiple_no_check h (unat window_size - 63 + tl_win_index) (63 - tl_win_index))"

definition ipsec_sa_anti_replay_check :: "'a ipsec_sa_replay_scheme \<Rightarrow> u32 \<Rightarrow> bool \<Rightarrow> bool" where
  "ipsec_sa_anti_replay_check sa sq ar_huge =
     (let window_size = IPSEC_SA_ANTI_REPLAY_WINDOW_SIZE_KNOWN_WIN sa ar_huge
      in if ar_huge then clib_bitmap_get (replay_window_huge sa) (unat (sq AND (window_size - 1)))
         else drop_bit (unat (window_size + sq - seq sa - 1)) (replay_window sa) AND 1 \<noteq> 0)"

text \<open>The result is whether to drop the packet, and the high sequence number to decrypt with
  (before decryption, where the code passes a place for it).\<close>

definition ipsec_sa_anti_replay_and_sn_advance ::
  "'a ipsec_sa_replay_scheme \<Rightarrow> u32 \<Rightarrow> u32 \<Rightarrow> bool \<Rightarrow> bool \<Rightarrow> bool \<times> u32 option" where
  "ipsec_sa_anti_replay_and_sn_advance sa sq hi_seq_used post_decrypt ar_huge =
     (let window_size = IPSEC_SA_ANTI_REPLAY_WINDOW_SIZE_KNOWN_WIN sa ar_huge;
          window_lower_bound = IPSEC_SA_ANTI_REPLAY_WINDOW_LOWER_BOUND_KNOWN_WIN sa ar_huge;
          hi_seq_req = (\<lambda>hi. if post_decrypt then None else Some hi)
      in
      if \<not> ipsec_sa_is_set IPSEC_SA_FLAG_USE_ESN sa
      then
        (if \<not> ipsec_sa_is_set IPSEC_SA_FLAG_USE_ANTI_REPLAY sa then False
         else if sq > seq sa then False
         else if seq sa \<ge> sq + window_size then True
         else ipsec_sa_anti_replay_check sa sq ar_huge, hi_seq_req 0)
      else if \<not> ipsec_sa_is_set IPSEC_SA_FLAG_USE_ANTI_REPLAY sa
      then
        (False, hi_seq_req
           (if sq \<ge> seq sa then seq_hi sa
            else if seq sa - sq > push_bit 30 1 then seq_hi sa + 1 else seq_hi sa))
      else if seq sa \<ge> window_size - 1
      then
        (if sq < window_lower_bound
         then (if post_decrypt then hi_seq_used = seq_hi sa else False, hi_seq_req (seq_hi sa + 1))
         else (if sq \<le> seq sa then ipsec_sa_anti_replay_check sa sq ar_huge else False,
               hi_seq_req (seq_hi sa)))
      else
        (if sq < window_lower_bound
         then (if sq \<le> seq sa then ipsec_sa_anti_replay_check sa sq ar_huge else False,
               hi_seq_req (seq_hi sa))
         else (ipsec_sa_anti_replay_check sa sq ar_huge, hi_seq_req (seq_hi sa - 1))))"

text \<open>The section of the bitmap that falls out of the window: the words of it are counted and cleared,
  eight at a time while there are that many.\<close>

definition clear_word :: "nat \<Rightarrow> nat \<times> clib_bitmap_t \<times> nat \<Rightarrow> nat \<times> clib_bitmap_t \<times> nat" where
  "clear_word n_blocks s =
     (let (seen, window, i_block) = s
      in (seen + count_set_bits (window ! i_block), window[i_block := 0], (i_block + 1) AND (n_blocks - 1)))"

definition clear_8_words :: "nat \<Rightarrow> nat \<times> clib_bitmap_t \<times> nat \<Rightarrow> nat \<times> clib_bitmap_t \<times> nat" where
  "clear_8_words n_blocks s =
     (let (seen, window, i_block) = s;
          blocks = i_block # map (\<lambda>j. (i_block + j) AND (n_blocks - 1)) [1..<8];
          seen = fold (\<lambda>b seen. seen + count_set_bits (window ! b)) blocks seen;
          window = fold (\<lambda>b window. window[b := 0]) blocks window
      in (seen, window, (i_block + 8) AND (n_blocks - 1)))"

fun clear_full_words :: "nat \<Rightarrow> nat \<Rightarrow> nat \<times> clib_bitmap_t \<times> nat \<Rightarrow> nat \<times> clib_bitmap_t \<times> nat" where
  "clear_full_words n_blocks full_words s =
     (if full_words \<ge> 8 then clear_full_words n_blocks (full_words - 8) (clear_8_words n_blocks s)
      else if full_words > 0 then clear_full_words n_blocks (full_words - 1) (clear_word n_blocks s)
      else s)"

declare clear_full_words.simps [simp del]

definition shift_huge :: "clib_bitmap_t \<Rightarrow> u32 \<Rightarrow> u32 \<Rightarrow> u32 \<Rightarrow> nat \<times> clib_bitmap_t" where
  "shift_huge window sq inc window_size =
     (let window_lower_bound = (sq + 1) AND (window_size - 1);
          window_next_lower_bound = (window_lower_bound + inc) AND (window_size - 1);
          n_blocks = unat window_size div 64;
          i_block = unat window_lower_bound div 64;
          i_word_start = unat window_lower_bound mod 64;
          i_word_end = unat window_next_lower_bound mod 64
      in
      if i_word_start + unat inc \<le> 64
      then let mask = push_bit i_word_start (pow2_mask (unat inc))
           in (count_set_bits (window ! i_block AND mask), window[i_block := window ! i_block AND NOT mask])
      else let full_words = (unat inc + i_word_start - 64 - i_word_end) div 64;
               mask = push_bit i_word_start (NOT 0);
               seen = count_set_bits (window ! i_block AND mask);
               window = window[i_block := window ! i_block AND NOT mask];
               i_block = (i_block + 1) AND (n_blocks - 1);
               (seen, window, i_block) = clear_full_words n_blocks full_words (seen, window, i_block);
               mask = pow2_mask i_word_end
           in (seen + count_set_bits (window ! i_block AND mask),
               window[i_block := window ! i_block AND NOT mask]))"

definition ipsec_sa_anti_replay_window_shift ::
  "'a ipsec_sa_replay_scheme \<Rightarrow> u32 \<Rightarrow> bool \<Rightarrow> nat \<times> 'a ipsec_sa_replay_scheme" where
  "ipsec_sa_anti_replay_window_shift sa inc ar_huge =
     (let window_size = IPSEC_SA_ANTI_REPLAY_WINDOW_SIZE_KNOWN_WIN sa ar_huge in
      if inc < window_size
      then
        (if ar_huge
         then let (seen, window) = shift_huge (replay_window_huge sa) (seq sa) inc window_size;
                  window = snd (clib_bitmap_set_no_check window (unat ((seq sa + inc) AND (window_size - 1))) True)
              in (unat inc - seen, sa\<lparr>replay_window_huge := window\<rparr>)
         else let old = replay_window sa AND pow2_mask (unat inc);
                  seen = count_set_bits old
              in (unat inc - seen,
                  sa\<lparr>replay_window := drop_bit (unat inc) (replay_window sa) OR push_bit (unat window_size - 1) 1\<rparr>))
      else
        let n_lost = unat window_size - IPSEC_SA_ANTI_REPLAY_WINDOW_N_SEEN_KNOWN_WIN sa ar_huge;
            n_lost = n_lost + (unat inc - unat window_size)
        in if ar_huge
           then let window = clib_bitmap_zero (replay_window_huge sa);
                    window = snd (clib_bitmap_set_no_check window (unat ((seq sa + inc) AND (window_size - 1))) True)
                in (n_lost, sa\<lparr>replay_window_huge := window\<rparr>)
           else (n_lost, sa\<lparr>replay_window := push_bit (unat window_size - 1) 1\<rparr>))"

text \<open>The marking of a number inside the window, which the code repeats in three branches.\<close>

definition mark_seen :: "'a ipsec_sa_replay_scheme \<Rightarrow> u32 \<Rightarrow> u32 \<Rightarrow> bool \<Rightarrow> 'a ipsec_sa_replay_scheme" where
  "mark_seen sa sq pos ar_huge =
     (let window_size = IPSEC_SA_ANTI_REPLAY_WINDOW_SIZE_KNOWN_WIN sa ar_huge in
      if ar_huge
      then sa\<lparr>replay_window_huge :=
             snd (clib_bitmap_set_no_check (replay_window_huge sa) (unat (sq AND (window_size - 1))) True)\<rparr>
      else sa\<lparr>replay_window := replay_window sa OR push_bit (unat (window_size - 1 - pos)) 1\<rparr>)"

definition ipsec_sa_anti_replay_advance ::
  "'a ipsec_sa_replay_scheme \<Rightarrow> u32 \<Rightarrow> u32 \<Rightarrow> bool \<Rightarrow> nat \<times> 'a ipsec_sa_replay_scheme" where
  "ipsec_sa_anti_replay_advance sa sq hi_seq ar_huge =
     (if ipsec_sa_is_set IPSEC_SA_FLAG_USE_ESN sa
      then
        let wrap = sint (hi_seq - seq_hi sa) in
        if wrap = 0 \<and> sq > seq sa
        then let (n_lost, sa) = ipsec_sa_anti_replay_window_shift sa (sq - seq sa) ar_huge
             in (n_lost, sa\<lparr>seq := sq\<rparr>)
        else if wrap > 0
        then let (n_lost, sa) = ipsec_sa_anti_replay_window_shift sa (sq + NOT (seq sa) + 1) ar_huge
             in (n_lost, sa\<lparr>seq := sq, seq_hi := hi_seq\<rparr>)
        else if wrap < 0 then (0, mark_seen sa sq (NOT sq + seq sa + 1) ar_huge)
        else (0, mark_seen sa sq (seq sa - sq) ar_huge)
      else
        if sq > seq sa
        then let (n_lost, sa) = ipsec_sa_anti_replay_window_shift sa (sq - seq sa) ar_huge
             in (n_lost, sa\<lparr>seq := sq\<rparr>)
        else (0, mark_seen sa sq (seq sa - sq) ar_huge))"

subsection \<open>A new SA\<close>

text \<open>What \<open>ipsec_sa_add_and_lock\<close> does to the window of a new SA, whose memory is zeroed: a size above 64 selects the
  bitmap, and the size is rounded up to a power of two. The shift is of a 32-bit \<open>int\<close>.\<close>

definition ipsec_sa_select_window :: "u32 \<Rightarrow> 'a ipsec_sa_replay_scheme \<Rightarrow> 'a ipsec_sa_replay_scheme" where
  "ipsec_sa_select_window anti_replay_window_size sa =
     (if ipsec_sa_is_set IPSEC_SA_FLAG_USE_ANTI_REPLAY sa \<and> anti_replay_window_size > 64
      then ipsec_sa_set IPSEC_SA_FLAG_ANTI_REPLAY_HUGE sa else sa)"

definition ipsec_sa_init_window :: "u32 \<Rightarrow> 'a ipsec_sa_replay_scheme \<Rightarrow> 'a ipsec_sa_replay_scheme" where
  "ipsec_sa_init_window anti_replay_window_size sa =
     (if ipsec_sa_is_set IPSEC_SA_FLAG_ANTI_REPLAY_HUGE sa
      then let anti_replay_window_size = push_bit (max_log2 (ucast anti_replay_window_size)) 1 :: u32
           in sa\<lparr>replay_window_huge := clib_bitmap_set_region [] 0 True (unat anti_replay_window_size)\<rparr>
      else sa\<lparr>replay_window := NOT 0\<rparr>)"

definition ipsec_sa_new_replay :: "u16 \<Rightarrow> u32 \<Rightarrow> ipsec_sa_replay" where
  "ipsec_sa_new_replay fl anti_replay_window_size =
     ipsec_sa_init_window anti_replay_window_size
       (ipsec_sa_select_window anti_replay_window_size
          \<lparr>replay_window = 0, replay_window_huge = [], seq = 0, seq_hi = 0, flags = fl\<rparr>)"

end
