(* ===== verification/Replay_Window.thy ===== *)
theory Replay_Window
  imports Anti_Replay
begin

text \<open>
  The two representations of the anti-replay window as implementations of one interface,
  \<open>replay_win\<close>: a row of marks, the first for the highest number received and one for each of the
  numbers before it. The window in a word is a shift register; the window in a bitmap is a ring indexed
  by the sequence number, of which \<open>shift_huge\<close> clears the section that falls out.
\<close>

unbundle bit_operations_syntax

subsection \<open>Clearing a section of the ring\<close>

text \<open>\<open>cleared w w' p m seen\<close>: \<open>m\<close> bits of the ring from position \<open>p\<close> on were cleared, of which \<open>seen\<close> were
  set.\<close>

definition cleared :: "clib_bitmap_t \<Rightarrow> clib_bitmap_t \<Rightarrow> nat \<Rightarrow> nat \<Rightarrow> nat \<Rightarrow> bool" where
  "cleared w w' p m seen \<longleftrightarrow> length w' = length w \<and>
     (\<forall>i. clib_bitmap_get w' i \<longleftrightarrow> clib_bitmap_get w i \<and> \<not> (\<exists>d<m. i = (p + d) mod (64 * length w))) \<and>
     card {i. clib_bitmap_get w' i} + seen = card {i. clib_bitmap_get w i}"

lemma cleared_append:
  assumes "cleared w w1 p a s1" "cleared w1 w2 (p + a) b s2"
  shows "cleared w w2 p (a + b) (s1 + s2)"
proof -
  have "(\<exists>d<a + b. i = (p + d) mod n) \<longleftrightarrow> (\<exists>d<a. i = (p + d) mod n) \<or> (\<exists>d<b. i = (p + a + d) mod n)" for i n
  proof
    assume "\<exists>d<a + b. i = (p + d) mod n"
    then obtain d where d: "d < a + b" "i = (p + d) mod n" by blast
    show "(\<exists>d<a. i = (p + d) mod n) \<or> (\<exists>d<b. i = (p + a + d) mod n)"
    proof (cases "d < a")
      case False
      then have "d - a < b" "i = (p + a + (d - a)) mod n" using d by simp_all
      then show ?thesis by blast
    qed (use d in blast)
  next
    assume "(\<exists>d<a. i = (p + d) mod n) \<or> (\<exists>d<b. i = (p + a + d) mod n)"
    then show "\<exists>d<a + b. i = (p + d) mod n"
      by (metis add.assoc nat_add_left_cancel_less trans_less_add1)
  qed
  with assms show ?thesis by (auto simp: cleared_def)
qed

lemma cleared_start: "p mod (64 * length w) = q mod (64 * length w) \<Longrightarrow> cleared w w' p m s = cleared w w' q m s"
  by (simp add: cleared_def) (metis mod_add_left_eq)

lemma cleared_0: "cleared w w p 0 0"
  by (simp add: cleared_def)

text \<open>Within one word.\<close>

lemma cleared_word:
  assumes b: "b < length w" and m: "st + m \<le> 64"
  shows "cleared w (w[b := w ! b AND NOT (push_bit st (pow2_mask m))]) (64 * b + st) m
    (count_set_bits (w ! b AND push_bit st (pow2_mask m)))"
proof -
  let ?mask = "push_bit st (pow2_mask m)" and ?n = "64 * length w"
  let ?w = "w[b := w ! b AND NOT ?mask]"
  have mask: "bit ?mask j \<longleftrightarrow> st \<le> j \<and> j < st + m" for j
    using m by (auto simp: bit_simps)
  have pos: "(64 * b + st + d) mod ?n = 64 * b + st + d" if "d < m" for d
    using b m that by (intro mod_less) linarith
  have rng: "(\<exists>d<m. i = (64 * b + st + d) mod ?n) \<longleftrightarrow> i div 64 = b \<and> st \<le> i mod 64 \<and> i mod 64 < st + m" for i
  proof
    assume "\<exists>d<m. i = (64 * b + st + d) mod ?n"
    then obtain d where d: "d < m" "i = 64 * b + (st + d)" using pos by (metis add.assoc)
    then show "i div 64 = b \<and> st \<le> i mod 64 \<and> i mod 64 < st + m" using m by auto
  next
    assume i: "i div 64 = b \<and> st \<le> i mod 64 \<and> i mod 64 < st + m"
    then have "i = 64 * b + st + (i mod 64 - st)" "i mod 64 - st < m"
      using div_mult_mod_eq [of i 64] by linarith+
    then show "\<exists>d<m. i = (64 * b + st + d) mod ?n" using pos by metis
  qed
  have get: "clib_bitmap_get ?w i \<longleftrightarrow> clib_bitmap_get w i \<and> \<not> (i div 64 = b \<and> bit ?mask (i mod 64))" for i
    using b by (auto simp: get_word_at word_at_update nth_word_at bit_simps)
  let ?A = "{i. clib_bitmap_get w i \<and> i div 64 = b \<and> bit ?mask (i mod 64)}"
  have "?A = (\<lambda>j. 64 * b + j) ` {j. bit (w ! b AND ?mask) j}"
  proof (intro set_eqI iffI)
    fix i assume "i \<in> ?A"
    then have "i = 64 * b + i mod 64" "bit (w ! b AND ?mask) (i mod 64)"
      using b div_mult_mod_eq [of i 64] by (auto simp: get_word_at nth_word_at bit_and_iff)
    then show "i \<in> (\<lambda>j. 64 * b + j) ` {j. bit (w ! b AND ?mask) j}" by blast
  next
    fix i assume "i \<in> (\<lambda>j. 64 * b + j) ` {j. bit (w ! b AND ?mask) j}"
    then obtain j where j: "i = 64 * b + j" "bit (w ! b AND ?mask) j" by blast
    then have "j < 64" using bit_uword_bound by blast
    with j b show "i \<in> ?A" by (simp add: get_word_at nth_word_at bit_and_iff)
  qed
  then have A: "card ?A = count_set_bits (w ! b AND ?mask)"
    by (simp add: card_image inj_on_def count_set_bits_card)
  have U: "{i. clib_bitmap_get w i} = {i. clib_bitmap_get ?w i} \<union> ?A"
    and D: "{i. clib_bitmap_get ?w i} \<inter> ?A = {}"
    unfolding get by blast+
  have "finite ?A" by (rule finite_subset [OF _ finite_bits [of w]]) blast
  then have "card {i. clib_bitmap_get w i} = card {i. clib_bitmap_get ?w i} + card ?A"
    unfolding U by (intro card_Un_disjoint finite_bits D)
  with A show ?thesis unfolding cleared_def rng get mask by simp
qed

subsection \<open>The loop over whole words\<close>

lemma and_pow2_minus_1: "(i :: nat) AND (2 ^ k - Suc 0) = i mod 2 ^ k"
proof -
  have "2 ^ k - Suc 0 = mask k" by (simp add: mask_eq_exp_minus_1)
  then show ?thesis by (simp only: take_bit_eq_mask [symmetric] take_bit_eq_mod)
qed

lemma mod_cancel_lt:
  assumes "(i + a) mod n = (i + b) mod n" "a < n" "b < (n :: nat)" shows "a = b"
proof -
  obtain q r where "i + a + n * q = i + b + n * r" using assms(1) by (auto simp: nat_mod_eq_iff)
  then have "a mod n = b mod n" by (simp add: nat_mod_eq_iff) blast
  with assms show ?thesis by simp
qed

lemma clear_words_iterate:
  assumes n: "n = 2 ^ k" and i: "i < n" and m: "m \<le> n"
  shows "(clear_word n ^^ m) (seen, w, i) =
    (fold (\<lambda>b seen. seen + count_set_bits (w ! b)) (map (\<lambda>j. (i + j) mod n) [0..<m]) seen,
     fold (\<lambda>b w. w[b := 0]) (map (\<lambda>j. (i + j) mod n) [0..<m]) w, (i + m) mod n)"
  using m
proof (induction m)
  case 0
  then show ?case using i by simp
next
  case (Suc m)
  have keep: "fold (\<lambda>b w. w[b := 0]) bs w ! c = w ! c" if "c \<notin> set bs" for bs c and w :: clib_bitmap_t
    using that by (induction bs arbitrary: w) auto
  have "(i + m) mod n \<notin> set (map (\<lambda>j. (i + j) mod n) [0..<m])"
    using mod_cancel_lt [of i m n] Suc.prems by fastforce
  from keep [OF this, of w] Suc show ?case
    by (simp add: clear_word_def n and_pow2_minus_1 mod_Suc_eq)
qed

lemma clear_8_words_iterate:
  assumes "n = 2 ^ k" "i < n" "8 \<le> n"
  shows "clear_8_words n (seen, w, i) = (clear_word n ^^ 8) (seen, w, i)"
proof -
  have "map (\<lambda>j. (i + j) mod n) [0..<8] = (i + 0) mod n # map (\<lambda>j. (i + j) mod n) [1..<8]"
    by (simp add: upt_conv_Cons)
  then have "i # map (\<lambda>j. (i + j) mod n) [1..<8] = map (\<lambda>j. (i + j) mod n) [0..<8]" using assms(2) by simp
  moreover have "x AND (n - 1) = x mod n" for x by (simp add: assms(1) and_pow2_minus_1)
  ultimately show ?thesis
    unfolding clear_words_iterate [OF assms] clear_8_words_def Let_def prod.case by simp
qed

lemma clear_word_block:
  assumes "n = 2 ^ k" "snd (snd s) < n" shows "snd (snd ((clear_word n ^^ m) s)) < n"
  using assms(2) by (induction m) (auto simp: assms(1) clear_word_def and_pow2_minus_1 split: prod.splits)

lemma clear_full_words_iterate:
  assumes "n = 2 ^ k" "snd (snd s) < n" "f \<le> n"
  shows "clear_full_words n f s = (clear_word n ^^ f) s"
  using assms(2,3)
proof (induction f arbitrary: s rule: less_induct)
  case (less f)
  have step: "clear_full_words n (f - m) ((clear_word n ^^ m) s) = (clear_word n ^^ f) s" if "0 < m" "m \<le> f" for m
  proof -
    have "clear_full_words n (f - m) ((clear_word n ^^ m) s) = (clear_word n ^^ (f - m)) ((clear_word n ^^ m) s)"
      using less.prems that by (intro less.IH clear_word_block [OF assms(1)]) auto
    also have "\<dots> = (clear_word n ^^ f) s"
      using that by (simp only: funpow_add [unfolded comp_def, THEN fun_cong, symmetric] le_add_diff_inverse2)
    finally show ?thesis .
  qed
  obtain seen w i where s: "s = (seen, w, i)" by (cases s)
  show ?case
  proof (cases "f \<ge> 8")
    case True
    then have "clear_full_words n f s = clear_full_words n (f - 8) ((clear_word n ^^ 8) s)"
      using less.prems s clear_8_words_iterate [OF assms(1), of i] by (subst clear_full_words.simps) simp
    with step [of 8] True show ?thesis by simp
  next
    case False
    with step [of 1] show ?thesis by (subst clear_full_words.simps) auto
  qed
qed

lemma cleared_whole_word:
  assumes "b < length w" shows "cleared w (w[b := 0]) (64 * b) 64 (count_set_bits (w ! b))"
proof -
  have "pow2_mask 64 = (- 1 :: uword)" by (rule bit_eqI) (simp add: bit_simps)
  with cleared_word [OF assms, of 0 64] show ?thesis by simp
qed

lemma block_start: "64 * (c mod n) mod (64 * n) = (64 * c :: nat) mod (64 * n)"
  by (simp only: mult_mod_right mod_mod_trivial)

lemma cleared_words:
  assumes n: "n = 2 ^ k" "length w = n" and i: "i < n"
  shows "\<exists>s w'. (clear_word n ^^ f) (seen, w, i) = (seen + s, w', (i + f) mod n) \<and> cleared w w' (64 * i) (64 * f) s"
proof (induction f)
  case 0
  then show ?case using i by (simp add: cleared_0)
next
  case (Suc f)
  then obtain s w' where IH: "(clear_word n ^^ f) (seen, w, i) = (seen + s, w', (i + f) mod n)"
    "cleared w w' (64 * i) (64 * f) s" by blast
  let ?b = "(i + f) mod n"
  have l: "length w' = n" using IH(2) n by (simp add: cleared_def)
  have "cleared w' (w'[?b := 0]) (64 * ?b) 64 (count_set_bits (w' ! ?b))"
    using l i by (intro cleared_whole_word) simp
  moreover have "64 * ?b mod (64 * length w') = (64 * i + 64 * f) mod (64 * length w')"
    unfolding l block_start by (simp add: algebra_simps)
  ultimately have "cleared w' (w'[?b := 0]) (64 * i + 64 * f) 64 (count_set_bits (w' ! ?b))"
    using cleared_start [of "64 * ?b" w'] by simp
  from cleared_append [OF IH(2) this]
  have "cleared w (w'[?b := 0]) (64 * i) (64 * Suc f) (s + count_set_bits (w' ! ?b))" by (simp add: algebra_simps)
  moreover have "(clear_word n ^^ Suc f) (seen, w, i) = (seen + (s + count_set_bits (w' ! ?b)), w'[?b := 0], (i + Suc f) mod n)"
    using IH(1) by (simp add: clear_word_def n(1) and_pow2_minus_1 mod_Suc_eq)
  ultimately show ?case by blast
qed

text \<open>A window size is a power of two, so that the code can reduce by a mask.\<close>

definition ring_size :: "nat \<Rightarrow> bool" where
  "ring_size n \<longleftrightarrow> (\<exists>k\<le>31. 6 \<le> k \<and> n = 2 ^ k)"

lemma ring_mask:
  assumes "ring_size n" shows "unat ((x :: u32) AND (of_nat n - 1)) = unat x mod n"
proof -
  obtain k where k: "k \<le> 31" "n = 2 ^ k" using assms by (auto simp: ring_size_def)
  have "(of_nat n - 1 :: u32) = mask k" by (simp add: k mask_eq_exp_minus_1)
  then have "unat (x AND (of_nat n - 1)) = unat (take_bit k x)" by (simp only: take_bit_eq_mask)
  also have "\<dots> = take_bit k (unat x)" by (rule unsigned_take_bit_eq)
  also have "\<dots> = unat x mod n" by (simp only: take_bit_eq_mod k)
  finally show ?thesis .
qed

lemma ring_facts:
  assumes "ring_size n"
  shows "64 \<le> n" "n < 2 ^ 32" "n dvd 2 ^ 32" "unat (of_nat n :: u32) = n" "64 dvd n"
proof -
  obtain k where k: "k \<le> 31" "6 \<le> k" "n = 2 ^ k" using assms by (auto simp: ring_size_def)
  show "64 \<le> n" using power_increasing [of 6 k "2::nat"] k by simp
  show n: "n < 2 ^ 32" unfolding k(3) using k(1) by (intro power_strict_increasing) auto
  show "n dvd 2 ^ 32" unfolding k(3) using k(1) by (intro le_imp_power_dvd) simp
  show "64 dvd n" using le_imp_power_dvd [of 6 k "2::nat"] k by simp
  show "unat (of_nat n :: u32) = n" using n by (simp add: unsigned_of_nat take_bit_nat_eq_self)
qed

lemma ring_add:
  assumes "ring_size n" shows "unat (x + y :: u32) mod n = (unat x + unat y) mod n"
  using ring_facts(3) [OF assms] by (simp add: unat_word_ariths mod_mod_cancel)

lemma ring_sub:
  assumes "ring_size n" "p < n" shows "(unat (x - of_nat p :: u32) + p) mod n = unat x mod n"
proof -
  have "unat (of_nat p :: u32) = p" using assms(2) ring_facts(2) [OF assms(1)] by (simp add: unsigned_of_nat take_bit_nat_eq_self)
  with ring_add [OF assms(1), of "x - of_nat p" "of_nat p"] show ?thesis by simp
qed

lemma ring_blocks:
  assumes "ring_size n" obtains k where "n = 64 * 2 ^ k"
proof -
  obtain k where k: "6 \<le> k" "n = 2 ^ k" using assms by (auto simp: ring_size_def)
  then have "n = 64 * 2 ^ (k - 6)" using power_add [of "2::nat" 6 "k - 6"] by simp
  then show thesis by (rule that)
qed

lemma shift_huge_cleared:
  assumes r: "ring_size n" and w: "64 * length w = n" and inc: "unat inc < n"
  and sh: "shift_huge w sq inc (of_nat n) = (s, w')"
  shows "cleared w w' (unat (sq + 1)) (unat inc) s"
proof -
  define L where "L = unat (sq + 1) mod n"
  define b st E where "b = L div 64" and "st = L mod 64" and "E = (L + unat inc) mod 64"
  define nb where "nb = length w"
  obtain k where "n = 64 * 2 ^ k" by (rule ring_blocks [OF r])
  with w have nb: "nb = 2 ^ k" by (simp add: nb_def)
  have n: "n = 64 * nb" using w by (simp add: nb_def)
  have n_div: "nb = n div 64" "0 < nb" unfolding n by (simp_all add: nb)
  have bst: "L = 64 * b + st" "st < 64" by (simp_all add: b_def st_def)
  have "L < 64 * nb" using n n_div(2) by (simp add: L_def)
  then have b: "b < nb" by (simp add: b_def)
  have lb: "unat ((sq + 1) AND (of_nat n - 1)) = L" using ring_mask [OF r] by (simp add: L_def)
  have "unat (v + inc AND (of_nat n - 1)) mod 64 = E" if "unat v = L" for v
    using ring_facts(5) [OF r] that by (simp add: ring_mask [OF r] ring_add [OF r] E_def mod_mod_cancel)
  note next_lb = this [OF lb]
  have L_pos: "cleared w v (unat (sq + 1)) m s = cleared w v L m s" for v m s
    using n nb_def by (intro cleared_start) (simp add: L_def)
  note sh = sh [unfolded shift_huge_def Let_def lb next_lb ring_facts(4) [OF r] n_div(1) [symmetric],
      folded b_def st_def]
  show ?thesis
  proof (cases "st + unat inc \<le> 64")
    case True
    then show ?thesis
      using sh cleared_word [of b w st "unat inc"] b bst nb_def L_pos by simp
  next
    case False
    define f where "f = (unat inc + st - 64 - E) div 64"
    have mask_blocks: "i AND (nb - 1) = i mod nb" for i by (simp add: nb and_pow2_minus_1)
    let ?x = "unat inc + st - 64"
    have "E = (unat inc + st) mod 64" unfolding E_def st_def by (simp add: mod_simps add.commute)
    then have E: "E = ?x mod 64" using False le_mod_geq [of 64 "unat inc + st"] by simp
    have "?x - ?x mod 64 = 64 * (?x div 64)" by (rule minus_mod_eq_mult_div)
    then have "f = ?x div 64" by (simp add: f_def E)
    then have f: "unat inc = (64 - st) + 64 * f + E" "E < 64"
      using False bst(2) mult_div_mod_eq [of 64 ?x] E by linarith+
    then have f_le: "f \<le> nb" using inc n by linarith
    have all: "push_bit st (NOT 0) = push_bit st (pow2_mask (64 - st) :: uword)"
      using bst(2) by (intro bit_eqI) (auto simp: bit_simps)
    let ?w1 = "w[b := w ! b AND NOT (push_bit st (pow2_mask (64 - st)))]"
    let ?s1 = "count_set_bits (w ! b AND push_bit st (pow2_mask (64 - st)))"
    let ?i = "(b + 1) mod nb"
    have l1: "length ?w1 = nb" by (simp add: nb_def)
    have c1: "cleared w ?w1 L (64 - st) ?s1"
      using cleared_word [of b w st "64 - st"] b bst nb_def by simp
    obtain s2 w2 where it: "(clear_word nb ^^ f) (?s1, ?w1, ?i) = (?s1 + s2, w2, (?i + f) mod nb)"
      and c2: "cleared ?w1 w2 (64 * ?i) (64 * f) s2"
      using cleared_words [OF nb l1, of ?i f ?s1] n_div(2) by auto
    have pos2: "64 * ?i mod (64 * nb) = (L + (64 - st)) mod (64 * nb)"
      unfolding block_start using bst by (simp add: algebra_simps)
    have c2: "cleared ?w1 w2 (L + (64 - st)) (64 * f) s2"
      using c2 cleared_start [of "64 * ?i" ?w1] pos2 l1 by simp
    let ?j = "(?i + f) mod nb"
    let ?w3 = "w2[?j := w2 ! ?j AND NOT (pow2_mask E)]" and ?s3 = "count_set_bits (w2 ! ?j AND pow2_mask E)"
    have l2: "length w2 = nb" using c2 l1 by (simp add: cleared_def)
    have "64 * ?j mod (64 * nb) = (L + ((64 - st) + 64 * f)) mod (64 * nb)"
      unfolding mod_add_left_eq block_start using bst by (simp add: algebra_simps)
    moreover have "cleared w2 ?w3 (64 * ?j) E ?s3"
      using cleared_word [of ?j w2 0 E] f(2) n_div(2) l2 by simp
    ultimately have c3: "cleared w2 ?w3 (L + ((64 - st) + 64 * f)) E ?s3"
      using cleared_start [of "64 * ?j" w2] l2 by simp
    have "clear_full_words nb f (?s1, ?w1, ?i) = (?s1 + s2, w2, ?j)"
      using clear_full_words_iterate [OF nb, of "(?s1, ?w1, ?i)" f] it f_le n_div(2) by simp
    then have "s = ?s1 + s2 + ?s3" "w' = ?w3"
      using sh False unfolding all f_def [symmetric] mask_blocks by simp_all
    then show ?thesis
      using cleared_append [OF cleared_append [OF c1 c2] c3] by (simp add: L_pos f(1))
  qed
qed

end
