(* ===== verification/Replay_Laws.thy ===== *)
theory Replay_Laws
  imports Replay_Window
begin

text \<open>
  The interface of an anti-replay window and its two implementations. A window is a row of marks:
  \<open>win sa p\<close> is the mark of the number \<open>p\<close> before the highest one received. The interface says what
  the check reads, what a shift moves and counts as lost, and what marking a number changes; the
  64-bit window and the bitmap window provide it.
\<close>

unbundle bit_operations_syntax

locale replay_win =
  fixes ar_huge :: bool
    and ok :: "'a ipsec_sa_replay_scheme \<Rightarrow> bool"
    and wsize :: "'a ipsec_sa_replay_scheme \<Rightarrow> nat"
    and win :: "'a ipsec_sa_replay_scheme \<Rightarrow> nat \<Rightarrow> bool"
  assumes size_ring: "ok sa \<Longrightarrow> ring_size (wsize sa)"
    and size_law: "ok sa \<Longrightarrow> IPSEC_SA_ANTI_REPLAY_WINDOW_SIZE_KNOWN_WIN sa ar_huge = of_nat (wsize sa)"
    and check_law: "ok sa \<Longrightarrow> p < wsize sa \<Longrightarrow> ipsec_sa_anti_replay_check sa (seq sa - of_nat p) ar_huge = win sa p"
    and shift_keeps: "ok sa \<Longrightarrow> ipsec_sa_anti_replay_window_shift sa inc ar_huge = (lost, sa1) \<Longrightarrow>
      ok (sa1\<lparr>seq := sq\<rparr>) \<and> wsize (sa1\<lparr>seq := sq\<rparr>) = wsize sa"
    and shift_win: "ok sa \<Longrightarrow> ipsec_sa_anti_replay_window_shift sa inc ar_huge = (lost, sa1) \<Longrightarrow>
      0 < unat inc \<Longrightarrow> p < wsize sa \<Longrightarrow>
      win (sa1\<lparr>seq := seq sa + inc\<rparr>) p \<longleftrightarrow> p = 0 \<or> unat inc \<le> p \<and> win sa (p - unat inc)"
    and shift_lost: "ok sa \<Longrightarrow> ipsec_sa_anti_replay_window_shift sa inc ar_huge = (lost, sa1) \<Longrightarrow>
      lost + card {p. p < wsize sa \<and> wsize sa \<le> p + unat inc \<and> win sa p} = unat inc"
    and mark_keeps: "ok sa \<Longrightarrow> ok (mark_seen sa sq pos ar_huge) \<and> wsize (mark_seen sa sq pos ar_huge) = wsize sa"
    and mark_win: "ok sa \<Longrightarrow> p < wsize sa \<Longrightarrow> q < wsize sa \<Longrightarrow>
      win (mark_seen sa (seq sa - of_nat p) (of_nat p) ar_huge) q \<longleftrightarrow> q = p \<or> win sa q"
    and hi_law: "ok (sa\<lparr>seq_hi := h\<rparr>) = ok sa" "wsize (sa\<lparr>seq_hi := h\<rparr>) = wsize sa"
      "win (sa\<lparr>seq_hi := h\<rparr>) = win sa"

subsection \<open>The window in a word\<close>

definition win64 :: "'a ipsec_sa_replay_scheme \<Rightarrow> nat \<Rightarrow> bool" where
  "win64 sa p = bit (replay_window sa) (63 - p)"

lemma unat_of_nat_lt: "n < 2 ^ 32 \<Longrightarrow> unat (of_nat n :: u32) = n"
  by (simp add: unsigned_of_nat take_bit_nat_eq_self)

lemma size64: "IPSEC_SA_ANTI_REPLAY_WINDOW_SIZE_KNOWN_WIN sa False = of_nat 64"
  by (simp add: IPSEC_SA_ANTI_REPLAY_WINDOW_SIZE_KNOWN_WIN_def)

lemma index64:
  assumes "p < 64" shows "unat (64 - 1 - of_nat p :: u32) = 63 - p"
proof -
  have "(64 - 1 - of_nat p :: u32) = of_nat (63 - p)" using assms by (simp add: of_nat_diff)
  then show ?thesis using unat_of_nat_lt [of "63 - p"] by simp
qed

lemma check64:
  assumes "p < 64" shows "ipsec_sa_anti_replay_check sa (seq sa - of_nat p) False = win64 sa p"
proof -
  have "64 + (seq sa - of_nat p) - seq sa - 1 = (64 - 1 - of_nat p :: u32)" by simp
  moreover have "drop_bit n x AND 1 \<noteq> 0 \<longleftrightarrow> bit x n" for x :: uword and n
    by (simp add: and_one_eq odd_iff_mod_2_eq_one [symmetric] bit_iff_odd_drop_bit)
  ultimately show ?thesis
    unfolding ipsec_sa_anti_replay_check_def size64 win64_def using index64 [OF assms] by simp
qed

lemma bit_push_1: "bit (push_bit n 1 :: uword) i \<longleftrightarrow> i = n \<and> n < 64"
  by (auto simp: bit_simps)

lemma bit_shift64:
  assumes "inc < 64" "p < 64"
  shows "bit (drop_bit inc x OR push_bit 63 1 :: uword) (63 - p) \<longleftrightarrow> p = 0 \<or> inc \<le> p \<and> bit x (63 - (p - inc))"
proof (cases "inc \<le> p")
  case True
  then have "inc + (63 - p) = 63 - (p - inc)" using assms by linarith
  then show ?thesis using True assms unfolding bit_or_iff bit_push_1 bit_drop_bit_eq comp_def by auto
next
  case False
  then have "\<not> bit x (inc + (63 - p))" using assms bit_uword_bound [of x] by force
  then show ?thesis using False assms unfolding bit_or_iff bit_push_1 bit_drop_bit_eq comp_def by auto
qed

lemma card_low64:
  "card {p. p < 64 \<and> 64 \<le> p + m \<and> bit (x :: uword) (63 - p)} = card {i. i < m \<and> bit x i}" (is "card ?A = card ?B")
proof -
  have "?B = (\<lambda>p. 63 - p) ` ?A"
  proof (intro set_eqI iffI)
    fix i assume i: "i \<in> ?B"
    then have "i < 64" using bit_uword_bound by blast
    with i have "63 - i \<in> ?A" "i = 63 - (63 - i)" by auto
    then show "i \<in> (\<lambda>p. 63 - p) ` ?A" by blast
  qed auto
  moreover have "inj_on (\<lambda>p. 63 - p) ?A" by (auto simp: inj_on_def)
  ultimately show ?thesis by (simp add: card_image)
qed

lemma count_low64: "count_set_bits (x AND pow2_mask m) = card {i. i < m \<and> bit x i}"
  by (rule trans [OF count_set_bits_card], rule arg_cong [of _ _ card]) (auto simp: bit_simps dest: bit_uword_bound)

lemma shift64:
  assumes "ipsec_sa_anti_replay_window_shift sa inc False = (lost, sa1)"
  shows "0 < unat inc \<Longrightarrow> p < 64 \<Longrightarrow>
      win64 (sa1\<lparr>seq := seq sa + inc\<rparr>) p \<longleftrightarrow> p = 0 \<or> unat inc \<le> p \<and> win64 sa (p - unat inc)" (is "_ \<Longrightarrow> _ \<Longrightarrow> ?win")
    and "lost + card {p. p < 64 \<and> 64 \<le> p + unat inc \<and> win64 sa p} = unat inc" (is ?lost)
proof -
  have lt: "inc < 64 \<longleftrightarrow> unat inc < 64" by (simp add: word_less_nat_alt)
  note sh = assms [unfolded ipsec_sa_anti_replay_window_shift_def size64 Let_def of_nat_numeral lt]
  let ?seen = "\<lambda>m. card {i. i < m \<and> bit (replay_window sa) i}"
  have bound: "?seen m \<le> m" for m
    using card_mono [of "{..<m}" "{i. i < m \<and> bit (replay_window sa) i}"] by auto
  have over: "?seen m = ?seen 64" if "64 \<le> m" for m
    using that bit_uword_bound [of "replay_window sa"]
    by (intro arg_cong [of _ _ card] Collect_cong) (meson less_le_trans)
  have all: "count_set_bits (replay_window sa) = ?seen 64"
    unfolding count_set_bits_card using bit_uword_bound [of "replay_window sa"] by (intro arg_cong [of _ _ card]) auto
  have "lost + ?seen (unat inc) = unat inc"
    using sh bound [of "unat inc"] bound [of 64] over [of "unat inc"]
    by (cases "unat inc < 64") (auto simp: all count_low64 IPSEC_SA_ANTI_REPLAY_WINDOW_N_SEEN_KNOWN_WIN_def)
  then show ?lost unfolding win64_def card_low64 .
  have w: "replay_window sa1 = (if unat inc < 64 then drop_bit (unat inc) (replay_window sa) OR push_bit 63 1
      else push_bit 63 1)"
    using sh by auto
  show ?win if p: "0 < unat inc" "p < 64"
  proof (cases "unat inc < 64")
    case True
    with w have "win64 (sa1\<lparr>seq := seq sa + inc\<rparr>) p = bit (drop_bit (unat inc) (replay_window sa) OR push_bit 63 1) (63 - p)"
      by (simp add: win64_def)
    then show ?thesis unfolding bit_shift64 [OF True p(2)] win64_def .
  next
    case False
    with w have "win64 (sa1\<lparr>seq := seq sa + inc\<rparr>) p = bit (push_bit 63 1 :: uword) (63 - p)"
      by (simp add: win64_def)
    then show ?thesis using False p unfolding bit_push_1 by auto
  qed
qed

lemma mark64:
  assumes "p < 64" "q < 64"
  shows "win64 (mark_seen sa (seq sa - of_nat p) (of_nat p) False) q \<longleftrightarrow> q = p \<or> win64 sa q"
  using assms index64 [OF assms(1)] unfolding mark_seen_def size64 win64_def by (auto simp: Let_def bit_simps)

lemma ring_64: "ring_size 64"
  unfolding ring_size_def by (rule exI [of _ 6]) simp

interpretation w64: replay_win False "\<lambda>sa. True" "\<lambda>sa. 64" win64
  by unfold_locales (rule ring_64 size64 check64 shift64(1) shift64(2) mark64 TrueI conjI refl | assumption |
      simp add: win64_def fun_eq_iff)+

subsection \<open>The window in a bitmap\<close>

definition huge_size :: "'a ipsec_sa_replay_scheme \<Rightarrow> nat" where
  "huge_size sa = 64 * length (replay_window_huge sa)"

definition huge_ok :: "'a ipsec_sa_replay_scheme \<Rightarrow> bool" where
  "huge_ok sa \<longleftrightarrow> ring_size (huge_size sa)"

definition win_huge :: "'a ipsec_sa_replay_scheme \<Rightarrow> nat \<Rightarrow> bool" where
  "win_huge sa p = clib_bitmap_get (replay_window_huge sa) (unat (seq sa - of_nat p) mod huge_size sa)"

lemma size_huge: "IPSEC_SA_ANTI_REPLAY_WINDOW_SIZE_KNOWN_WIN sa True = of_nat (huge_size sa)"
  by (simp add: IPSEC_SA_ANTI_REPLAY_WINDOW_SIZE_KNOWN_WIN_def huge_size_def clib_bitmap_bytes_def)

lemma check_huge:
  "huge_ok sa \<Longrightarrow> ipsec_sa_anti_replay_check sa (seq sa - of_nat p) True = win_huge sa p"
  unfolding ipsec_sa_anti_replay_check_def size_huge huge_ok_def win_huge_def by (simp add: ring_mask)

lemma ring_back:
  assumes "ring_size n" "p < n" shows "unat (x - of_nat p :: u32) mod n = (unat x + (n - p)) mod n"
proof -
  have "unat (x - of_nat p) mod n = (unat (x - of_nat p) + p + (n - p)) mod n"
    using assms(2) by simp
  also have "\<dots> = (unat x + (n - p)) mod n" by (rule mod_add_cong [OF ring_sub [OF assms] refl])
  finally show ?thesis .
qed

lemma mod_cancel_iff: "(i + a) mod n = (i + b) mod n \<longleftrightarrow> a mod n = b mod (n :: nat)"
  by (simp only: nat_mod_eq_iff add.assoc add_left_cancel)

lemma ring_back_inj:
  assumes r: "ring_size n" and p: "p < n" and q: "q < n"
  shows "unat (x - of_nat p :: u32) mod n = unat (x - of_nat q) mod n \<longleftrightarrow> p = q"
  unfolding ring_back [OF r p] ring_back [OF r q] mod_cancel_iff
  using p q by (cases "p = 0"; cases "q = 0") auto

lemma ring_section:
  assumes "m < n" "p < (n :: nat)"
  shows "(\<exists>d<m. (i + (m + (n - p))) mod n = (i + 1 + d) mod n) \<longleftrightarrow> p < m"
proof -
  have "(m + (n - p)) mod n = (if p \<le> m then m - p else m + (n - p))"
    using assms by (auto simp: le_mod_geq)
  then have eq: "(i + (m + (n - p))) mod n = (i + 1 + d) mod n \<longleftrightarrow> 1 + d = (if p \<le> m then m - p else m + (n - p))"
    if "d < m" for d
    using assms that unfolding add.assoc [of i 1] mod_cancel_iff by auto
  show ?thesis
  proof
    assume "\<exists>d<m. (i + (m + (n - p))) mod n = (i + 1 + d) mod n"
    then obtain d where "d < m" "1 + d = (if p \<le> m then m - p else m + (n - p))" using eq by blast
    then show "p < m" using assms by (simp split: if_splits)
  next
    assume "p < m"
    with eq [of "m - p - 1"] show "\<exists>d<m. (i + (m + (n - p))) mod n = (i + 1 + d) mod n"
      by (intro exI [of _ "m - p - 1"]) simp
  qed
qed

lemma get_top_huge:
  assumes "ring_size n" "64 * length w = n"
  shows "clib_bitmap_get (snd (clib_bitmap_set_no_check w (unat ((x :: u32) AND (of_nat n - 1))) True)) i \<longleftrightarrow>
    i = unat x mod n \<or> clib_bitmap_get w i"
proof -
  have "unat x mod n < 64 * length w" using ring_facts(1) [OF assms(1)] assms(2) by simp
  then have "unat x mod n div 64 < length w" by (simp add: less_mult_imp_div_less mult.commute)
  then show ?thesis unfolding ring_mask [OF assms(1)] by (simp add: get_set_no_check)
qed

lemma mark_huge:
  assumes "huge_ok sa" "p < huge_size sa" "q < huge_size sa"
  shows "win_huge (mark_seen sa (seq sa - of_nat p) pos True) q \<longleftrightarrow> q = p \<or> win_huge sa q"
proof -
  note r = assms(1) [unfolded huge_ok_def]
  show ?thesis
    using ring_back_inj [OF r assms(3,2), of "seq sa"] get_top_huge [OF r, of "replay_window_huge sa"]
    by (auto simp: mark_seen_def size_huge Let_def win_huge_def huge_size_def)
qed

lemma card_win_huge:
  assumes "huge_ok sa" "m \<le> huge_size sa"
  shows "card {p. p < huge_size sa \<and> huge_size sa \<le> p + m \<and> win_huge sa p} =
    card {q. clib_bitmap_get (replay_window_huge sa) q \<and> (\<exists>d<m. q = (unat (seq sa + 1) + d) mod huge_size sa)}"
    (is "card ?A = card ?B")
proof -
  let ?n = "huge_size sa" and ?f = "\<lambda>p. unat (seq sa - of_nat p) mod huge_size sa"
  note r = assms(1) [unfolded huge_ok_def]
  have pos: "(unat (seq sa + 1) + d) mod ?n = ?f (?n - 1 - d)" "?n - 1 - d < ?n" "?n \<le> (?n - 1 - d) + m" if "d < m" for d
  proof -
    show "?n - 1 - d < ?n" "?n \<le> (?n - 1 - d) + m" using that assms(2) by linarith+
    then have "?f (?n - 1 - d) = (unat (seq sa) + (1 + d)) mod ?n"
      using that assms(2) unfolding ring_back [OF r \<open>?n - 1 - d < ?n\<close>] by simp
    also have "\<dots> = (unat (seq sa + 1) + d) mod ?n"
      using mod_add_cong [OF ring_add [OF r, of "seq sa" 1] refl, of d] by (simp add: add.assoc)
    finally show "(unat (seq sa + 1) + d) mod ?n = ?f (?n - 1 - d)" ..
  qed
  have "?B = ?f ` ?A"
  proof (intro set_eqI iffI)
    fix q assume "q \<in> ?B"
    then obtain d where "clib_bitmap_get (replay_window_huge sa) q" "d < m" "q = (unat (seq sa + 1) + d) mod ?n" by blast
    with pos [OF this(2)] have "q = ?f (?n - 1 - d)" "?n - 1 - d \<in> ?A" by (simp_all add: win_huge_def)
    then show "q \<in> ?f ` ?A" by blast
  next
    fix q assume "q \<in> ?f ` ?A"
    then obtain p where p: "q = ?f p" "p < ?n" "?n \<le> p + m" "win_huge sa p" by blast
    then have "q = (unat (seq sa + 1) + (?n - 1 - p)) mod ?n" "?n - 1 - p < m" using pos(1) [of "?n - 1 - p"] by auto
    with p show "q \<in> ?B" by (auto simp: win_huge_def)
  qed
  moreover have "inj_on ?f ?A" using ring_back_inj [OF r] by (auto simp: inj_on_def)
  ultimately show ?thesis by (simp add: card_image)
qed

lemma bits_in_ring:
  assumes "huge_ok sa" "clib_bitmap_get (replay_window_huge sa) q"
  shows "\<exists>d<huge_size sa. q = (unat (seq sa + 1) + d) mod huge_size sa"
proof -
  let ?n = "huge_size sa" and ?s = "unat (seq sa + 1)"
  have q: "q < ?n" using get_bound [OF assms(2)] by (simp add: huge_size_def)
  show ?thesis
  proof (intro exI conjI)
    show "(q + (?n - ?s mod ?n)) mod ?n < ?n" using q by simp
    have "?s mod ?n < ?n" using q by simp
    then have "?s mod ?n + (q + (?n - ?s mod ?n)) = q + ?n" by linarith
    then have "(?s + (q + (?n - ?s mod ?n))) mod ?n = q mod ?n"
      by (metis mod_add_left_eq mod_add_self2)
    then show "q = (?s + (q + (?n - ?s mod ?n)) mod ?n) mod ?n" using q by (simp add: mod_add_right_eq)
  qed
qed

lemma length_zero: "length (clib_bitmap_zero w) = length w"
  by (simp add: clib_bitmap_zero_def)

text \<open>What a shift of the bitmap window leaves: the section cleared, or everything when it is too long, and
  the new top marked.\<close>

lemma shift_huge_cases:
  assumes ok: "huge_ok sa" and sh: "ipsec_sa_anti_replay_window_shift sa inc True = (lost, sa1)"
  obtains w seen where
    "sa1 = sa\<lparr>replay_window_huge := snd (clib_bitmap_set_no_check w
       (unat ((seq sa + inc) AND (of_nat (huge_size sa) - 1))) True)\<rparr>" "length w = length (replay_window_huge sa)"
    "unat inc < huge_size sa" "cleared (replay_window_huge sa) w (unat (seq sa + 1)) (unat inc) seen" "lost = unat inc - seen"
  | w where
    "sa1 = sa\<lparr>replay_window_huge := snd (clib_bitmap_set_no_check w
       (unat ((seq sa + inc) AND (of_nat (huge_size sa) - 1))) True)\<rparr>" "length w = length (replay_window_huge sa)"
    "huge_size sa \<le> unat inc" "\<And>i. \<not> clib_bitmap_get w i"
    "lost = huge_size sa - card {i. clib_bitmap_get (replay_window_huge sa) i} + (unat inc - huge_size sa)"
proof -
  note r = ok [unfolded huge_ok_def]
  have lt: "inc < of_nat (huge_size sa) \<longleftrightarrow> unat inc < huge_size sa"
    by (simp add: word_less_nat_alt ring_facts(4) [OF r])
  note sh = sh [unfolded ipsec_sa_anti_replay_window_shift_def size_huge Let_def lt ring_facts(4) [OF r]]
  show thesis
  proof (cases "unat inc < huge_size sa")
    case True
    obtain seen w where w: "shift_huge (replay_window_huge sa) (seq sa) inc (of_nat (huge_size sa)) = (seen, w)"
      by fastforce
    have "cleared (replay_window_huge sa) w (unat (seq sa + 1)) (unat inc) seen"
      by (rule shift_huge_cleared [OF r _ True w]) (simp add: huge_size_def)
    then show thesis using that(1) True sh w by (auto simp: cleared_def)
  next
    case False
    then show thesis
      using that(2) [of "clib_bitmap_zero (replay_window_huge sa)"] sh get_zero [of "replay_window_huge sa"]
      by (auto simp: IPSEC_SA_ANTI_REPLAY_WINDOW_N_SEEN_KNOWN_WIN_def count_set_bits_spec length_zero)
  qed
qed

lemma shift_huge_size:
  assumes "huge_ok sa" "ipsec_sa_anti_replay_window_shift sa inc True = (lost, sa1)"
  shows "huge_size (sa1\<lparr>seq := sq\<rparr>) = huge_size sa"
  using shift_huge_cases [OF assms] by cases (simp_all add: huge_size_def)

lemma shift_huge_win:
  assumes ok: "huge_ok sa" and sh: "ipsec_sa_anti_replay_window_shift sa inc True = (lost, sa1)"
    and inc: "0 < unat inc" and p: "p < huge_size sa"
  shows "win_huge (sa1\<lparr>seq := seq sa + inc\<rparr>) p \<longleftrightarrow> p = 0 \<or> unat inc \<le> p \<and> win_huge sa (p - unat inc)"
proof -
  let ?n = "huge_size sa" and ?q = "unat (seq sa + inc - of_nat p) mod huge_size sa"
  note r = ok [unfolded huge_ok_def]
  note size = shift_huge_size [OF ok sh, of "seq sa + inc"]
  have top: "?q = unat (seq sa + inc) mod ?n \<longleftrightarrow> p = 0"
    using ring_back_inj [OF r p, of 0 "seq sa + inc"] p by simp
  show ?thesis
    using ok sh
  proof (cases rule: shift_huge_cases)
    case (1 w seen)
    have "win_huge (sa1\<lparr>seq := seq sa + inc\<rparr>) p \<longleftrightarrow> p = 0 \<or> clib_bitmap_get w ?q"
      using get_top_huge [OF r, of w] 1(1,2) top size by (simp add: win_huge_def huge_size_def)
    moreover have "?q = (unat (seq sa) + (unat inc + (?n - p))) mod ?n"
      using mod_add_cong [OF ring_add [OF r, of "seq sa" inc] refl] by (simp add: ring_back [OF r p] add.assoc)
    moreover have "(\<exists>d<unat inc. ?q = (unat (seq sa + 1) + d) mod ?n) \<longleftrightarrow> p < unat inc"
      using ring_section [of "unat inc" ?n p "unat (seq sa)"] 1(3) p calculation(2)
        mod_add_cong [OF ring_add [OF r, of "seq sa" 1] refl] by simp
    moreover have "?q = unat (seq sa - of_nat (p - unat inc)) mod ?n" if "unat inc \<le> p"
      using that by (simp add: of_nat_diff algebra_simps)
    ultimately show ?thesis using 1(4) by (auto simp: cleared_def win_huge_def huge_size_def)
  next
    case (2 w)
    then show ?thesis
      using get_top_huge [OF r, of w] top size p by (simp add: win_huge_def huge_size_def)
  qed
qed

lemma cleared_seen:
  assumes "cleared w w' p m seen"
  shows "seen = card {q. clib_bitmap_get w q \<and> (\<exists>d<m. q = (p + d) mod (64 * length w))}"
proof -
  let ?R = "{q. clib_bitmap_get w q \<and> (\<exists>d<m. q = (p + d) mod (64 * length w))}"
  have "{i. clib_bitmap_get w' i} = {i. clib_bitmap_get w i} - ?R" using assms by (auto simp: cleared_def)
  moreover have "?R \<subseteq> {i. clib_bitmap_get w i}" by blast
  moreover from this have "finite ?R" by (rule finite_subset) simp
  moreover have "card ?R \<le> card {i. clib_bitmap_get w i}" by (intro card_mono finite_bits) blast
  ultimately have "card {i. clib_bitmap_get w' i} + card ?R = card {i. clib_bitmap_get w i}"
    by (simp add: card_Diff_subset)
  moreover have "card {i. clib_bitmap_get w' i} + seen = card {i. clib_bitmap_get w i}"
    using assms unfolding cleared_def by blast
  ultimately show ?thesis by linarith
qed

lemma shift_huge_lost:
  assumes ok: "huge_ok sa" and sh: "ipsec_sa_anti_replay_window_shift sa inc True = (lost, sa1)"
  shows "lost + card {p. p < huge_size sa \<and> huge_size sa \<le> p + unat inc \<and> win_huge sa p} = unat inc"
proof -
  let ?n = "huge_size sa" and ?A = "\<lambda>m. {p. p < huge_size sa \<and> huge_size sa \<le> p + m \<and> win_huge sa p}"
  have bound: "card (?A m) \<le> m" if "m \<le> ?n" for m
  proof -
    have "?A m \<subseteq> {?n - m..<?n}" by auto
    then have "card (?A m) \<le> card {?n - m..<?n}" by (intro card_mono) simp
    with that show ?thesis by simp
  qed
  show ?thesis
    using ok sh
  proof (cases rule: shift_huge_cases)
    case (1 w seen)
    then have "seen = card (?A (unat inc))"
      using cleared_seen [OF 1(4)] card_win_huge [OF ok, of "unat inc"] by (simp add: huge_size_def)
    with 1 bound [of "unat inc"] show ?thesis by simp
  next
    case (2 w)
    have "{q. clib_bitmap_get (replay_window_huge sa) q \<and> (\<exists>d<?n. q = (unat (seq sa + 1) + d) mod ?n)} =
        {q. clib_bitmap_get (replay_window_huge sa) q}"
      using bits_in_ring [OF ok] by blast
    then have "card (?A ?n) = card {q. clib_bitmap_get (replay_window_huge sa) q}"
      using card_win_huge [OF ok, of ?n] by simp
    moreover have "?A (unat inc) = ?A ?n" using 2(3) by auto
    ultimately show ?thesis using 2(3,5) bound [of ?n] by simp
  qed
qed

lemma mark_huge_size: "huge_size (mark_seen sa sq pos True) = huge_size sa"
  by (simp add: mark_seen_def huge_size_def Let_def)

interpretation whuge: replay_win True huge_ok huge_size win_huge
  by unfold_locales
    (simp_all add: size_huge check_huge shift_huge_size shift_huge_win shift_huge_lost mark_huge mark_huge_size,
      simp_all add: huge_ok_def shift_huge_size mark_huge_size, simp_all add: huge_size_def win_huge_def fun_eq_iff)

end
