(* ===== verification/Esp_Replay.thy ===== *)
theory Esp_Replay
  imports Replay_Laws
begin

text \<open>
  Anti-replay in the ESP decrypt node, \<^verbatim>\<open>vnet/ipsec/esp_decrypt.c\<close>: the check of a packet before
  decryption, the second check and the advance of the window after it, one packet at a time and
  for a frame of packets that are decrypted together; and the sequence numbers of the sender,
  \<^verbatim>\<open>esp_seq_advance\<close> of \<^verbatim>\<open>vnet/ipsec/esp.h\<close>. The number of a packet is a natural number, of which the
  packet carries the low 32 bits.
\<close>

subsection \<open>The decrypt node\<close>

text \<open>The check before decryption: \<open>None\<close> drops the packet, \<open>Some hi\<close> is the high sequence number to
  decrypt with. The value \<open>-1\<close> is the code's \<open>~0\<close>, which this check does not read.\<close>

definition esp_decrypt_pre_check :: "'a ipsec_sa_replay_scheme \<Rightarrow> u32 \<Rightarrow> u32 option" where
  "esp_decrypt_pre_check sa sq =
     (let (drop, hi) = (if ipsec_sa_is_set IPSEC_SA_FLAG_ANTI_REPLAY_HUGE sa
                        then ipsec_sa_anti_replay_and_sn_advance sa sq (-1) False True
                        else ipsec_sa_anti_replay_and_sn_advance sa sq (-1) False False)
      in if drop then None else hi)"

text \<open>The check after decryption and the advance: \<open>None\<close> drops the packet, otherwise the result is the number
  of packets counted as lost and the new state of the SA.\<close>

definition esp_decrypt_post_check :: "'a ipsec_sa_replay_scheme \<Rightarrow> u32 \<Rightarrow> u32 \<Rightarrow> (nat \<times> 'a ipsec_sa_replay_scheme) option" where
  "esp_decrypt_post_check sa sq hi =
     (if ipsec_sa_is_set IPSEC_SA_FLAG_ANTI_REPLAY_HUGE sa
      then if fst (ipsec_sa_anti_replay_and_sn_advance sa sq hi True True) then None
           else Some (ipsec_sa_anti_replay_advance sa sq hi True)
      else if fst (ipsec_sa_anti_replay_and_sn_advance sa sq hi True False) then None
           else Some (ipsec_sa_anti_replay_advance sa sq hi False))"

text \<open>The crypto engine is outside the model: \<open>icv_ok p hi\<close> is whether packet \<open>p\<close> decrypts with the high
  sequence number \<open>hi\<close>; \<open>esp_seq p\<close> is the number in its header.\<close>

definition esp_decrypt_one ::
  "('p \<Rightarrow> u32) \<Rightarrow> ('p \<Rightarrow> u32 \<Rightarrow> bool) \<Rightarrow> 'a ipsec_sa_replay_scheme \<Rightarrow> 'p \<Rightarrow> (nat \<times> 'a ipsec_sa_replay_scheme) option" where
  "esp_decrypt_one esp_seq icv_ok sa p =
     (case esp_decrypt_pre_check sa (esp_seq p) of
        None \<Rightarrow> None
      | Some hi \<Rightarrow> if icv_ok p hi then esp_decrypt_post_check sa (esp_seq p) hi else None)"

text \<open>A sequence of packets, each in a frame of its own: the packets accepted, the packets counted as lost, the
  final state.\<close>

fun esp_decrypt_run ::
  "('p \<Rightarrow> u32) \<Rightarrow> ('p \<Rightarrow> u32 \<Rightarrow> bool) \<Rightarrow> 'a ipsec_sa_replay_scheme \<Rightarrow> 'p list \<Rightarrow> 'p list \<times> nat \<times> 'a ipsec_sa_replay_scheme" where
  "esp_decrypt_run esp_seq icv_ok sa [] = ([], 0, sa)"
| "esp_decrypt_run esp_seq icv_ok sa (p # ps) =
     (case esp_decrypt_one esp_seq icv_ok sa p of
        None \<Rightarrow> esp_decrypt_run esp_seq icv_ok sa ps
      | Some (lost, sa) \<Rightarrow>
          let (acc, lost', sa) = esp_decrypt_run esp_seq icv_ok sa ps in (p # acc, lost + lost', sa))"

text \<open>A frame: all packets are checked against the state before the frame and decrypted, then all that decrypted
  are checked again, in order, each against the state the one before left.\<close>

fun esp_post_run ::
  "('p \<Rightarrow> u32) \<Rightarrow> 'a ipsec_sa_replay_scheme \<Rightarrow> ('p \<times> u32) list \<Rightarrow> 'p list \<times> 'a ipsec_sa_replay_scheme" where
  "esp_post_run esp_seq sa [] = ([], sa)"
| "esp_post_run esp_seq sa ((p, hi) # ps) =
     (case esp_decrypt_post_check sa (esp_seq p) hi of
        None \<Rightarrow> esp_post_run esp_seq sa ps
      | Some (lost, sa) \<Rightarrow> let (acc, sa) = esp_post_run esp_seq sa ps in (p # acc, sa))"

definition esp_decrypt_frame ::
  "('p \<Rightarrow> u32) \<Rightarrow> ('p \<Rightarrow> u32 \<Rightarrow> bool) \<Rightarrow> 'a ipsec_sa_replay_scheme \<Rightarrow> 'p list \<Rightarrow> 'p list \<times> 'a ipsec_sa_replay_scheme" where
  "esp_decrypt_frame esp_seq icv_ok sa ps =
     esp_post_run esp_seq sa
       [(p, hi). (p, r) \<leftarrow> map (\<lambda>p. (p, esp_decrypt_pre_check sa (esp_seq p))) ps,
                 hi \<leftarrow> (case r of None \<Rightarrow> [] | Some hi \<Rightarrow> [hi]), icv_ok p hi]"

fun esp_decrypt_frames ::
  "('p \<Rightarrow> u32) \<Rightarrow> ('p \<Rightarrow> u32 \<Rightarrow> bool) \<Rightarrow> 'a ipsec_sa_replay_scheme \<Rightarrow> 'p list list \<Rightarrow> 'p list \<times> 'a ipsec_sa_replay_scheme" where
  "esp_decrypt_frames esp_seq icv_ok sa [] = ([], sa)"
| "esp_decrypt_frames esp_seq icv_ok sa (f # fs) =
     (let (acc, sa) = esp_decrypt_frame esp_seq icv_ok sa f;
          (acc', sa) = esp_decrypt_frames esp_seq icv_ok sa fs in (acc @ acc', sa))"

subsection \<open>The sender\<close>

definition esp_seq_advance :: "'a ipsec_sa_replay_scheme \<Rightarrow> bool \<times> 'a ipsec_sa_replay_scheme" where
  "esp_seq_advance sa =
     (if ipsec_sa_is_set IPSEC_SA_FLAG_USE_ESN sa
      then if seq sa = -1
           then if ipsec_sa_is_set IPSEC_SA_FLAG_USE_ANTI_REPLAY sa \<and> seq_hi sa = -1 then (True, sa)
                else let sa = sa\<lparr>seq_hi := seq_hi sa + 1\<rparr> in (False, sa\<lparr>seq := seq sa + 1\<rparr>)
           else (False, sa\<lparr>seq := seq sa + 1\<rparr>)
      else if ipsec_sa_is_set IPSEC_SA_FLAG_USE_ANTI_REPLAY sa \<and> seq sa = -1 then (True, sa)
           else (False, sa\<lparr>seq := seq sa + 1\<rparr>))"

text \<open>The numbers of the packets of \<open>n\<close> turns of the encrypt node, as high and low word; a turn in which the
  number cannot be advanced drops its packet.\<close>

fun esp_encrypt_run :: "nat \<Rightarrow> 'a ipsec_sa_replay_scheme \<Rightarrow> (u32 \<times> u32) list" where
  "esp_encrypt_run 0 sa = []"
| "esp_encrypt_run (Suc n) sa =
     (let (cycled, sa) = esp_seq_advance sa
      in if cycled then esp_encrypt_run n sa else (seq_hi sa, seq sa) # esp_encrypt_run n sa)"

subsection \<open>The specification\<close>

text \<open>The receiver remembers the highest number \<open>T\<close> accepted and the set \<open>S\<close> of numbers accepted. With extended
  sequence numbers a number is accepted once, if it is less than the window size \<open>W\<close> below \<open>T\<close> or at
  most \<open>2^32 - W\<close> above it. Without them every higher number is accepted, and a lower one if the window does
  not reach the end of the number space.\<close>

definition replay_accept :: "bool \<Rightarrow> nat \<Rightarrow> nat \<Rightarrow> nat set \<Rightarrow> nat \<Rightarrow> bool" where
  "replay_accept esn W T S n \<longleftrightarrow>
     (if T < n then (esn \<longrightarrow> n + W \<le> T + 2 ^ 32)
      else T < n + W \<and> n \<notin> S \<and> (esn \<or> n + W < 2 ^ 32))"

fun replay_spec :: "bool \<Rightarrow> nat \<Rightarrow> nat \<Rightarrow> nat set \<Rightarrow> nat list \<Rightarrow> nat list" where
  "replay_spec esn W T S [] = []"
| "replay_spec esn W T S (n # ns) =
     (if replay_accept esn W T S n then n # replay_spec esn W (max T n) (insert n S) ns
      else replay_spec esn W T S ns)"

text \<open>The numbers that have left the window without having been accepted.\<close>

definition replay_lost :: "nat \<Rightarrow> nat \<Rightarrow> nat set \<Rightarrow> nat set" where
  "replay_lost W T S = {m. 0 < m \<and> m + W \<le> T \<and> m \<notin> S}"

text \<open>The number of a packet: \<open>None\<close> for a packet the sender did not make. This is what is relied on of the crypto engine:
  a packet decrypts only with the high number it was made with, and a forged one not at all.\<close>

definition seq_limit :: "bool \<Rightarrow> nat" where
  "seq_limit esn = (if esn then 2 ^ 63 else 2 ^ 32)"

definition icv_sound :: "bool \<Rightarrow> ('p \<Rightarrow> u32) \<Rightarrow> ('p \<Rightarrow> u32 \<Rightarrow> bool) \<Rightarrow> ('p \<Rightarrow> nat option) \<Rightarrow> 'p \<Rightarrow> bool" where
  "icv_sound esn esp_seq icv_ok num p \<longleftrightarrow>
     (case num p of
        None \<Rightarrow> (\<forall>hi. \<not> icv_ok p hi)
      | Some n \<Rightarrow> 0 < n \<and> n < seq_limit esn \<and> esp_seq p = of_nat n \<and>
                  (\<forall>hi. icv_ok p hi \<longleftrightarrow> hi = of_nat (n div 2 ^ 32)))"

end
