(* ===== verification/Replay_Refine.thy ===== *)
theory Replay_Refine
  imports Esp_Replay
begin

text \<open>
  The ESP anti-replay code implements its specification. The lemmas are proved once, for every window that
  provides the interface \<open>replay_win\<close>, and used for both windows through its interpretations.
\<close>

unbundle bit_operations_syntax

definition replay_rep ::
  "('a ipsec_sa_replay_scheme \<Rightarrow> bool) \<Rightarrow> ('a ipsec_sa_replay_scheme \<Rightarrow> nat) \<Rightarrow> ('a ipsec_sa_replay_scheme \<Rightarrow> nat \<Rightarrow> bool) \<Rightarrow>
   'a ipsec_sa_replay_scheme \<Rightarrow> nat \<Rightarrow> nat set \<Rightarrow> bool" where
  "replay_rep ok wsize win sa T S \<longleftrightarrow>
     ok sa \<and> ipsec_sa_is_set IPSEC_SA_FLAG_USE_ANTI_REPLAY sa \<and> seq sa = of_nat T \<and>
     T < seq_limit (ipsec_sa_is_set IPSEC_SA_FLAG_USE_ESN sa) \<and>
     (ipsec_sa_is_set IPSEC_SA_FLAG_USE_ESN sa \<longrightarrow> seq_hi sa = of_nat (T div 2 ^ 32)) \<and>
     (\<forall>m\<in>S. 0 < m \<and> m \<le> T) \<and>
     (\<forall>p<wsize sa. win sa p \<longleftrightarrow> T \<le> p \<or> T - p \<in> S)"

lemma unat_of_nat_mod: "unat (of_nat n :: u32) = n mod 2 ^ 32"
  by (simp add: unsigned_of_nat take_bit_eq_mod)

lemma u32_less: "unat (x :: u32) < 2 ^ 32"
  using unsigned_less [where 'a = nat, of x] by simp

text \<open>The two halves of a number.\<close>

lemma halves:
  fixes n :: nat
  obtains h s where "n = h * 2 ^ 32 + s" "s < 2 ^ 32" "n div 2 ^ 32 = h" "unat (of_nat n :: u32) = s"
  by (rule that [of "n div 2 ^ 32" "n mod 2 ^ 32"]) (simp_all add: unat_of_nat_mod)

lemma of_nat_u32_inj: "a < 2 ^ 32 \<Longrightarrow> b < 2 ^ 32 \<Longrightarrow> (of_nat a :: u32) = of_nat b \<longleftrightarrow> a = b"
  by (metis unat_of_nat_lt)

text \<open>Of the next \<open>inc\<close> numbers to leave the window, those marked and those lost.\<close>

lemma lost_count:
  fixes T W inc :: nat
  assumes S: "\<forall>m\<in>S. 0 < m \<and> m \<le> T"
  shows "card {p. p < W \<and> W \<le> p + inc \<and> (T \<le> p \<or> T - p \<in> S)} +
    card {m. 0 < m \<and> T < m + W \<and> m + W \<le> T + inc \<and> m \<notin> S} = inc" (is "card ?A + card ?N = inc")
proof -
  let ?seen = "\<lambda>j. T + 1 + j \<le> W \<or> T + 1 + j - W \<in> S"
  have "?A = (\<lambda>j. W - 1 - j) ` {j. j < inc \<and> ?seen j}"
  proof (intro set_eqI iffI)
    fix p assume p: "p \<in> ?A"
    then have "W - 1 - p < inc" "?seen (W - 1 - p)" "p = W - 1 - (W - 1 - p)" by auto
    then show "p \<in> (\<lambda>j. W - 1 - j) ` {j. j < inc \<and> ?seen j}" by blast
  next
    fix p assume "p \<in> (\<lambda>j. W - 1 - j) ` {j. j < inc \<and> ?seen j}"
    then obtain j where j: "p = W - 1 - j" "j < inc" "?seen j" by blast
    then have "j < W" using S by fastforce
    with j show "p \<in> ?A" by auto
  qed
  moreover have "inj_on (\<lambda>j. W - 1 - j) {j. j < inc \<and> ?seen j}"
  proof (rule inj_onI)
    fix i j assume ij: "i \<in> {j. j < inc \<and> ?seen j}" "j \<in> {j. j < inc \<and> ?seen j}" "W - 1 - i = W - 1 - j"
    then have "i < W" "j < W" using S by fastforce+
    with ij(3) show "i = j" by linarith
  qed
  ultimately have A: "card ?A = card {j. j < inc \<and> ?seen j}" by (simp add: card_image)
  have "?N = (\<lambda>j. T + 1 + j - W) ` {j. j < inc \<and> \<not> ?seen j}"
  proof (intro set_eqI iffI)
    fix m assume m: "m \<in> ?N"
    then have "m + W - T - 1 < inc" "\<not> ?seen (m + W - T - 1)" "m = T + 1 + (m + W - T - 1) - W" by auto
    then show "m \<in> (\<lambda>j. T + 1 + j - W) ` {j. j < inc \<and> \<not> ?seen j}" by blast
  qed auto
  moreover have "inj_on (\<lambda>j. T + 1 + j - W) {j. j < inc \<and> \<not> ?seen j}" by (auto simp: inj_on_def)
  ultimately have N: "card ?N = card {j. j < inc \<and> \<not> ?seen j}" by (simp add: card_image)
  have "card {j. j < inc \<and> ?seen j} + card {j. j < inc \<and> \<not> ?seen j} = card ({j. j < inc \<and> ?seen j} \<union> {j. j < inc \<and> \<not> ?seen j})"
    by (rule card_Un_disjoint [symmetric]) auto
  also have "{j. j < inc \<and> ?seen j} \<union> {j. j < inc \<and> \<not> ?seen j} = {..<inc}" by auto
  finally show ?thesis using A N by simp
qed

lemma replay_lost_new:
  assumes S: "\<forall>m\<in>S. 0 < m \<and> m \<le> T" and n: "T < n" and W: "0 < W"
  shows "card (replay_lost W n (insert n S)) =
    card (replay_lost W T S) + card {m. 0 < m \<and> T < m + W \<and> m + W \<le> n \<and> m \<notin> S}"
proof -
  have "replay_lost W n (insert n S) = replay_lost W T S \<union> {m. 0 < m \<and> T < m + W \<and> m + W \<le> n \<and> m \<notin> S}"
    using n W by (auto simp: replay_lost_def)
  moreover have "finite (replay_lost W T S)"
    by (rule finite_subset [of _ "{..T}"]) (auto simp: replay_lost_def)
  moreover have "finite {m. 0 < m \<and> T < m + W \<and> m + W \<le> n \<and> m \<notin> S}"
    by (rule finite_subset [of _ "{..n}"]) auto
  moreover have "replay_lost W T S \<inter> {m. 0 < m \<and> T < m + W \<and> m + W \<le> n \<and> m \<notin> S} = {}"
    by (auto simp: replay_lost_def)
  ultimately show ?thesis by (simp add: card_Un_disjoint)
qed

lemma replay_lost_old: "T < n + W \<Longrightarrow> replay_lost W T (insert n S) = replay_lost W T S"
  by (auto simp: replay_lost_def)

lemma shift_frame:
  assumes "ipsec_sa_anti_replay_window_shift sa inc huge = (lost, sa1)"
  shows "seq_hi sa1 = seq_hi sa" "flags sa1 = flags sa"
  using assms by (auto simp: ipsec_sa_anti_replay_window_shift_def Let_def split: if_splits prod.splits)

lemma mark_frame:
  "seq (mark_seen sa sq pos huge) = seq sa" "seq_hi (mark_seen sa sq pos huge) = seq_hi sa"
  "flags (mark_seen sa sq pos huge) = flags sa"
  by (simp_all add: mark_seen_def Let_def)

lemma not_plus_1: "NOT x + 1 = - x" "a + NOT x + 1 = a - x" "NOT x + a + 1 = a - x" for x :: u32
  by (simp_all add: not_eq_complement)

text \<open>The advance for a number ahead of the highest, and for one that is not.\<close>

lemma advance_new:
  assumes "T < n" "n + d \<le> T + 2 ^ 32" "0 < d" and sq: "seq sa = of_nat T"
    and esn: "if ipsec_sa_is_set IPSEC_SA_FLAG_USE_ESN sa then seq_hi sa = of_nat (T div 2 ^ 32) \<and> hi = of_nat (n div 2 ^ 32)
      else n < 2 ^ 32"
    and sh: "ipsec_sa_anti_replay_window_shift sa (of_nat (n - T)) huge = (lost, sa1)"
  shows "ipsec_sa_anti_replay_advance sa (of_nat n) hi huge =
    (lost, sa1\<lparr>seq := of_nat n, seq_hi := if ipsec_sa_is_set IPSEC_SA_FLAG_USE_ESN sa then hi else seq_hi sa\<rparr>)"
proof -
  obtain H L where TL: "T = H * 2 ^ 32 + L" "L < 2 ^ 32" "T div 2 ^ 32 = H" "unat (of_nat T :: u32) = L" by (rule halves)
  obtain h s where ns: "n = h * 2 ^ 32 + s" "s < 2 ^ 32" "n div 2 ^ 32 = h" "unat (of_nat n :: u32) = s" by (rule halves)
  have d: "of_nat n - of_nat T = (of_nat (n - T) :: u32)" using assms(1) by (simp add: of_nat_diff)
  have frame: "sa1\<lparr>seq := of_nat n, seq_hi := seq_hi sa\<rparr> = sa1\<lparr>seq := of_nat n\<rparr>" using shift_frame(1) [OF sh] by simp
  consider "h = H" "L < s" | "h = H + 1" using assms(1-3) TL ns by fastforce
  then show ?thesis
  proof cases
    case 1
    then have "of_nat n > seq sa" using sq TL(4) ns(4) by (simp add: word_less_nat_alt)
    with 1 show ?thesis
      using esn sh frame d unfolding ipsec_sa_anti_replay_advance_def sq TL(3) ns(3) by (auto split: if_splits)
  next
    case 2
    then have "ipsec_sa_is_set IPSEC_SA_FLAG_USE_ESN sa" using esn ns(1) by (auto split: if_splits)
    with 2 show ?thesis
      using esn sh d unfolding ipsec_sa_anti_replay_advance_def sq TL(3) ns(3) not_plus_1 by simp
  qed
qed

lemma advance_old:
  assumes n: "n \<le> T" "T < n + d" "d \<le> 2 ^ 31" and sq: "seq sa = of_nat T"
    and esn: "if ipsec_sa_is_set IPSEC_SA_FLAG_USE_ESN sa then seq_hi sa = of_nat (T div 2 ^ 32) \<and> hi = of_nat (n div 2 ^ 32)
      else T < 2 ^ 32"
  shows "ipsec_sa_anti_replay_advance sa (of_nat n) hi huge = (0, mark_seen sa (of_nat n) (of_nat (T - n)) huge)"
proof -
  obtain H L where TL: "T = H * 2 ^ 32 + L" "L < 2 ^ 32" "T div 2 ^ 32 = H" "unat (of_nat T :: u32) = L" by (rule halves)
  obtain h s where ns: "n = h * 2 ^ 32 + s" "s < 2 ^ 32" "n div 2 ^ 32 = h" "unat (of_nat n :: u32) = s" by (rule halves)
  have d: "of_nat T - of_nat n = (of_nat (T - n) :: u32)" using n(1) by (simp add: of_nat_diff)
  consider "h = H" "s \<le> L" | "H = h + 1" using n TL ns by fastforce
  then show ?thesis
  proof cases
    case 1
    then have "\<not> of_nat n > seq sa" using sq TL(4) ns(4) by (simp add: word_less_nat_alt)
    with 1 show ?thesis
      using esn d unfolding ipsec_sa_anti_replay_advance_def sq TL(3) ns(3) by (auto split: if_splits)
  next
    case 2
    then have "ipsec_sa_is_set IPSEC_SA_FLAG_USE_ESN sa" using esn TL(1) by (auto split: if_splits)
    with 2 show ?thesis
      using esn d unfolding ipsec_sa_anti_replay_advance_def sq TL(3) ns(3) not_plus_1 by simp
  qed
qed

context replay_win
begin

lemma size_facts:
  assumes "ok sa"
  shows "64 \<le> wsize sa" "wsize sa \<le> 2 ^ 31" "unat (of_nat (wsize sa) - 1 :: u32) = wsize sa - 1"
proof -
  note r = ring_facts [OF size_ring [OF assms]]
  show "64 \<le> wsize sa" by (rule r)
  obtain k where k: "k \<le> 31" "wsize sa = 2 ^ k" using size_ring [OF assms] by (auto simp: ring_size_def)
  show "wsize sa \<le> 2 ^ 31" unfolding k(2) by (rule power_increasing [OF k(1)]) simp
  have "of_nat (wsize sa) \<noteq> (0 :: u32)" using r(1,4) by (metis not_numeral_le_zero unsigned_0)
  from unat_minus_one [OF this] show "unat (of_nat (wsize sa) - 1 :: u32) = wsize sa - 1" unfolding r(4) .
qed

lemma lower_bound:
  assumes "ok sa" "unat (seq sa) = L"
  shows "unat (IPSEC_SA_ANTI_REPLAY_WINDOW_LOWER_BOUND_KNOWN_WIN sa ar_huge) =
    (if wsize sa - 1 \<le> L then L - (wsize sa - 1) else L + 2 ^ 32 - (wsize sa - 1))"
proof -
  have eq: "IPSEC_SA_ANTI_REPLAY_WINDOW_LOWER_BOUND_KNOWN_WIN sa ar_huge = seq sa - (of_nat (wsize sa) - 1)"
    by (simp add: IPSEC_SA_ANTI_REPLAY_WINDOW_LOWER_BOUND_KNOWN_WIN_def size_law [OF assms(1)])
  show ?thesis
    unfolding eq unat_sub_if' [of "seq sa"] size_facts(3) [OF assms(1)] assms(2) by simp
qed

lemma check_at:
  assumes "ok sa" "p < wsize sa" "unat (seq sa) + k * 2 ^ 32 = unat sq + p"
  shows "ipsec_sa_anti_replay_check sa sq ar_huge = win sa p"
proof -
  have "(4294967296 :: u32) = 0" by simp
  then have "of_nat k * 4294967296 = (0 :: u32)" by (simp only: mult_zero_right)
  moreover have "(of_nat (unat (seq sa) + k * 2 ^ 32) :: u32) = of_nat (unat sq + p)" using assms(3) by simp
  ultimately have "seq sa = sq + of_nat p" by simp
  then have "sq = seq sa - of_nat p" by simp
  then show ?thesis using check_law [OF assms(1,2)] by simp
qed

lemma sn_advance_esn:
  assumes ok: "ok sa" and fl: "ipsec_sa_is_set IPSEC_SA_FLAG_USE_ESN sa" "ipsec_sa_is_set IPSEC_SA_FLAG_USE_ANTI_REPLAY sa"
    and L: "unat (seq sa) = L" and s: "unat sq = s"
  shows "ipsec_sa_anti_replay_and_sn_advance sa sq hi post ar_huge =
    (let W = wsize sa; req = (\<lambda>h. if post then None else Some h) in
     if W \<le> L + 1
     then if s + W < L + 1 then (post \<and> hi = seq_hi sa, req (seq_hi sa + 1))
          else (s \<le> L \<and> win sa (L - s), req (seq_hi sa))
     else if s + W < L + 1 + 2 ^ 32 then (s \<le> L \<and> win sa (L - s), req (seq_hi sa))
          else (win sa (L + 2 ^ 32 - s), req (seq_hi sa - 1)))"
proof -
  note W = size_facts [OF ok]
  have Ls: "L < 2 ^ 32" "s < 2 ^ 32" using L s u32_less [of "seq sa"] u32_less [of sq] by simp_all
  have c1: "ipsec_sa_anti_replay_check sa sq ar_huge = win sa (L - s)" if "s \<le> L" "L < s + wsize sa"
    using check_at [OF ok, of "L - s" 0 sq] that L s by simp
  have c2: "ipsec_sa_anti_replay_check sa sq ar_huge = win sa (L + 2 ^ 32 - s)" if "L + 1 + 2 ^ 32 \<le> s + wsize sa"
    using check_at [OF ok, of "L + 2 ^ 32 - s" 1 sq] that L s Ls by simp
  have g1: "seq sa \<ge> of_nat (wsize sa) - 1 \<longleftrightarrow> wsize sa \<le> L + 1"
    unfolding word_le_nat_alt W(3) L by (rule le_diff_conv)
  have g2: "sq < IPSEC_SA_ANTI_REPLAY_WINDOW_LOWER_BOUND_KNOWN_WIN sa ar_huge \<longleftrightarrow>
      (if wsize sa \<le> L + 1 then s + wsize sa < L + 1 else s + wsize sa < L + 1 + 2 ^ 32)"
    unfolding word_less_nat_alt lower_bound [OF ok L] s using W(1,2) Ls by auto
  have g3: "sq \<le> seq sa \<longleftrightarrow> s \<le> L" by (simp add: word_le_nat_alt L s)
  have "s \<le> L \<and> ipsec_sa_anti_replay_check sa sq ar_huge \<longleftrightarrow> s \<le> L \<and> win sa (L - s)"
    if "L + 1 \<le> s + wsize sa \<or> L + 1 < wsize sa"
    using c1 that by auto
  then show ?thesis
    unfolding ipsec_sa_anti_replay_and_sn_advance_def Let_def size_law [OF ok] g1 g2 g3 using fl c2 by auto
qed

text \<open>With extended sequence numbers: a number in the window, a number ahead of it, and any other.\<close>

lemma sn_old:
  assumes ok: "ok sa" and fl: "ipsec_sa_is_set IPSEC_SA_FLAG_USE_ESN sa" "ipsec_sa_is_set IPSEC_SA_FLAG_USE_ANTI_REPLAY sa"
    and T: "seq sa = of_nat T" "seq_hi sa = of_nat (T div 2 ^ 32)" and n: "n \<le> T" "T < n + wsize sa"
  shows "ipsec_sa_anti_replay_and_sn_advance sa (of_nat n) hi post ar_huge =
    (win sa (T - n), if post then None else Some (of_nat (n div 2 ^ 32)))"
proof -
  obtain H L where TL: "T = H * 2 ^ 32 + L" "L < 2 ^ 32" "T div 2 ^ 32 = H" "unat (of_nat T :: u32) = L" by (rule halves)
  obtain h s where ns: "n = h * 2 ^ 32 + s" "s < 2 ^ 32" "n div 2 ^ 32 = h" "unat (of_nat n :: u32) = s" by (rule halves)
  note W = size_facts(1,2) [OF ok]
  have u: "unat (seq sa) = L" "unat (of_nat n :: u32) = s" using T(1) TL(4) ns(4) by simp_all
  have hi: "seq_hi sa = of_nat H" using T(2) TL(3) by simp
  have "H = h \<or> H = h + 1" using n W TL ns by simp linarith
  then show ?thesis
  proof
    assume "H = h"
    then have "\<not> s + wsize sa < L + 1" "s \<le> L" "T - n = L - s" using TL(1) ns(1) n by auto
    then show ?thesis
      unfolding sn_advance_esn [OF ok fl u] Let_def hi ns(3) using \<open>H = h\<close> W TL(2) by auto
  next
    assume H: "H = h + 1"
    then have "\<not> wsize sa \<le> L + 1" "\<not> s + wsize sa < L + 1 + 2 ^ 32" "T - n = L + 2 ^ 32 - s"
      using TL(1) ns(1,2) n by auto
    then show ?thesis
      unfolding sn_advance_esn [OF ok fl u] Let_def hi ns(3) using H by auto
  qed
qed

lemma sn_ahead:
  assumes ok: "ok sa" and fl: "ipsec_sa_is_set IPSEC_SA_FLAG_USE_ESN sa" "ipsec_sa_is_set IPSEC_SA_FLAG_USE_ANTI_REPLAY sa"
    and T: "seq sa = of_nat T" "seq_hi sa = of_nat (T div 2 ^ 32)" and n: "T < n" "n + wsize sa \<le> T + 2 ^ 32"
    and hi: "post \<Longrightarrow> hi = of_nat (n div 2 ^ 32)" and lim: "n < 2 ^ 63"
  shows "ipsec_sa_anti_replay_and_sn_advance sa (of_nat n) hi post ar_huge =
    (False, if post then None else Some (of_nat (n div 2 ^ 32)))"
proof -
  obtain H L where TL: "T = H * 2 ^ 32 + L" "L < 2 ^ 32" "T div 2 ^ 32 = H" "unat (of_nat T :: u32) = L" by (rule halves)
  obtain h s where ns: "n = h * 2 ^ 32 + s" "s < 2 ^ 32" "n div 2 ^ 32 = h" "unat (of_nat n :: u32) = s" by (rule halves)
  note W = size_facts(1,2) [OF ok]
  have u: "unat (seq sa) = L" "unat (of_nat n :: u32) = s" using T(1) TL(4) ns(4) by simp_all
  have sh: "seq_hi sa = of_nat H" using T(2) TL(3) by simp
  have "h = H \<or> h = H + 1" using n W TL ns by simp linarith
  then show ?thesis
  proof
    assume "h = H"
    then have "L < s" "s + wsize sa < L + 1 + 2 ^ 32" using TL(1) ns(1) n by auto
    then show ?thesis
      unfolding sn_advance_esn [OF ok fl u] Let_def sh ns(3) using \<open>h = H\<close> W TL(2) by auto
  next
    assume h: "h = H + 1"
    then have "wsize sa \<le> L + 1" "s + wsize sa < L + 1" using TL(1) ns(1,2) n by auto
    moreover have "(of_nat (H + 1) :: u32) \<noteq> of_nat H"
      using lim ns(1) h by (subst of_nat_u32_inj) auto
    ultimately show ?thesis
      unfolding sn_advance_esn [OF ok fl u] Let_def sh ns(3) using h hi ns(3) by auto
  qed
qed

lemma sn_out:
  assumes ok: "ok sa" and fl: "ipsec_sa_is_set IPSEC_SA_FLAG_USE_ESN sa" "ipsec_sa_is_set IPSEC_SA_FLAG_USE_ANTI_REPLAY sa"
    and T: "seq sa = of_nat T" "seq_hi sa = of_nat (T div 2 ^ 32)" "T < 2 ^ 63" and lim: "n < 2 ^ 63"
    and n: "n + wsize sa \<le> T \<or> T + 2 ^ 32 < n + wsize sa"
  shows "snd (ipsec_sa_anti_replay_and_sn_advance sa (of_nat n) hi False ar_huge) \<noteq> Some (of_nat (n div 2 ^ 32))"
proof -
  obtain H L where TL: "T = H * 2 ^ 32 + L" "L < 2 ^ 32" "T div 2 ^ 32 = H" "unat (of_nat T :: u32) = L" by (rule halves)
  obtain h s where ns: "n = h * 2 ^ 32 + s" "s < 2 ^ 32" "n div 2 ^ 32 = h" "unat (of_nat n :: u32) = s" by (rule halves)
  note W = size_facts(1,2) [OF ok]
  have u: "unat (seq sa) = L" "unat (of_nat n :: u32) = s" using T(1) TL(4) ns(4) by simp_all
  have sh: "seq_hi sa = of_nat H" using T(2) TL(3) by simp
  have "h * 2 ^ 32 < 2 ^ 63" "H * 2 ^ 32 < 2 ^ 63" using T(3) lim TL(1) ns(1) by linarith+
  then have b: "h < 2 ^ 31" "H < 2 ^ 31" by simp_all
  have neq1: "of_nat H + 1 \<noteq> (of_nat h :: u32)" if "h \<noteq> H + 1"
    using of_nat_u32_inj [of "H + 1" h] b that by (simp add: add.commute)
  have neq0: "of_nat H \<noteq> (of_nat h :: u32)" if "h \<noteq> H"
    using of_nat_u32_inj [of H h] b that by simp
  have neq2: "of_nat H - 1 \<noteq> (of_nat h :: u32)" if "h + 1 \<noteq> H"
    using of_nat_u32_inj [of H "h + 1"] b that by (simp add: diff_eq_eq add.commute)
  have "s + wsize sa < L + 1 \<Longrightarrow> wsize sa \<le> L + 1 \<Longrightarrow> h \<noteq> H + 1"
    using n TL(1,2) ns(1,2) by auto
  moreover have "\<not> s + wsize sa < L + 1 \<Longrightarrow> wsize sa \<le> L + 1 \<Longrightarrow> h \<noteq> H"
    using n TL(1,2) ns(1,2) W by auto
  moreover have "s + wsize sa < L + 1 + 2 ^ 32 \<Longrightarrow> \<not> wsize sa \<le> L + 1 \<Longrightarrow> h \<noteq> H"
    using n TL(1,2) ns(1,2) by auto
  moreover have "\<not> s + wsize sa < L + 1 + 2 ^ 32 \<Longrightarrow> \<not> wsize sa \<le> L + 1 \<Longrightarrow> h + 1 \<noteq> H"
    using n TL(1,2) ns(1,2) W by auto
  ultimately show ?thesis
    unfolding sn_advance_esn [OF ok fl u] Let_def sh ns(3) using neq0 neq1 neq2 by auto
qed

text \<open>Without extended sequence numbers.\<close>

lemma sn_plain:
  assumes ok: "ok sa" and fl: "\<not> ipsec_sa_is_set IPSEC_SA_FLAG_USE_ESN sa" "ipsec_sa_is_set IPSEC_SA_FLAG_USE_ANTI_REPLAY sa"
    and T: "seq sa = of_nat T" "T < 2 ^ 32" and n: "n < 2 ^ 32"
  shows "ipsec_sa_anti_replay_and_sn_advance sa (of_nat n) hi post ar_huge =
    (n \<le> T \<and> (n + wsize sa \<le> T \<or> 2 ^ 32 \<le> n + wsize sa \<or> win sa (T - n)), if post then None else Some 0)"
proof -
  note W = size_facts(1,2) [OF ok]
  have u: "unat (seq sa) = T" "unat (of_nat n :: u32) = n" "unat (of_nat (wsize sa) :: u32) = wsize sa"
    using T n W by (simp_all add: unat_of_nat_lt)
  have gt: "of_nat n > seq sa \<longleftrightarrow> \<not> n \<le> T" by (simp only: word_less_nat_alt u not_le)
  have out: "seq sa \<ge> of_nat n + of_nat (wsize sa) \<longleftrightarrow> n + wsize sa \<le> T \<or> 2 ^ 32 \<le> n + wsize sa" if "n \<le> T"
  proof (cases "n + wsize sa < 2 ^ 32")
    case True
    then have "unat (of_nat n + of_nat (wsize sa) :: u32) = n + wsize sa"
      using unat_of_nat_lt [OF True] by simp
    with True show ?thesis by (simp only: word_le_nat_alt u) linarith
  next
    case False
    have "unat (of_nat n + of_nat (wsize sa) :: u32) = (n + wsize sa) mod 2 ^ 32"
      using unat_of_nat_mod [of "n + wsize sa"] by simp
    also have "\<dots> = n + wsize sa - 2 ^ 32" using False n W by (simp add: le_mod_geq)
    finally show ?thesis using False that W unfolding word_le_nat_alt u by simp
  qed
  have "ipsec_sa_anti_replay_check sa (of_nat n) ar_huge = win sa (T - n)" if "n \<le> T" "T < n + wsize sa"
    using check_at [OF ok, of "T - n" 0 "of_nat n"] that u by simp
  then show ?thesis
    unfolding ipsec_sa_anti_replay_and_sn_advance_def Let_def size_law [OF ok] gt using fl out by auto
qed

text \<open>One packet.\<close>

lemma rep_facts:
  assumes "replay_rep ok wsize win sa T S"
  shows "ok sa" "ipsec_sa_is_set IPSEC_SA_FLAG_USE_ANTI_REPLAY sa" "seq sa = of_nat T"
    "\<forall>m\<in>S. 0 < m \<and> m \<le> T" "T < seq_limit (ipsec_sa_is_set IPSEC_SA_FLAG_USE_ESN sa)"
    "ipsec_sa_is_set IPSEC_SA_FLAG_USE_ESN sa \<Longrightarrow> seq_hi sa = of_nat (T div 2 ^ 32)"
    "p < wsize sa \<Longrightarrow> win sa p \<longleftrightarrow> T \<le> p \<or> T - p \<in> S"
  using assms by (auto simp: replay_rep_def)

lemma rep_new:
  assumes rep: "replay_rep ok wsize win sa T S" and n: "T < n" "n - T < 2 ^ 32" "n < seq_limit (ipsec_sa_is_set IPSEC_SA_FLAG_USE_ESN sa)"
    and sh: "ipsec_sa_anti_replay_window_shift sa (of_nat (n - T)) ar_huge = (lost, sa1)"
    and hi: "ipsec_sa_is_set IPSEC_SA_FLAG_USE_ESN sa \<Longrightarrow> hi = of_nat (n div 2 ^ 32)"
    and sa': "sa' = sa1\<lparr>seq := of_nat n, seq_hi := hi\<rparr>"
  shows "replay_rep ok wsize win sa' n (insert n S)" "wsize sa' = wsize sa" "flags sa' = flags sa"
    "lost + card (replay_lost (wsize sa) T S) = card (replay_lost (wsize sa) n (insert n S))"
proof -
  note r = rep_facts [OF rep]
  have inc: "unat (of_nat (n - T) :: u32) = n - T" using unat_of_nat_lt [OF n(2)] .
  have top: "seq sa + of_nat (n - T) = of_nat n" using r(3) n(1) by (simp add: of_nat_diff)
  show w: "wsize sa' = wsize sa" using shift_keeps [OF r(1) sh] by (simp add: sa' hi_law)
  show fl: "flags sa' = flags sa" using shift_frame [OF sh] by (simp add: sa')
  have "win sa' p \<longleftrightarrow> n \<le> p \<or> n - p \<in> insert n S" if p: "p < wsize sa" for p
  proof -
    have "win sa' p \<longleftrightarrow> p = 0 \<or> n - T \<le> p \<and> win sa (p - (n - T))"
      using shift_win [OF r(1) sh, of p] p n(1) inc top by (simp add: sa' hi_law)
    moreover have "win sa (p - (n - T)) \<longleftrightarrow> T \<le> p - (n - T) \<or> T - (p - (n - T)) \<in> S" using r(7) p by simp
    moreover have "T - (p - (n - T)) = n - p" if "n - T \<le> p" using that n(1) by linarith
    moreover have "n - p \<notin> S" "\<not> n \<le> p" if "\<not> n - T \<le> p" using that r(4) n(1) by force+
    ultimately show ?thesis using n(1) by (cases "n - T \<le> p") auto
  qed
  then show "replay_rep ok wsize win sa' n (insert n S)"
    using r(2,4) n fl w hi shift_keeps [OF r(1) sh]
    by (auto simp: replay_rep_def ipsec_sa_is_set_def sa' hi_law)
  have "{p. p < wsize sa \<and> wsize sa \<le> p + (n - T) \<and> win sa p} =
      {p. p < wsize sa \<and> wsize sa \<le> p + (n - T) \<and> (T \<le> p \<or> T - p \<in> S)}"
    using r(7) by blast
  then show "lost + card (replay_lost (wsize sa) T S) = card (replay_lost (wsize sa) n (insert n S))"
    using shift_lost [OF r(1) sh] lost_count [OF r(4), of "wsize sa" "n - T"] n(1) inc
      replay_lost_new [OF r(4) n(1), of "wsize sa"] size_facts(1) [OF r(1)] by simp
qed

lemma rep_old:
  assumes rep: "replay_rep ok wsize win sa T S" and n: "0 < n" "n \<le> T" "T < n + wsize sa"
    and sa': "sa' = mark_seen sa (of_nat n) (of_nat (T - n)) ar_huge"
  shows "replay_rep ok wsize win sa' T (insert n S)" "wsize sa' = wsize sa" "flags sa' = flags sa"
proof -
  note r = rep_facts [OF rep]
  have sq: "of_nat n = seq sa - of_nat (T - n)" using r(3) n(2) by (simp add: of_nat_diff)
  show w: "wsize sa' = wsize sa" using mark_keeps [OF r(1)] by (simp add: sa')
  show fl: "flags sa' = flags sa" by (simp add: sa' mark_frame)
  have "win sa' p \<longleftrightarrow> T \<le> p \<or> T - p \<in> insert n S" if p: "p < wsize sa" for p
  proof -
    have "win sa' p \<longleftrightarrow> p = T - n \<or> win sa p"
      using mark_win [OF r(1), of "T - n" p] p n unfolding sa' sq by simp
    with r(7) [OF p] n show ?thesis by auto
  qed
  then show "replay_rep ok wsize win sa' T (insert n S)"
    using r n fl w mark_keeps [OF r(1)] by (auto simp: replay_rep_def ipsec_sa_is_set_def sa' mark_frame)
qed

lemma post_accept:
  assumes rep: "replay_rep ok wsize win sa T S" and hg: "ipsec_sa_is_set IPSEC_SA_FLAG_ANTI_REPLAY_HUGE sa = ar_huge"
    and esn: "ipsec_sa_is_set IPSEC_SA_FLAG_USE_ESN sa = esn"
    and n: "0 < n" "n < seq_limit esn" "replay_accept esn (wsize sa) T S n"
    and hi: "esn \<Longrightarrow> hi = of_nat (n div 2 ^ 32)"
  shows "\<exists>lost sa'. esp_decrypt_post_check sa (of_nat n) hi = Some (lost, sa') \<and>
    replay_rep ok wsize win sa' (max T n) (insert n S) \<and> wsize sa' = wsize sa \<and> flags sa' = flags sa \<and>
    lost + card (replay_lost (wsize sa) T S) = card (replay_lost (wsize sa) (max T n) (insert n S))"
proof -
  note r = rep_facts [OF rep] and W = size_facts(1,2) [OF rep_facts(1) [OF rep]]
  have post: "esp_decrypt_post_check sa (of_nat n) hi = Some (ipsec_sa_anti_replay_advance sa (of_nat n) hi ar_huge)"
    if "\<not> fst (ipsec_sa_anti_replay_and_sn_advance sa (of_nat n) hi True ar_huge)"
    using that hg by (auto simp: esp_decrypt_post_check_def)
  show ?thesis
  proof (cases "T < n")
    case True
    have lim: "n - T < 2 ^ 32" "esn \<Longrightarrow> n + wsize sa \<le> T + 2 ^ 32" "n + 1 \<le> T + 2 ^ 32"
      using True n W by (auto simp: replay_accept_def seq_limit_def split: if_splits)
    obtain lost sa1 where sh: "ipsec_sa_anti_replay_window_shift sa (of_nat (n - T)) ar_huge = (lost, sa1)" by fastforce
    have "\<not> fst (ipsec_sa_anti_replay_and_sn_advance sa (of_nat n) hi True ar_huge)"
      using sn_ahead [OF r(1) _ r(2,3), of n True hi] sn_plain [OF r(1) _ r(2,3), of n hi True] r(5,6) True n(2) lim(2) hi esn
      by (cases esn) (simp_all add: seq_limit_def)
    moreover have "ipsec_sa_anti_replay_advance sa (of_nat n) hi ar_huge =
        (lost, sa1\<lparr>seq := of_nat n, seq_hi := if ipsec_sa_is_set IPSEC_SA_FLAG_USE_ESN sa then hi else seq_hi sa\<rparr>)"
      by (rule advance_new [OF True lim(3) _ r(3) _ sh]) (use hi esn n(2) r(6) in \<open>auto simp: seq_limit_def\<close>)
    ultimately show ?thesis
      using post rep_new [OF rep True lim(1) _ sh _ refl] n(2) esn hi True by (simp add: max_def)
  next
    case False
    then have in_win: "n \<le> T" "T < n + wsize sa" "n \<notin> S" "esn \<or> n + wsize sa < 2 ^ 32"
      using n(3) by (auto simp: replay_accept_def)
    then have "\<not> win sa (T - n)" using r(7) [of "T - n"] n(1) by auto
    then have "\<not> fst (ipsec_sa_anti_replay_and_sn_advance sa (of_nat n) hi True ar_huge)"
      using sn_old [OF r(1) _ r(2,3), of n hi True] sn_plain [OF r(1) _ r(2,3), of n hi True] r(5,6) in_win n(2) esn
      by (cases esn) (simp_all add: seq_limit_def)
    moreover have "ipsec_sa_anti_replay_advance sa (of_nat n) hi ar_huge = (0, mark_seen sa (of_nat n) (of_nat (T - n)) ar_huge)"
      by (rule advance_old [OF in_win(1,2) W(2) r(3)]) (use hi esn r(5,6) in \<open>auto simp: seq_limit_def\<close>)
    ultimately show ?thesis
      using post rep_old [OF rep n(1) in_win(1,2) refl] replay_lost_old [OF in_win(2), of S] in_win(1)
      by (simp add: max_def)
  qed
qed

lemma pre_check_iff:
  assumes rep: "replay_rep ok wsize win sa T S" and hg: "ipsec_sa_is_set IPSEC_SA_FLAG_ANTI_REPLAY_HUGE sa = ar_huge"
    and esn: "ipsec_sa_is_set IPSEC_SA_FLAG_USE_ESN sa = esn" and n: "0 < n" "n < seq_limit esn"
  shows "esp_decrypt_pre_check sa (of_nat n) = Some (of_nat (n div 2 ^ 32)) \<longleftrightarrow> replay_accept esn (wsize sa) T S n"
proof -
  note r = rep_facts [OF rep] and W = size_facts(1,2) [OF rep_facts(1) [OF rep]]
  let ?r = "ipsec_sa_anti_replay_and_sn_advance sa (of_nat n) (-1) False ar_huge"
  have pre: "esp_decrypt_pre_check sa (of_nat n) = (if fst ?r then None else snd ?r)"
    using hg by (auto simp: esp_decrypt_pre_check_def split: prod.splits)
  have old: "win sa (T - n) \<longleftrightarrow> n \<in> S" if "n \<le> T" "T < n + wsize sa" using r(7) [of "T - n"] that n(1) by auto
  show ?thesis
  proof (cases esn)
    case False
    then have "?r = (n \<le> T \<and> (n + wsize sa \<le> T \<or> 2 ^ 32 \<le> n + wsize sa \<or> win sa (T - n)), Some 0)" "n div 2 ^ 32 = 0"
      using sn_plain [OF r(1) _ r(2,3), of n "-1" False] r(5) n(2) esn by (simp_all add: seq_limit_def)
    then show ?thesis using False old unfolding pre replay_accept_def by auto
  next
    case True
    then have T: "T < 2 ^ 63" "n < 2 ^ 63" "ipsec_sa_is_set IPSEC_SA_FLAG_USE_ESN sa" "seq_hi sa = of_nat (T div 2 ^ 32)"
      using r(5,6) n(2) esn by (simp_all add: seq_limit_def)
    consider "n + wsize sa \<le> T \<or> T + 2 ^ 32 < n + wsize sa" | "T < n" "n + wsize sa \<le> T + 2 ^ 32" | "n \<le> T" "T < n + wsize sa"
      by linarith
    then show ?thesis
    proof cases
      case 1
      then show ?thesis
        using sn_out [OF r(1) T(3) r(2,3) T(4,1,2), of "-1"] True W unfolding pre replay_accept_def by auto
    next
      case 2
      then show ?thesis
        using sn_ahead [OF r(1) T(3) r(2,3) T(4), of n False "-1"] True T(2) unfolding pre replay_accept_def by auto
    next
      case 3
      then show ?thesis
        using sn_old [OF r(1) T(3) r(2,3) T(4), of n "-1" False] True old unfolding pre replay_accept_def by auto
    qed
  qed
qed

lemma one_packet:
  assumes rep: "replay_rep ok wsize win sa T S" and hg: "ipsec_sa_is_set IPSEC_SA_FLAG_ANTI_REPLAY_HUGE sa = ar_huge"
    and esn: "ipsec_sa_is_set IPSEC_SA_FLAG_USE_ESN sa = esn" and icv: "icv_sound esn esp_seq icv_ok num p"
  shows "esp_decrypt_one esp_seq icv_ok sa p =
    (case num p of None \<Rightarrow> None
     | Some n \<Rightarrow> if replay_accept esn (wsize sa) T S n
         then esp_decrypt_post_check sa (of_nat n) (of_nat (n div 2 ^ 32)) else None)"
proof (cases "num p")
  case None
  with icv show ?thesis by (auto simp: icv_sound_def esp_decrypt_one_def split: option.splits)
next
  case (Some n)
  with icv have n: "0 < n" "n < seq_limit esn" "esp_seq p = of_nat n" "\<And>hi. icv_ok p hi \<longleftrightarrow> hi = of_nat (n div 2 ^ 32)"
    by (simp_all add: icv_sound_def)
  note pre = pre_check_iff [OF rep hg esn n(1,2)]
  show ?thesis
  proof (cases "replay_accept esn (wsize sa) T S n")
    case True
    with pre show ?thesis by (simp add: esp_decrypt_one_def Some n(3,4))
  next
    case False
    with pre have "esp_decrypt_pre_check sa (of_nat n) \<noteq> Some (of_nat (n div 2 ^ 32))" by simp
    with False show ?thesis by (simp add: esp_decrypt_one_def Some n(3,4) split: option.split)
  qed
qed

text \<open>A sequence of packets.\<close>

lemma run_refines:
  assumes "replay_rep ok wsize win sa T S" "ipsec_sa_is_set IPSEC_SA_FLAG_ANTI_REPLAY_HUGE sa = ar_huge"
    "ipsec_sa_is_set IPSEC_SA_FLAG_USE_ESN sa = esn" "\<forall>p\<in>set ps. icv_sound esn esp_seq icv_ok num p"
    "esp_decrypt_run esp_seq icv_ok sa ps = (acc, lost, sa')"
  shows "map num acc = map Some (replay_spec esn (wsize sa) T S (List.map_filter num ps)) \<and>
    (\<exists>T'. replay_rep ok wsize win sa' T' (S \<union> {n. Some n \<in> num ` set acc}) \<and> T' = fold max (List.map_filter num acc) T \<and>
      lost + card (replay_lost (wsize sa) T S) = card (replay_lost (wsize sa) T' (S \<union> {n. Some n \<in> num ` set acc}))) \<and>
    wsize sa' = wsize sa \<and> flags sa' = flags sa"
  using assms
proof (induction ps arbitrary: sa T S acc lost)
  case Nil
  then show ?case by (auto simp: List.map_filter_simps)
next
  case (Cons p ps)
  from Cons.prems(4) have icv: "icv_sound esn esp_seq icv_ok num p" "\<forall>p\<in>set ps. icv_sound esn esp_seq icv_ok num p" by auto
  note one = one_packet [OF Cons.prems(1-3) icv(1)]
  show ?case
  proof (cases "\<exists>n. num p = Some n \<and> replay_accept esn (wsize sa) T S n")
    case False
    then have skip: "esp_decrypt_one esp_seq icv_ok sa p = None" using one by (auto split: option.splits)
    have "replay_spec esn (wsize sa) T S (List.map_filter num (p # ps)) = replay_spec esn (wsize sa) T S (List.map_filter num ps)"
      using False by (auto simp: List.map_filter_simps split: option.splits)
    with Cons.IH [OF Cons.prems(1-3) icv(2)] Cons.prems(5) skip show ?thesis by simp
  next
    case True
    then obtain n where n: "num p = Some n" "replay_accept esn (wsize sa) T S n" by blast
    with icv(1) have lim: "0 < n" "n < seq_limit esn" by (simp_all add: icv_sound_def)
    obtain l sa1 where post: "esp_decrypt_post_check sa (of_nat n) (of_nat (n div 2 ^ 32)) = Some (l, sa1)"
      and rep: "replay_rep ok wsize win sa1 (max T n) (insert n S)" and w: "wsize sa1 = wsize sa" and fl: "flags sa1 = flags sa"
      and l: "l + card (replay_lost (wsize sa) T S) = card (replay_lost (wsize sa) (max T n) (insert n S))"
      using post_accept [OF Cons.prems(1-3) lim n(2) refl] by blast
    obtain acc' lost' where run: "esp_decrypt_run esp_seq icv_ok sa1 ps = (acc', lost', sa')"
      and acc: "acc = p # acc'" "lost = l + lost'"
      using Cons.prems(5) one n post by (auto split: prod.splits)
    have S: "insert n S \<union> {m. Some m \<in> num ` set acc'} = S \<union> {m. Some m \<in> num ` set acc}" using n(1) by (auto simp: acc)
    have "ipsec_sa_is_set f sa1 = ipsec_sa_is_set f sa" for f using fl by (simp add: ipsec_sa_is_set_def)
    then show ?thesis
      using Cons.IH [OF rep _ _ icv(2) run] Cons.prems(2,3) n w fl l
      unfolding S by (auto simp: acc List.map_filter_simps max.commute)
  qed
qed

text \<open>Frames, without extended sequence numbers: the second check alone decides.\<close>

lemma post_plain:
  assumes rep: "replay_rep ok wsize win sa T S" and hg: "ipsec_sa_is_set IPSEC_SA_FLAG_ANTI_REPLAY_HUGE sa = ar_huge"
    and esn: "\<not> ipsec_sa_is_set IPSEC_SA_FLAG_USE_ESN sa" and n: "0 < n" "n < 2 ^ 32"
    and post: "esp_decrypt_post_check sa (of_nat n) hi = Some (lost, sa')"
  shows "n \<notin> S" "replay_rep ok wsize win sa' (max T n) (insert n S)" "wsize sa' = wsize sa" "flags sa' = flags sa"
proof -
  note r = rep_facts [OF rep]
  have "\<not> fst (ipsec_sa_anti_replay_and_sn_advance sa (of_nat n) hi True ar_huge)"
    using post hg by (auto simp: esp_decrypt_post_check_def split: if_splits)
  moreover have "win sa (T - n) \<longleftrightarrow> n \<in> S" if "n \<le> T" "T < n + wsize sa" using r(7) [of "T - n"] that n(1) by auto
  ultimately have acc: "replay_accept False (wsize sa) T S n"
    using sn_plain [OF r(1) esn r(2,3) _ n(2), of hi True] r(5) esn
    by (auto simp: seq_limit_def replay_accept_def)
  then show "n \<notin> S" using r(4) by (auto simp: replay_accept_def split: if_splits)
  show "replay_rep ok wsize win sa' (max T n) (insert n S)" "wsize sa' = wsize sa" "flags sa' = flags sa"
    using post_accept [OF rep hg _ n(1) _ acc, of hi] esn n(2) post by (auto simp: seq_limit_def)
qed

lemma post_run_plain:
  assumes "replay_rep ok wsize win sa T S" "ipsec_sa_is_set IPSEC_SA_FLAG_ANTI_REPLAY_HUGE sa = ar_huge"
    "\<not> ipsec_sa_is_set IPSEC_SA_FLAG_USE_ESN sa"
    "\<forall>(p, hi)\<in>set ps. \<exists>n. num p = Some n \<and> 0 < n \<and> n < 2 ^ 32 \<and> esp_seq p = of_nat n"
    "esp_post_run esp_seq sa ps = (acc, sa')"
  shows "distinct (map num acc) \<and> num ` set acc \<inter> Some ` S = {} \<and> (\<forall>p\<in>set acc. num p \<noteq> None) \<and>
    (\<exists>T'. replay_rep ok wsize win sa' T' (S \<union> {n. Some n \<in> num ` set acc})) \<and> flags sa' = flags sa"
  using assms
proof (induction ps arbitrary: sa T S acc)
  case Nil
  then show ?case by auto
next
  case (Cons q ps)
  obtain p hi where q: "q = (p, hi)" by (cases q)
  from Cons.prems(4) obtain n where n: "num p = Some n" "0 < n" "n < 2 ^ 32" "esp_seq p = of_nat n" by (auto simp: q)
  from Cons.prems(4) have ps: "\<forall>(p, hi)\<in>set ps. \<exists>n. num p = Some n \<and> 0 < n \<and> n < 2 ^ 32 \<and> esp_seq p = of_nat n" by auto
  show ?case
  proof (cases "esp_decrypt_post_check sa (esp_seq p) hi")
    case None
    then show ?thesis using Cons.IH [OF Cons.prems(1-3) ps] Cons.prems(5) by (simp add: q)
  next
    case (Some r)
    obtain l sa1 where post: "esp_decrypt_post_check sa (of_nat n) hi = Some (l, sa1)" using Some n(4) by (cases r) simp
    obtain acc' where run: "esp_post_run esp_seq sa1 ps = (acc', sa')" and acc: "acc = p # acc'"
      using Cons.prems(5) post n(4) by (auto simp: q split: prod.splits)
    note st = post_plain [OF Cons.prems(1-3) n(2,3) post]
    have "ipsec_sa_is_set f sa1 = ipsec_sa_is_set f sa" for f using st(4) by (simp add: ipsec_sa_is_set_def)
    moreover have "insert n S \<union> {m. Some m \<in> num ` set acc'} = S \<union> {m. Some m \<in> num ` set acc}" using n(1) by (auto simp: acc)
    ultimately show ?thesis
      using Cons.IH [OF st(2) _ _ ps run] Cons.prems(2,3) st(1,4) n(1) by (auto simp: acc)
  qed
qed

lemma frames_plain:
  assumes "replay_rep ok wsize win sa T S" "ipsec_sa_is_set IPSEC_SA_FLAG_ANTI_REPLAY_HUGE sa = ar_huge"
    "\<not> ipsec_sa_is_set IPSEC_SA_FLAG_USE_ESN sa" "\<forall>f\<in>set fs. \<forall>p\<in>set f. icv_sound False esp_seq icv_ok num p"
    "esp_decrypt_frames esp_seq icv_ok sa fs = (acc, sa')"
  shows "distinct (map num acc) \<and> num ` set acc \<inter> Some ` S = {} \<and> (\<forall>p\<in>set acc. num p \<noteq> None)"
  using assms
proof (induction fs arbitrary: sa T S acc)
  case Nil
  then show ?case by simp
next
  case (Cons f fs)
  obtain a1 sa1 where f: "esp_decrypt_frame esp_seq icv_ok sa f = (a1, sa1)" by fastforce
  obtain a2 where fs: "esp_decrypt_frames esp_seq icv_ok sa1 fs = (a2, sa')" and acc: "acc = a1 @ a2"
    using Cons.prems(5) f by (auto split: prod.splits)
  have "\<forall>p\<in>set f. icv_sound False esp_seq icv_ok num p" using Cons.prems(4) by simp
  then have "\<exists>n. num p = Some n \<and> 0 < n \<and> n < 2 ^ 32 \<and> esp_seq p = of_nat n" if "p \<in> set f" "icv_ok p hi" for p hi
    using that by (fastforce simp: icv_sound_def seq_limit_def split: option.splits)
  then have a1: "distinct (map num a1)" "num ` set a1 \<inter> Some ` S = {}" "\<forall>p\<in>set a1. num p \<noteq> None" "flags sa1 = flags sa"
    and ex: "\<exists>T'. replay_rep ok wsize win sa1 T' (S \<union> {n. Some n \<in> num ` set a1})"
    using post_run_plain [OF Cons.prems(1-3) _ f [unfolded esp_decrypt_frame_def], of num] by auto
  have "ipsec_sa_is_set f sa1 = ipsec_sa_is_set f sa" for f using a1(4) by (simp add: ipsec_sa_is_set_def)
  moreover obtain T' where "replay_rep ok wsize win sa1 T' (S \<union> {n. Some n \<in> num ` set a1})" using ex ..
  ultimately have "distinct (map num a2) \<and> num ` set a2 \<inter> Some ` (S \<union> {n. Some n \<in> num ` set a1}) = {} \<and>
      (\<forall>p\<in>set a2. num p \<noteq> None)"
    using Cons.prems(2-4) by (intro Cons.IH [OF _ _ _ _ fs]) auto
  then have a2: "distinct (map num a2)" "num ` set a2 \<inter> Some ` (S \<union> {n. Some n \<in> num ` set a1}) = {}" "\<forall>p\<in>set a2. num p \<noteq> None"
    by blast+
  have "num p \<noteq> num q" if "p \<in> set a1" "q \<in> set a2" for p q
  proof -
    obtain n where n: "num p = Some n" using a1(3) \<open>p \<in> set a1\<close> by blast
    then have "Some n \<in> Some ` (S \<union> {n. Some n \<in> num ` set a1})" using \<open>p \<in> set a1\<close> by (metis (mono_tags, lifting) UnI2 imageI mem_Collect_eq)
    then show ?thesis using a2(2) \<open>q \<in> set a2\<close> n by force
  qed
  then have "set (map num a1) \<inter> set (map num a2) = {}" by auto
  moreover have "num ` set a2 \<inter> Some ` S = {}" using a2(2) by (simp add: image_Un Int_Un_distrib)
  ultimately show ?case using a1(1-3) a2(1,3) by (auto simp: acc)
qed

end

end
