(* ===== verification/Replay_Props.thy ===== *)
theory Replay_Props
  imports Replay_Refine
begin

text \<open>
  The properties of anti-replay in the ESP decrypt node, for an SA as \<open>ipsec_sa_add_and_lock\<close> makes it, with either window.
\<close>

unbundle bit_operations_syntax

subsection \<open>Both windows\<close>

definition replay_size :: "'a ipsec_sa_replay_scheme \<Rightarrow> nat" where
  "replay_size sa = (if ipsec_sa_is_set IPSEC_SA_FLAG_ANTI_REPLAY_HUGE sa then huge_size sa else 64)"

definition replay_state :: "'a ipsec_sa_replay_scheme \<Rightarrow> nat \<Rightarrow> nat set \<Rightarrow> bool" where
  "replay_state sa T S =
     (if ipsec_sa_is_set IPSEC_SA_FLAG_ANTI_REPLAY_HUGE sa then replay_rep huge_ok huge_size win_huge sa T S
      else replay_rep (\<lambda>sa. True) (\<lambda>sa. 64) win64 sa T S)"

lemma decrypt_run_refines:
  assumes "replay_state sa T S" "ipsec_sa_is_set IPSEC_SA_FLAG_USE_ESN sa = esn"
    "\<forall>p\<in>set ps. icv_sound esn esp_seq icv_ok num p" "esp_decrypt_run esp_seq icv_ok sa ps = (acc, lost, sa')"
  shows "map num acc = map Some (replay_spec esn (replay_size sa) T S (List.map_filter num ps)) \<and>
    (\<exists>T'. replay_state sa' T' (S \<union> {n. Some n \<in> num ` set acc}) \<and> T' = fold max (List.map_filter num acc) T \<and>
      lost + card (replay_lost (replay_size sa) T S) = card (replay_lost (replay_size sa) T' (S \<union> {n. Some n \<in> num ` set acc}))) \<and>
    replay_size sa' = replay_size sa \<and> flags sa' = flags sa"
proof -
  have fl: "ipsec_sa_is_set f sa' = ipsec_sa_is_set f sa" if "flags sa' = flags sa" for f
    using that by (simp add: ipsec_sa_is_set_def)
  show ?thesis
  proof (cases "ipsec_sa_is_set IPSEC_SA_FLAG_ANTI_REPLAY_HUGE sa")
    case True
    then have rep: "replay_rep huge_ok huge_size win_huge sa T S" using assms(1) by (simp add: replay_state_def)
    show ?thesis using whuge.run_refines [OF rep _ assms(2-4)] True fl by (auto simp: replay_state_def replay_size_def)
  next
    case False
    then have rep: "replay_rep (\<lambda>sa. True) (\<lambda>sa. 64) win64 sa T S" using assms(1) by (simp add: replay_state_def)
    show ?thesis using w64.run_refines [OF rep _ assms(2-4)] False fl by (auto simp: replay_state_def replay_size_def)
  qed
qed

subsection \<open>The window of a new SA\<close>

lemma set_region_length: "0 < n \<Longrightarrow> length (clib_bitmap_set_region [] 0 v n) = (n - 1) div 64 + 1"
  by (simp add: clib_bitmap_set_region_def Let_def)

lemma blocks_of_size:
  fixes n :: nat
  assumes "0 < n" "64 dvd n" shows "64 * ((n - 1) div 64 + 1) = n"
proof -
  obtain k where k: "n = 64 * Suc k" using assms by (metis dvdE gr0_implies_Suc nat_0_less_mult_iff)
  have "(n - 1) div 64 = k" unfolding k by simp
  then show ?thesis unfolding k by simp
qed

lemma window_rounding:
  assumes "64 < unat (sz :: u32)" "unat sz \<le> 2 ^ 31"
  shows "ring_size (unat (push_bit (max_log2 (ucast sz)) 1 :: u32))"
    "unat sz \<le> unat (push_bit (max_log2 (ucast sz)) 1 :: u32)"
proof -
  let ?x = "ucast sz :: uword"
  have u: "unat ?x = unat sz" using u32_less [of sz] by (simp add: unsigned_ucast_eq take_bit_nat_eq_self)
  with assms have x: "?x \<noteq> 0" by auto
  have le: "max_log2 ?x \<le> 31" using max_log2_least [OF x] assms(2) u by simp
  have ge: "unat sz \<le> 2 ^ max_log2 ?x" using max_log2_range(1) [OF x] u by simp
  have "(2 :: nat) ^ 6 < 2 ^ max_log2 ?x" using ge assms(1) by simp
  then have "6 < max_log2 ?x" by (simp only: power_strict_increasing_iff)
  moreover have p: "unat (push_bit (max_log2 ?x) 1 :: u32) = 2 ^ max_log2 ?x"
    using le unsigned_push_bit_eq [of "max_log2 ?x" "1 :: u32", where ?'a = nat]
    by (simp add: push_bit_nat_eq take_bit_nat_eq_self)
  ultimately show "ring_size (unat (push_bit (max_log2 ?x) 1 :: u32))"
    unfolding ring_size_def p using le by (intro exI [of _ "max_log2 ?x"]) simp
  show "unat sz \<le> unat (push_bit (max_log2 ?x) 1 :: u32)" using ge p by simp
qed

lemma new_replay_flags:
  "flags (ipsec_sa_new_replay fl sz) = (if fl AND IPSEC_SA_FLAG_USE_ANTI_REPLAY \<noteq> 0 \<and> 64 < unat sz
     then fl OR IPSEC_SA_FLAG_ANTI_REPLAY_HUGE else fl)"
  "seq (ipsec_sa_new_replay fl sz) = 0" "seq_hi (ipsec_sa_new_replay fl sz) = 0"
  by (simp_all add: ipsec_sa_new_replay_def ipsec_sa_init_window_def ipsec_sa_select_window_def ipsec_sa_set_def
      ipsec_sa_is_set_def word_less_nat_alt Let_def)

text \<open>The flags an SA is created with: anti-replay is wanted, and the caller has not chosen the kind of window.\<close>

definition replay_flags :: "u16 \<Rightarrow> bool" where
  "replay_flags fl \<longleftrightarrow> fl AND IPSEC_SA_FLAG_USE_ANTI_REPLAY \<noteq> 0 \<and> fl AND IPSEC_SA_FLAG_ANTI_REPLAY_HUGE = 0"

lemma flag_or_huge:
  "(fl OR IPSEC_SA_FLAG_ANTI_REPLAY_HUGE) AND IPSEC_SA_FLAG_USE_ESN = fl AND IPSEC_SA_FLAG_USE_ESN"
  "(fl OR IPSEC_SA_FLAG_ANTI_REPLAY_HUGE) AND IPSEC_SA_FLAG_USE_ANTI_REPLAY = fl AND IPSEC_SA_FLAG_USE_ANTI_REPLAY"
  "(fl OR IPSEC_SA_FLAG_ANTI_REPLAY_HUGE) AND IPSEC_SA_FLAG_ANTI_REPLAY_HUGE = IPSEC_SA_FLAG_ANTI_REPLAY_HUGE"
  by (simp_all add: IPSEC_SA_FLAG_USE_ESN_def IPSEC_SA_FLAG_USE_ANTI_REPLAY_def IPSEC_SA_FLAG_ANTI_REPLAY_HUGE_def bit.conj_disj_distrib2)

lemma new_replay_set:
  assumes "replay_flags fl"
  shows "ipsec_sa_is_set IPSEC_SA_FLAG_USE_ESN (ipsec_sa_new_replay fl sz) \<longleftrightarrow> fl AND IPSEC_SA_FLAG_USE_ESN \<noteq> 0"
    "ipsec_sa_is_set IPSEC_SA_FLAG_USE_ANTI_REPLAY (ipsec_sa_new_replay fl sz)"
    "ipsec_sa_is_set IPSEC_SA_FLAG_ANTI_REPLAY_HUGE (ipsec_sa_new_replay fl sz) \<longleftrightarrow> 64 < unat sz"
  using assms flag_or_huge [of fl] unfolding ipsec_sa_is_set_def new_replay_flags replay_flags_def
  by (auto simp: IPSEC_SA_FLAG_ANTI_REPLAY_HUGE_def)

lemma new_replay_window:
  assumes "replay_flags fl"
  shows "64 < unat sz \<Longrightarrow> replay_window_huge (ipsec_sa_new_replay fl sz) =
      clib_bitmap_set_region [] 0 True (unat (push_bit (max_log2 (ucast sz)) 1 :: u32))"
    "\<not> 64 < unat sz \<Longrightarrow> replay_window (ipsec_sa_new_replay fl sz) = NOT 0"
  using assms flag_or_huge(3) [of fl]
  by (simp_all add: ipsec_sa_new_replay_def ipsec_sa_init_window_def ipsec_sa_select_window_def ipsec_sa_set_def
      ipsec_sa_is_set_def word_less_nat_alt Let_def replay_flags_def) (simp_all add: IPSEC_SA_FLAG_ANTI_REPLAY_HUGE_def)

lemma new_replay_state:
  assumes fl: "replay_flags fl" and sz: "unat sz \<le> 2 ^ 31"
  shows "replay_state (ipsec_sa_new_replay fl sz) 0 {}" "unat sz \<le> replay_size (ipsec_sa_new_replay fl sz)"
proof -
  let ?sa = "ipsec_sa_new_replay fl sz" and ?n = "unat (push_bit (max_log2 (ucast sz)) 1 :: u32)"
  note set = new_replay_set [OF fl, of sz] and flg = new_replay_flags(2,3) [of fl sz]
  have "replay_state ?sa 0 {} \<and> unat sz \<le> replay_size ?sa"
  proof (cases "64 < unat sz")
    case True
    note r = window_rounding [OF True sz] and w = new_replay_window(1) [OF fl True]
    have n: "0 < ?n" "64 dvd ?n" using ring_facts(1,5) [OF r(1)] by auto
    have hs: "huge_size ?sa = ?n"
      unfolding huge_size_def w set_region_length [OF n(1)] by (rule blocks_of_size [OF n])
    have "win_huge ?sa p" for p
      unfolding win_huge_def hs w using n by (simp add: get_set_region)
    then show ?thesis
      using True set flg r hs by (simp add: replay_state_def replay_rep_def replay_size_def huge_ok_def seq_limit_def)
  next
    case False
    then show ?thesis
      using set flg new_replay_window(2) [OF fl False]
      by (auto simp: replay_state_def replay_rep_def replay_size_def seq_limit_def win64_def bit_simps)
  qed
  then show "replay_state ?sa 0 {}" "unat sz \<le> replay_size ?sa" by simp_all
qed

subsection \<open>The sender\<close>

definition sender_limit :: "bool \<Rightarrow> nat" where
  "sender_limit esn = (if esn then 2 ^ 64 else 2 ^ 32)"

definition sender_at :: "'a ipsec_sa_replay_scheme \<Rightarrow> bool \<Rightarrow> nat \<Rightarrow> bool" where
  "sender_at sa esn k \<longleftrightarrow>
     ipsec_sa_is_set IPSEC_SA_FLAG_USE_ANTI_REPLAY sa \<and> ipsec_sa_is_set IPSEC_SA_FLAG_USE_ESN sa = esn \<and>
     seq sa = of_nat k \<and> seq_hi sa = of_nat (k div 2 ^ 32) \<and> k < sender_limit esn"

lemma seq_max_iff: "(of_nat k :: u32) = -1 \<longleftrightarrow> k mod 2 ^ 32 = 2 ^ 32 - 1"
proof -
  have "(of_nat k :: u32) = -1 \<longleftrightarrow> unat (of_nat k :: u32) = unat (-1 :: u32)" by (simp only: word_unat_eq_iff)
  then show ?thesis by (simp only: unat_of_nat_mod unsigned_minus_1_eq_mask) (simp add: mask_eq_exp_minus_1)
qed

lemma seq_advance_step:
  assumes "sender_at sa esn k"
  shows "k + 1 < sender_limit esn \<Longrightarrow> \<exists>sa'. esp_seq_advance sa = (False, sa') \<and> sender_at sa' esn (k + 1)"
    "\<not> k + 1 < sender_limit esn \<Longrightarrow> esp_seq_advance sa = (True, sa)"
proof -
  note st = assms [unfolded sender_at_def]
  have h: "k div 2 ^ 32 < 2 ^ 32" using st by (auto simp: sender_limit_def less_mult_imp_div_less split: if_splits)
  have hi_max: "(of_nat (k div 2 ^ 32) :: u32) = -1 \<longleftrightarrow> k div 2 ^ 32 = 2 ^ 32 - 1"
    using seq_max_iff [of "k div 2 ^ 32"] h by simp
  have low: "(k + 1) div 2 ^ 32 = (if k mod 2 ^ 32 = 2 ^ 32 - 1 then k div 2 ^ 32 + 1 else k div 2 ^ 32)"
    by (simp add: div_Suc mod_Suc)
  have top: "k + 1 < sender_limit esn \<longleftrightarrow> \<not> (k mod 2 ^ 32 = 2 ^ 32 - 1 \<and> (esn \<longrightarrow> k div 2 ^ 32 = 2 ^ 32 - 1))"
  proof -
    obtain q r where qr: "k = q * 2 ^ 32 + r" "r < 2 ^ 32" "k div 2 ^ 32 = q" "unat (of_nat k :: u32) = r" by (rule halves)
    then have "k mod 2 ^ 32 = r" by simp
    moreover have "q = 0" if "\<not> esn" using st qr(1) that by (cases q) (auto simp: sender_limit_def)
    ultimately show ?thesis using qr h st by (cases esn) (auto simp: sender_limit_def)
  qed
  show "\<exists>sa'. esp_seq_advance sa = (False, sa') \<and> sender_at sa' esn (k + 1)" if "k + 1 < sender_limit esn"
    using st that top low hi_max seq_max_iff [of k]
    by (cases esn; cases "k mod 2 ^ 32 = 2 ^ 32 - 1")
      (simp_all add: esp_seq_advance_def sender_at_def ipsec_sa_is_set_def add.commute)
  show "esp_seq_advance sa = (True, sa)" if "\<not> k + 1 < sender_limit esn"
    using st that top hi_max seq_max_iff [of k] by (auto simp: esp_seq_advance_def)
qed

lemma encrypt_run_numbers:
  "sender_at sa esn k \<Longrightarrow> esp_encrypt_run n sa =
    map (\<lambda>i. (of_nat (i div 2 ^ 32), of_nat i)) [k + 1..<min (k + 1 + n) (sender_limit esn)]"
proof (induction n arbitrary: sa k)
  case 0
  then show ?case by simp
next
  case (Suc n)
  show ?case
  proof (cases "k + 1 < sender_limit esn")
    case True
    then obtain sa' where sa': "esp_seq_advance sa = (False, sa')" "sender_at sa' esn (k + 1)"
      using seq_advance_step(1) [OF Suc.prems] by blast
    then have "esp_encrypt_run (Suc n) sa = (of_nat ((k + 1) div 2 ^ 32), of_nat (k + 1)) # esp_encrypt_run n sa'"
      by (simp add: sender_at_def)
    also have "\<dots> = map (\<lambda>i. (of_nat (i div 2 ^ 32), of_nat i)) ((k + 1) # [k + 1 + 1..<min (k + 1 + 1 + n) (sender_limit esn)])"
      unfolding Suc.IH [OF sa'(2)] by (simp only: list.map)
    also have "(k + 1) # [k + 1 + 1..<min (k + 1 + 1 + n) (sender_limit esn)] = [k + 1..<min (k + 1 + Suc n) (sender_limit esn)]"
      using True by (simp add: upt_rec [of "Suc k"])
    finally show ?thesis .
  next
    case False
    then show ?thesis using seq_advance_step(2) [OF Suc.prems False] Suc.IH [OF Suc.prems] by simp
  qed
qed

lemma new_sender: "replay_flags fl \<Longrightarrow> sender_at (ipsec_sa_new_replay fl sz) (fl AND IPSEC_SA_FLAG_USE_ESN \<noteq> 0) 0"
  using new_replay_set [of fl sz] by (simp add: sender_at_def sender_limit_def new_replay_flags)

subsection \<open>The specification\<close>


text \<open>Numbers in order, with gaps the extended numbers can bridge.\<close>

definition in_order :: "bool \<Rightarrow> nat \<Rightarrow> nat list \<Rightarrow> bool" where
  "in_order esn W ns = successively (\<lambda>a b. a < b \<and> (esn \<longrightarrow> b + W \<le> a + 2 ^ 32)) ns"

lemma replay_spec_in_order: "in_order esn W (T # ns) \<Longrightarrow> replay_spec esn W T S ns = ns"
  by (induction ns arbitrary: T S) (auto simp: in_order_def replay_accept_def max_def)

lemma in_order_upt:
  assumes "W \<le> 2 ^ 31" shows "in_order esn W (a # [Suc a..<b])"
proof (induction "b - a" arbitrary: a)
  case (Suc k)
  show ?case
  proof (cases "Suc a < b")
    case True
    then have "in_order esn W (Suc a # [Suc (Suc a)..<b])" using Suc by simp
    with True assms show ?thesis by (simp add: in_order_def upt_conv_Cons)
  qed (simp add: in_order_def)
qed (simp add: in_order_def)

lemma map_filter_all: "map num ps = map Some ns \<Longrightarrow> List.map_filter num ps = ns"
  by (induction ps arbitrary: ns) (auto simp: List.map_filter_simps)

lemma decrypt_run_all:
  assumes "esp_decrypt_run esp_seq icv_ok sa ps = (acc, lost, sa')"
  shows "length acc \<le> length ps \<and> (length acc = length ps \<longrightarrow> acc = ps) \<and> set acc \<subseteq> set ps"
  using assms
proof (induction ps arbitrary: sa acc lost)
  case (Cons p ps)
  then show ?case by (fastforce split: option.splits prod.splits)
qed simp

subsection \<open>The receiver of a new SA\<close>



lemma new_sa_run:
  assumes fl: "replay_flags fl" and sz: "unat sz \<le> 2 ^ 31" and esn: "esn = (fl AND IPSEC_SA_FLAG_USE_ESN \<noteq> 0)"
    and sa: "sa = ipsec_sa_new_replay fl sz"
    and icv: "\<forall>p\<in>set ps. icv_sound esn esp_seq icv_ok num p"
    and run: "esp_decrypt_run esp_seq icv_ok sa ps = (acc, lost, sa')"
  shows "map num acc = map Some (replay_spec esn (replay_size sa) 0 {} (List.map_filter num ps))"
    "replay_state sa' (fold max (List.map_filter num acc) 0) {n. Some n \<in> num ` set acc}"
    "lost = card (replay_lost (replay_size sa) (fold max (List.map_filter num acc) 0) {n. Some n \<in> num ` set acc})"
    "replay_size sa' = replay_size sa"
proof -
  have "replay_lost (replay_size sa) 0 {} = {}" by (auto simp: replay_lost_def)
  with decrypt_run_refines [OF new_replay_state(1) [OF fl sz] new_replay_set(1) [OF fl], folded esn sa, OF icv run]
  show "map num acc = map Some (replay_spec esn (replay_size sa) 0 {} (List.map_filter num ps))"
    "replay_state sa' (fold max (List.map_filter num acc) 0) {n. Some n \<in> num ` set acc}"
    "lost = card (replay_lost (replay_size sa) (fold max (List.map_filter num acc) 0) {n. Some n \<in> num ` set acc})"
    "replay_size sa' = replay_size sa"
    by auto
qed

lemma replay_state_size:
  assumes "replay_state sa T S" shows "64 \<le> replay_size sa" "replay_size sa \<le> 2 ^ 31"
  using assms whuge.size_facts(1,2) [of sa]
  by (auto simp: replay_state_def replay_size_def replay_rep_def huge_ok_def split: if_splits)



subsection \<open>Properties\<close>

text \<open>For the witnesses: packets are numbers, all of them genuine.\<close>

definition number_icv :: "nat \<Rightarrow> u32 \<Rightarrow> bool" where
  "number_icv n hi \<longleftrightarrow> hi = of_nat (n div 2 ^ 32)"

lemma number_icv_sound: "0 < n \<and> n < seq_limit esn \<Longrightarrow> icv_sound esn of_nat number_icv Some n"
  by (simp add: icv_sound_def number_icv_def)

lemma witness_flags: "replay_flags 3" "3 AND IPSEC_SA_FLAG_USE_ESN \<noteq> 0" "replay_flags 2" "\<not> 2 AND IPSEC_SA_FLAG_USE_ESN \<noteq> 0"
  by (simp_all add: replay_flags_def IPSEC_SA_FLAG_USE_ANTI_REPLAY_def IPSEC_SA_FLAG_ANTI_REPLAY_HUGE_def IPSEC_SA_FLAG_USE_ESN_def)












text \<open>C8. From sender to receiver: packets of a new sender that reach a new receiver with the same flags in
  order, however many, are all accepted, across every wrap of the low word, with any window.\<close>

theorem esp_in_order_delivery:
  assumes "replay_flags fl" "unat sz \<le> 2 ^ 31" "esn = (fl AND IPSEC_SA_FLAG_USE_ESN \<noteq> 0)" "n < seq_limit esn"
    "map num ps = map (\<lambda>(hi, lo). Some (unat hi * 2 ^ 32 + unat lo)) (esp_encrypt_run n (ipsec_sa_new_replay fl sz'))"
    "\<forall>p\<in>set ps. icv_sound esn esp_seq icv_ok num p"
  shows "length ps = n \<and> fst (esp_decrypt_run esp_seq icv_ok (ipsec_sa_new_replay fl sz) ps) = ps"
proof -
  let ?sa = "ipsec_sa_new_replay fl sz"
  obtain acc lost sa' where run: "esp_decrypt_run esp_seq icv_ok ?sa ps = (acc, lost, sa')" by (metis prod_cases3)
  have lim: "1 + n \<le> sender_limit esn" using assms(4) by (auto simp: sender_limit_def seq_limit_def split: if_splits)
  have num: "unat (of_nat (i div 2 ^ 32) :: u32) * 2 ^ 32 + unat (of_nat i :: u32) = i" if "i < 1 + n" for i
  proof -
    have "i div 2 ^ 32 < 2 ^ 32" using that assms(4) by (auto simp: seq_limit_def less_mult_imp_div_less split: if_splits)
    then show ?thesis by (simp add: unat_of_nat_mod)
  qed
  have "map num ps = map Some [1..<1 + n]"
    unfolding assms(5) encrypt_run_numbers [OF new_sender [OF assms(1)], folded assms(3)] using num lim
    by (auto simp: min_absorb1)
  note ps = this
  have len: "length ps = n" using arg_cong [OF ps, of length] by simp
  have mf: "List.map_filter num ps = [1..<1 + n]" by (rule map_filter_all [OF ps])
  have "in_order esn (replay_size ?sa) (0 # [Suc 0..<1 + n])"
    by (rule in_order_upt [OF replay_state_size(2) [OF new_replay_state(1) [OF assms(1,2)]]])
  then have "map num acc = map Some [1..<1 + n]"
    using new_sa_run(1) [OF assms(1-3) refl assms(6) run] replay_spec_in_order by (simp add: mf)
  from arg_cong [OF this, of length] have "length acc = n" by simp
  then show ?thesis using decrypt_run_all [OF run] len run by simp
qed

theorem esp_in_order_delivery_witness:
  "fst (esp_decrypt_run of_nat number_icv (ipsec_sa_new_replay 3 64) [1 :: nat, 2, 3]) = [1, 2, 3]"
proof -
  have "esp_encrypt_run 3 (ipsec_sa_new_replay 3 64) = [(0, 1), (0, 2), (0, 3)]"
    using encrypt_run_numbers [OF new_sender [OF witness_flags(1)], of 3 64] witness_flags(2)
    by (simp add: sender_limit_def upt_rec)
  then show ?thesis
    using esp_in_order_delivery [OF witness_flags(1), of 64 True 3 Some "[1, 2, 3]" 64 of_nat number_icv] witness_flags(2)
    by (simp add: seq_limit_def number_icv_sound del: esp_decrypt_run.simps)
qed

text \<open>C16. Frames. The node decrypts a frame of packets before it advances the window for any of them; without extended
  sequence numbers the second check makes up for that, and no number is accepted twice in whatever frames the packets
  arrive.\<close>

theorem esp_frames_no_replay:
  assumes "replay_flags fl" "unat sz \<le> 2 ^ 31" "fl AND IPSEC_SA_FLAG_USE_ESN = 0"
    "\<forall>f\<in>set fs. \<forall>p\<in>set f. icv_sound False esp_seq icv_ok num p"
    "esp_decrypt_frames esp_seq icv_ok (ipsec_sa_new_replay fl sz) fs = (acc, sa')"
  shows "distinct (map num acc) \<and> (\<forall>p\<in>set acc. num p \<noteq> None)"
proof -
  let ?sa = "ipsec_sa_new_replay fl sz"
  note st = new_replay_state(1) [OF assms(1,2)]
  have esn: "\<not> ipsec_sa_is_set IPSEC_SA_FLAG_USE_ESN ?sa" using new_replay_set(1) [OF assms(1)] assms(3) by simp
  show ?thesis
  proof (cases "ipsec_sa_is_set IPSEC_SA_FLAG_ANTI_REPLAY_HUGE ?sa")
    case True
    then have rep: "replay_rep huge_ok huge_size win_huge ?sa 0 {}" using st by (simp add: replay_state_def)
    show ?thesis using whuge.frames_plain [OF rep _ esn assms(4,5)] True by simp
  next
    case False
    then have rep: "replay_rep (\<lambda>sa. True) (\<lambda>sa. 64) win64 ?sa 0 {}" using st by (simp add: replay_state_def)
    show ?thesis using w64.frames_plain [OF rep _ esn assms(4,5)] False by simp
  qed
qed

theorem esp_frames_no_replay_witness:
  "distinct (map Some (fst (esp_decrypt_frames of_nat number_icv (ipsec_sa_new_replay 2 64) [[7 :: nat, 7], [8, 7]])))"
proof -
  obtain acc sa' where run: "esp_decrypt_frames of_nat number_icv (ipsec_sa_new_replay 2 64) [[7 :: nat, 7], [8, 7]] = (acc, sa')" by fastforce
  show ?thesis
    unfolding run fst_conv using esp_frames_no_replay [OF witness_flags(3) _ _ _ run, of Some] witness_flags(4)
    by (simp add: number_icv_sound seq_limit_def)
qed

subsection \<open>A replay within one frame\<close>








end
