(* ===== verification/Ipsec_Policy.thy ===== *)
theory Ipsec_Policy
  imports Pool Ip4_Address Anti_Replay
begin

unbundle bit_operations_syntax

text \<open>
  Security policies and the state of IPsec, \<^verbatim>\<open>vnet/ipsec/ipsec_spd_policy.h\<close>, \<^verbatim>\<open>vnet/ipsec/ipsec_spd.h\<close>
  and \<^verbatim>\<open>vnet/ipsec/ipsec.h\<close>: the selectors of a policy, the databases (SPDs) with a vector of policies of
  each type, the pools they live in, the tables that name them, and the caches of flows. Policies, SPDs and SAs
  are in pools (theory \<open>Pool\<close>); the index \<open>~0\<close> is \<open>None\<close>. The fast path, a second representation of the
  databases that is off by default, is outside the model: operations that would use it are \<open>None\<close>.
\<close>

subsection \<open>Addresses and selectors\<close>

text \<open>An IPv6 address as two words in memory order; an \<open>ip46_address_t\<close> holds an IPv4 address in its last four
  bytes.\<close>

record ip6_address =
  as_u64_0 :: u64
  as_u64_1 :: u64

type_synonym ip46_address = ip6_address

definition ip46_ip4 :: "ip46_address \<Rightarrow> ip4_address" where
  "ip46_ip4 a = ucast (drop_bit 32 (as_u64_1 a))"

definition ip6_as_u8 :: "ip6_address \<Rightarrow> nat \<Rightarrow> u8" where
  "ip6_as_u8 a i = (if i < 8 then ucast (drop_bit (8 * i) (as_u64_0 a)) else ucast (drop_bit (8 * (i - 8)) (as_u64_1 a)))"

text \<open>The sign of the C function on the bytes.\<close>

fun memcmp :: "u8 list \<Rightarrow> u8 list \<Rightarrow> int" where
  "memcmp (a # as) (b # bs) = (if a < b then - 1 else if b < a then 1 else memcmp as bs)"
| "memcmp _ _ = 0"

definition ip6_bytes :: "ip6_address \<Rightarrow> u8 list" where
  "ip6_bytes a = map (ip6_as_u8 a) [0..<16]"

definition ip6_addr_match_range :: "ip6_address \<Rightarrow> ip6_address \<Rightarrow> ip6_address \<Rightarrow> bool" where
  "ip6_addr_match_range a la ua \<longleftrightarrow> memcmp (ip6_bytes a) (ip6_bytes la) \<ge> 0 \<and> memcmp (ip6_bytes a) (ip6_bytes ua) \<le> 0"

record ip46_address_range =
  addr_start :: ip46_address
  addr_stop :: ip46_address

record port_range =
  port_start :: u16
  port_stop :: u16

subsection \<open>Policies\<close>

datatype ipsec_policy_action =
  IPSEC_POLICY_ACTION_BYPASS | IPSEC_POLICY_ACTION_DISCARD | IPSEC_POLICY_ACTION_RESOLVE | IPSEC_POLICY_ACTION_PROTECT

datatype ipsec_spd_policy_type =
  IPSEC_SPD_POLICY_IP4_OUTBOUND | IPSEC_SPD_POLICY_IP6_OUTBOUND
| IPSEC_SPD_POLICY_IP4_INBOUND_PROTECT | IPSEC_SPD_POLICY_IP6_INBOUND_PROTECT
| IPSEC_SPD_POLICY_IP4_INBOUND_BYPASS | IPSEC_SPD_POLICY_IP6_INBOUND_BYPASS
| IPSEC_SPD_POLICY_IP4_INBOUND_DISCARD | IPSEC_SPD_POLICY_IP6_INBOUND_DISCARD

record ipsec_policy =
  policy_spd_id :: u32
  priority :: int
  policy_type :: ipsec_spd_policy_type
  policy_is_ipv6 :: bool
  laddr :: ip46_address_range
  raddr :: ip46_address_range
  policy_protocol :: u8
  lport :: port_range
  rport :: port_range
  policy_action :: ipsec_policy_action
  policy_sa_id :: u32
  policy_sa_index :: "nat option"

fun ipsec_policy_mk_type :: "bool \<Rightarrow> bool \<Rightarrow> ipsec_policy_action \<Rightarrow> ipsec_spd_policy_type option" where
  "ipsec_policy_mk_type True is_ipv6 _ =
     Some (if is_ipv6 then IPSEC_SPD_POLICY_IP6_OUTBOUND else IPSEC_SPD_POLICY_IP4_OUTBOUND)"
| "ipsec_policy_mk_type False is_ipv6 IPSEC_POLICY_ACTION_PROTECT =
     Some (if is_ipv6 then IPSEC_SPD_POLICY_IP6_INBOUND_PROTECT else IPSEC_SPD_POLICY_IP4_INBOUND_PROTECT)"
| "ipsec_policy_mk_type False is_ipv6 IPSEC_POLICY_ACTION_BYPASS =
     Some (if is_ipv6 then IPSEC_SPD_POLICY_IP6_INBOUND_BYPASS else IPSEC_SPD_POLICY_IP4_INBOUND_BYPASS)"
| "ipsec_policy_mk_type False is_ipv6 IPSEC_POLICY_ACTION_DISCARD =
     Some (if is_ipv6 then IPSEC_SPD_POLICY_IP6_INBOUND_DISCARD else IPSEC_SPD_POLICY_IP4_INBOUND_DISCARD)"
| "ipsec_policy_mk_type False _ IPSEC_POLICY_ACTION_RESOLVE = None"

definition ipsec_is_policy_inbound :: "ipsec_policy \<Rightarrow> bool" where
  "ipsec_is_policy_inbound p \<longleftrightarrow>
     policy_type p = IPSEC_SPD_POLICY_IP4_INBOUND_PROTECT \<or> policy_type p = IPSEC_SPD_POLICY_IP4_INBOUND_BYPASS \<or>
     policy_type p = IPSEC_SPD_POLICY_IP4_INBOUND_DISCARD \<or> policy_type p = IPSEC_SPD_POLICY_IP6_INBOUND_PROTECT \<or>
     policy_type p = IPSEC_SPD_POLICY_IP6_INBOUND_BYPASS \<or> policy_type p = IPSEC_SPD_POLICY_IP6_INBOUND_DISCARD"

text \<open>The last comparison for IPv6 is written as it is in the code: it compares the local range once more.\<close>

definition ipsec_policy_is_equal :: "ipsec_policy \<Rightarrow> ipsec_policy \<Rightarrow> bool" where
  "ipsec_policy_is_equal p1 p2 \<longleftrightarrow>
     priority p1 = priority p2 \<and> policy_type p1 = policy_type p2 \<and> policy_action p1 = policy_action p2 \<and>
     policy_sa_id p1 = policy_sa_id p2 \<and> policy_protocol p1 = policy_protocol p2 \<and>
     port_start (lport p1) = port_start (lport p2) \<and> port_stop (lport p1) = port_stop (lport p2) \<and>
     port_start (rport p1) = port_start (rport p2) \<and> port_stop (rport p1) = port_stop (rport p2) \<and>
     policy_is_ipv6 p1 = policy_is_ipv6 p2 \<and>
     (if policy_is_ipv6 p2
      then as_u64_0 (addr_start (laddr p1)) = as_u64_0 (addr_start (laddr p2)) \<and>
           as_u64_1 (addr_start (laddr p1)) = as_u64_1 (addr_start (laddr p2)) \<and>
           as_u64_0 (addr_stop (laddr p1)) = as_u64_0 (addr_stop (laddr p2)) \<and>
           as_u64_1 (addr_stop (laddr p1)) = as_u64_1 (addr_stop (laddr p2)) \<and>
           as_u64_0 (addr_start (raddr p1)) = as_u64_0 (addr_start (raddr p2)) \<and>
           as_u64_1 (addr_start (raddr p1)) = as_u64_1 (addr_start (raddr p2)) \<and>
           as_u64_0 (addr_stop (raddr p1)) = as_u64_0 (addr_stop (raddr p2)) \<and>
           as_u64_1 (addr_stop (laddr p1)) = as_u64_1 (addr_stop (laddr p2))
      else ip46_ip4 (addr_start (laddr p1)) = ip46_ip4 (addr_start (laddr p2)) \<and>
           ip46_ip4 (addr_stop (laddr p1)) = ip46_ip4 (addr_stop (laddr p2)) \<and>
           ip46_ip4 (addr_start (raddr p1)) = ip46_ip4 (addr_start (raddr p2)) \<and>
           ip46_ip4 (addr_stop (raddr p1)) = ip46_ip4 (addr_stop (raddr p2)))"

subsection \<open>Databases and the state of IPsec\<close>

record ipsec_spd =
  spd_id :: u32
  spd_policies :: "ipsec_spd_policy_type \<Rightarrow> nat list"
  ip4_out_lookup_hash_idx :: "nat option"
  ip4_in_lookup_hash_idx :: "nat option"
  ip6_out_lookup_hash_idx :: "nat option"
  ip6_in_lookup_hash_idx :: "nat option"

text \<open>Of an SA: its name, its SPI, the locks on its node, its tunnel and the state of its window.\<close>

record ipsec_sa = ipsec_sa_replay +
  sa_name :: u32
  sa_spi :: u32
  sa_locks :: u32
  sa_is_ah :: bool
  t_src :: ip46_address
  t_dst :: ip46_address

text \<open>An entry of a flow cache. The keys are the 16 bytes of a tuple, here the tuple itself.\<close>

record 'k ipsec4_hash_kv =
  kv_key :: 'k
  kv_value :: u64

type_synonym ipsec4_spd_5tuple = "u32 \<times> u32 \<times> u16 \<times> u16 \<times> u8"

type_synonym ipsec4_inbound_spd_tuple = "u32 \<times> u32 \<times> ipsec_spd_policy_type"

record ipsec_main =
  spds :: "ipsec_spd pool"
  policies :: "ipsec_policy pool"
  ipsec_sa_pool :: "ipsec_sa pool"
  spd_index_by_spd_id :: "u32 \<rightharpoonup> nat"
  spd_index_by_sw_if_index :: "u32 \<rightharpoonup> nat"
  sa_index_by_sa_id :: "u32 \<rightharpoonup> nat"
  fp_spd_ipv4_out_is_enabled :: bool
  fp_spd_ipv4_in_is_enabled :: bool
  fp_spd_ipv6_out_is_enabled :: bool
  fp_spd_ipv6_in_is_enabled :: bool
  ipsec4_out_spd_hash_tbl :: "ipsec4_spd_5tuple ipsec4_hash_kv list"
  ipsec4_out_spd_flow_cache_entries :: u32
  epoch_count :: u32
  output_flow_cache_flag :: bool
  ipsec4_in_spd_hash_tbl :: "ipsec4_inbound_spd_tuple ipsec4_hash_kv list"
  ipsec4_in_spd_flow_cache_entries :: u32
  input_epoch_count :: u32
  input_flow_cache_flag :: bool
  output_feature :: "u32 \<Rightarrow> bool"
  input_config :: "u32 \<rightharpoonup> nat"

definition ipsec_is_fp_enabled :: "ipsec_main \<Rightarrow> ipsec_spd \<Rightarrow> ipsec_policy \<Rightarrow> bool" where
  "ipsec_is_fp_enabled im spd p \<longleftrightarrow>
     fp_spd_ipv4_out_is_enabled im \<and> ip4_out_lookup_hash_idx spd \<noteq> None \<and> policy_type p = IPSEC_SPD_POLICY_IP4_OUTBOUND \<or>
     fp_spd_ipv4_in_is_enabled im \<and> ip4_in_lookup_hash_idx spd \<noteq> None \<and>
       (policy_type p = IPSEC_SPD_POLICY_IP4_INBOUND_PROTECT \<or> policy_type p = IPSEC_SPD_POLICY_IP4_INBOUND_BYPASS \<or>
        policy_type p = IPSEC_SPD_POLICY_IP4_INBOUND_DISCARD) \<or>
     fp_spd_ipv6_in_is_enabled im \<and> ip6_in_lookup_hash_idx spd \<noteq> None \<and>
       (policy_type p = IPSEC_SPD_POLICY_IP6_INBOUND_PROTECT \<or> policy_type p = IPSEC_SPD_POLICY_IP6_INBOUND_BYPASS \<or>
        policy_type p = IPSEC_SPD_POLICY_IP6_INBOUND_DISCARD) \<or>
     fp_spd_ipv6_out_is_enabled im \<and> ip6_out_lookup_hash_idx spd \<noteq> None \<and> policy_type p = IPSEC_SPD_POLICY_IP6_OUTBOUND"

subsection \<open>Locks on SAs\<close>

text \<open>Deletion of an SA: what it does to the tables; keys, tunnel and port registrations are not part of the
  model.\<close>

definition ipsec_sa_del :: "nat \<Rightarrow> ipsec_main \<Rightarrow> ipsec_main" where
  "ipsec_sa_del sai im =
     (let sa = pool_elt_at_index (ipsec_sa_pool im) sai
      in im\<lparr>sa_index_by_sa_id := (sa_index_by_sa_id im)(sa_name sa := None),
            ipsec_sa_pool := pool_put_index (ipsec_sa_pool im) sai\<rparr>)"

definition ipsec_sa_lock :: "nat option \<Rightarrow> ipsec_main \<Rightarrow> ipsec_main" where
  "ipsec_sa_lock sai im =
     (case sai of None \<Rightarrow> im
      | Some sai \<Rightarrow> let sa = pool_elt_at_index (ipsec_sa_pool im) sai
          in im\<lparr>ipsec_sa_pool := pool_write (ipsec_sa_pool im) sai (sa\<lparr>sa_locks := sa_locks sa + 1\<rparr>)\<rparr>)"

text \<open>The last lock that goes deletes the SA.\<close>

definition ipsec_sa_unlock :: "nat option \<Rightarrow> ipsec_main \<Rightarrow> ipsec_main" where
  "ipsec_sa_unlock sai im =
     (case sai of None \<Rightarrow> im
      | Some sai \<Rightarrow>
          let sa = pool_elt_at_index (ipsec_sa_pool im) sai;
              im = im\<lparr>ipsec_sa_pool := pool_write (ipsec_sa_pool im) sai (sa\<lparr>sa_locks := sa_locks sa - 1\<rparr>)\<rparr>
          in if sa_locks sa - 1 = 0 then ipsec_sa_del sai im else im)"

definition ipsec_sa_find_and_lock :: "u32 \<Rightarrow> ipsec_main \<Rightarrow> nat option \<times> ipsec_main" where
  "ipsec_sa_find_and_lock sid im =
     (case sa_index_by_sa_id im sid of None \<Rightarrow> (None, im) | Some sai \<Rightarrow> (Some sai, ipsec_sa_lock (Some sai) im))"

definition ipsec_sa_unlock_id :: "u32 \<Rightarrow> ipsec_main \<Rightarrow> bool \<times> ipsec_main" where
  "ipsec_sa_unlock_id sid im =
     (case sa_index_by_sa_id im sid of None \<Rightarrow> (False, im) | Some sai \<Rightarrow> (True, ipsec_sa_unlock (Some sai) im))"

end
