(* ===== verification/Ipsec_Spd.thy ===== *)
theory Ipsec_Spd
  imports Ipsec_Policy "HOL-Library.Monad_Syntax"
begin

unbundle bit_operations_syntax

text \<open>
  The control plane of the security policy databases: creation and deletion of an SPD and its binding to
  interfaces, \<^verbatim>\<open>vnet/ipsec/ipsec_spd.c\<close>, and of policies, \<^verbatim>\<open>vnet/ipsec/ipsec_spd_policy.c\<close>. A result is \<open>None\<close>
  when memory runs out or the fast path would be used; otherwise it is the code returned and the new state.
\<close>

subsection \<open>Operations\<close>

datatype vnet_api_rv =
  VNET_API_OK | VNET_API_ERROR_SYSCALL_ERROR_1 | VNET_API_ERROR_SYSCALL_ERROR_2
| VNET_API_ERROR_ENTRY_ALREADY_EXISTS | VNET_API_ERROR_NO_SUCH_ENTRY

text \<open>Binding an SPD to an interface. The features of the interface are on exactly while it is bound; the input
  feature keeps the index of the SPD as its configuration.\<close>

definition ipsec_set_interface_spd :: "u32 \<Rightarrow> u32 \<Rightarrow> bool \<Rightarrow> ipsec_main \<Rightarrow> vnet_api_rv \<times> ipsec_main" where
  "ipsec_set_interface_spd sw_if_index sid is_add im =
     (case spd_index_by_spd_id im sid of
        None \<Rightarrow> (VNET_API_ERROR_SYSCALL_ERROR_1, im)
      | Some spd_index \<Rightarrow>
          if spd_index_by_sw_if_index im sw_if_index \<noteq> None \<and> is_add then (VNET_API_ERROR_SYSCALL_ERROR_2, im)
          else
            let im = (if is_add
                      then im\<lparr>spd_index_by_sw_if_index := (spd_index_by_sw_if_index im)(sw_if_index \<mapsto> spd_index)\<rparr>
                      else im\<lparr>spd_index_by_sw_if_index := (spd_index_by_sw_if_index im)(sw_if_index := None)\<rparr>);
                im = im\<lparr>output_feature := (output_feature im)(sw_if_index := is_add)\<rparr>;
                im = im\<lparr>input_config := (input_config im)(sw_if_index := (if is_add then Some spd_index else None))\<rparr>
            in (VNET_API_OK, im))"

definition empty_spd :: ipsec_spd where
  "empty_spd = \<lparr>spd_id = 0, spd_policies = (\<lambda>_. []), ip4_out_lookup_hash_idx = None, ip4_in_lookup_hash_idx = None,
                ip6_out_lookup_hash_idx = None, ip6_in_lookup_hash_idx = None\<rparr>"

text \<open>The interfaces bound to an SPD are visited in the order \<open>walk\<close> of the hash table.\<close>

definition ipsec_add_del_spd ::
  "((u32 \<rightharpoonup> nat) \<Rightarrow> (u32 \<times> nat) list) \<Rightarrow> u32 \<Rightarrow> bool \<Rightarrow> ipsec_main \<Rightarrow> (vnet_api_rv \<times> ipsec_main) option" where
  "ipsec_add_del_spd walk sid is_add im =
     (case spd_index_by_spd_id im sid of
        Some spd_index \<Rightarrow>
          if is_add then Some (VNET_API_ERROR_ENTRY_ALREADY_EXISTS, im)
          else
            let im = fold (\<lambda>(k, v) im. if v = spd_index then snd (ipsec_set_interface_spd k sid False im) else im)
                       (walk (spd_index_by_sw_if_index im)) im;
                im = im\<lparr>spd_index_by_spd_id := (spd_index_by_spd_id im)(sid := None)\<rparr>;
                spd = pool_elt_at_index (spds im) spd_index;
                spd = spd\<lparr>spd_policies := (\<lambda>_. [])\<rparr>;
                im = im\<lparr>spds := pool_write (spds im) spd_index spd\<rparr>
            in if fp_spd_ipv4_out_is_enabled im \<or> fp_spd_ipv4_in_is_enabled im \<or>
                  fp_spd_ipv6_out_is_enabled im \<or> fp_spd_ipv6_in_is_enabled im then None
               else Some (VNET_API_OK, im\<lparr>spds := pool_put_index (spds im) spd_index\<rparr>)
      | None \<Rightarrow>
          if \<not> is_add then Some (VNET_API_ERROR_NO_SUCH_ENTRY, im)
          else do {
            (spd_index, pl) \<leftarrow> pool_get empty_spd (spds im);
            let im = im\<lparr>spds := pool_write pl spd_index (empty_spd\<lparr>spd_id := sid\<rparr>),
                        spd_index_by_spd_id := (spd_index_by_spd_id im)(sid \<mapsto> spd_index)\<rparr>;
            if fp_spd_ipv4_out_is_enabled im \<or> fp_spd_ipv4_in_is_enabled im \<or>
               fp_spd_ipv6_out_is_enabled im \<or> fp_spd_ipv6_in_is_enabled im then None
            else Some (VNET_API_OK, im) })"

text \<open>A change of the IPv4 policies makes the entries of a flow cache stale: the epoch advances, and before it
  wraps the cache is reset.\<close>

definition out_epoch_step :: "ipsec_policy \<Rightarrow> ipsec_main \<Rightarrow> ipsec_main" where
  "out_epoch_step p im =
     (if output_flow_cache_flag im \<and> \<not> policy_is_ipv6 p \<and> policy_type p = IPSEC_SPD_POLICY_IP4_OUTBOUND
      then
        let im = (if epoch_count im = 0xFFFFFFFF
                  then im\<lparr>ipsec4_out_spd_hash_tbl :=
                         map (\<lambda>_. \<lparr>kv_key = (0, 0, 0, 0, 0), kv_value = 0\<rparr>) (ipsec4_out_spd_hash_tbl im)\<rparr>
                  else im)
        in im\<lparr>epoch_count := epoch_count im + 1, ipsec4_out_spd_flow_cache_entries := 0\<rparr>
      else im)"

definition in_epoch_step :: "ipsec_policy \<Rightarrow> ipsec_main \<Rightarrow> ipsec_main" where
  "in_epoch_step p im =
     (if (policy_type p = IPSEC_SPD_POLICY_IP4_INBOUND_PROTECT \<or> policy_type p = IPSEC_SPD_POLICY_IP4_INBOUND_BYPASS \<or>
          policy_type p = IPSEC_SPD_POLICY_IP4_INBOUND_DISCARD) \<and> input_flow_cache_flag im \<and> \<not> policy_is_ipv6 p
      then
        let im = (if input_epoch_count im = 0xFFFFFFFF
                  then im\<lparr>ipsec4_in_spd_hash_tbl :=
                         map (\<lambda>_. \<lparr>kv_key = (0, 0, IPSEC_SPD_POLICY_IP4_OUTBOUND), kv_value = 0\<rparr>) (ipsec4_in_spd_hash_tbl im)\<rparr>
                  else im)
        in im\<lparr>input_epoch_count := input_epoch_count im + 1, ipsec4_in_spd_flow_cache_entries := 0\<rparr>
      else im)"

text \<open>Where a policy goes: before the first one that does not have a higher priority.\<close>

fun insert_pos :: "ipsec_policy pool \<Rightarrow> int \<Rightarrow> nat list \<Rightarrow> nat" where
  "insert_pos pl prio [] = 0"
| "insert_pos pl prio (i # is) = (if priority (pool_elt_at_index pl i) \<le> prio then 0 else Suc (insert_pos pl prio is))"

definition vec_insert :: "'a \<Rightarrow> nat \<Rightarrow> 'a list \<Rightarrow> 'a list" where
  "vec_insert x i v = take i v @ x # drop i v"

definition vec_delete :: "nat \<Rightarrow> 'a list \<Rightarrow> 'a list" where
  "vec_delete i v = take i v @ drop (Suc i) v"

fun find_equal :: "ipsec_policy pool \<Rightarrow> ipsec_policy \<Rightarrow> nat list \<Rightarrow> nat option" where
  "find_equal pl p [] = None"
| "find_equal pl p (i # is) =
     (if ipsec_policy_is_equal (pool_elt_at_index pl i) p then Some 0 else map_option Suc (find_equal pl p is))"

definition set_vector :: "nat \<Rightarrow> ipsec_spd_policy_type \<Rightarrow> nat list \<Rightarrow> ipsec_main \<Rightarrow> ipsec_main" where
  "set_vector s t v im =
     (let spd = pool_elt_at_index (spds im) s
      in im\<lparr>spds := pool_write (spds im) s (spd\<lparr>spd_policies := (spd_policies spd)(t := v)\<rparr>)\<rparr>)"

text \<open>Addition and deletion of a policy; the index of a new policy, which is that of its counters, is returned.\<close>

definition ipsec_add_del_policy ::
  "ipsec_policy \<Rightarrow> bool \<Rightarrow> ipsec_main \<Rightarrow> (vnet_api_rv \<times> nat option \<times> ipsec_main) option" where
  "ipsec_add_del_policy p is_add im =
     (case spd_index_by_spd_id im (policy_spd_id p) of
        None \<Rightarrow> Some (VNET_API_ERROR_SYSCALL_ERROR_1, None, im)
      | Some s \<Rightarrow>
          let spd = pool_elt_at_index (spds im) s;
              im = in_epoch_step p (out_epoch_step p im)
          in
          if is_add
          then
            let (found, im) = (if policy_action p = IPSEC_POLICY_ACTION_PROTECT
                               then ipsec_sa_find_and_lock (policy_sa_id p) im else (None, im))
            in
            if policy_action p = IPSEC_POLICY_ACTION_PROTECT \<and> found = None
            then Some (VNET_API_ERROR_SYSCALL_ERROR_1, None, im)
            else if ipsec_is_fp_enabled im spd p then None
            else do {
              let p = p\<lparr>policy_sa_index := found\<rparr>;
              (policy_index, pl) \<leftarrow> pool_get p (policies im);
              let pl = pool_write pl policy_index p;
              let v = spd_policies spd (policy_type p);
              Some (VNET_API_OK, Some policy_index,
                set_vector s (policy_type p) (vec_insert policy_index (insert_pos pl (priority p) v) v)
                  (im\<lparr>policies := pl\<rparr>)) }
          else if ipsec_is_fp_enabled im spd p then None
          else
            let v = spd_policies spd (policy_type p)
            in case find_equal (policies im) p v of
                 None \<Rightarrow> Some (VNET_API_OK, None, im)
               | Some ii \<Rightarrow>
                   let vp = v ! ii;
                       im = set_vector s (policy_type p) (vec_delete ii v) im;
                       im = ipsec_sa_unlock (policy_sa_index (pool_elt_at_index (policies im) vp)) im
                   in Some (VNET_API_OK, None, im\<lparr>policies := pool_put_index (policies im) vp\<rparr>))"

subsection \<open>Vectors of policies as lists\<close>

lemma pool_map_elt: "pool_map p i = Some x \<Longrightarrow> pool_elt_at_index p i = x"
  by (simp add: pool_map_def split: if_splits)

lemma pool_map_active: "pool_map p i = Some x \<Longrightarrow> i \<in> pool_active p"
  by (simp add: pool_map_def split: if_splits)

text \<open>A policy goes before the first one of no higher priority; the first equal policy goes.\<close>

definition policy_insert :: "ipsec_policy \<Rightarrow> ipsec_policy list \<Rightarrow> ipsec_policy list" where
  "policy_insert p ps =
     takeWhile (\<lambda>q. priority p < priority q) ps @ p # dropWhile (\<lambda>q. priority p < priority q) ps"

fun policy_remove :: "ipsec_policy \<Rightarrow> ipsec_policy list \<Rightarrow> ipsec_policy list" where
  "policy_remove p [] = []"
| "policy_remove p (q # qs) = (if ipsec_policy_is_equal q p then qs else q # policy_remove p qs)"

definition by_priority :: "ipsec_policy list \<Rightarrow> bool" where
  "by_priority = sorted_wrt (\<lambda>p q. priority q \<le> priority p)"

lemma insert_pos_takeWhile:
  "insert_pos pl prio v = length (takeWhile (\<lambda>q. prio < priority q) (map (pool_elt_at_index pl) v))"
  by (induction v) auto

lemma map_vec_insert:
  assumes "pool_elt_at_index pl i = p"
  shows "map (pool_elt_at_index pl) (vec_insert i (insert_pos pl (priority p) v) v) =
         policy_insert p (map (pool_elt_at_index pl) v)"
  using assms
  by (simp add: vec_insert_def policy_insert_def insert_pos_takeWhile take_map [symmetric] drop_map [symmetric]
      takeWhile_eq_take [symmetric] dropWhile_eq_drop [symmetric])

lemma find_equal_bound: "find_equal pl p v = Some ii \<Longrightarrow> ii < length v \<and> ipsec_policy_is_equal (pool_elt_at_index pl (v ! ii)) p"
  by (induction v arbitrary: ii) (auto split: if_splits)

lemma map_vec_delete:
  "find_equal pl p v = Some ii \<Longrightarrow>
     map (pool_elt_at_index pl) (vec_delete ii v) = policy_remove p (map (pool_elt_at_index pl) v)"
  by (induction v arbitrary: ii) (auto simp: vec_delete_def split: if_splits)

lemma policy_remove_absent: "find_equal pl p v = None \<Longrightarrow> policy_remove p (map (pool_elt_at_index pl) v) = map (pool_elt_at_index pl) v"
  by (induction v) (auto split: if_splits)

lemma by_priority_insert: "by_priority ps \<Longrightarrow> by_priority (policy_insert p ps)"
proof -
  assume s: "by_priority ps"
  define a b where "a = takeWhile (\<lambda>q. priority p < priority q) ps" "b = dropWhile (\<lambda>q. priority p < priority q) ps"
  have ab: "sorted_wrt (\<lambda>p q. priority q \<le> priority p) (a @ b)"
    using s by (simp add: by_priority_def a_b_def)
  have a: "\<forall>q \<in> set a. priority p < priority q"
    by (auto simp: a_b_def dest: set_takeWhileD)
  have "priority q \<le> priority p" if "q \<in> set b" for q
  proof (cases b)
    case (Cons x xs)
    then have "\<not> priority p < priority x"
      using hd_dropWhile [of "\<lambda>q. priority p < priority q" ps] by (simp add: a_b_def)
    moreover have "\<forall>q \<in> set xs. priority q \<le> priority x"
      using ab Cons by (simp add: sorted_wrt_append)
    ultimately show ?thesis
      using that Cons by auto
  qed (use that in simp)
  then show ?thesis
    using ab a unfolding by_priority_def policy_insert_def a_b_def [symmetric] by (auto simp: sorted_wrt_append less_imp_le)
qed

lemma set_policy_remove: "set (policy_remove p qs) \<subseteq> set qs"
  by (induction qs) auto

lemma by_priority_remove: "by_priority ps \<Longrightarrow> by_priority (policy_remove p ps)"
  using set_policy_remove [of p] by (induction ps) (auto simp: by_priority_def)

lemma set_vec_insert: "set (vec_insert x i v) = insert x (set v)"
  by (metis append_take_drop_id list.simps(15) set_append Un_insert_right vec_insert_def)

lemma distinct_vec_insert: "distinct v \<Longrightarrow> x \<notin> set v \<Longrightarrow> distinct (vec_insert x i v)"
  using set_take_subset [of i v] set_drop_subset [of i v] set_take_disj_set_drop_if_distinct [of v i i]
  by (auto simp: vec_insert_def)

lemma vec_delete_facts:
  "i < length v \<Longrightarrow> distinct v \<Longrightarrow> distinct (vec_delete i v) \<and> set (vec_delete i v) = set v - {v ! i}"
proof -
  assume a: "i < length v" "distinct v"
  have "v = take i v @ v ! i # drop (Suc i) v"
    using a(1) by (rule id_take_nth_drop)
  then have "distinct (take i v @ v ! i # drop (Suc i) v)" "set v = set (take i v) \<union> insert (v ! i) (set (drop (Suc i) v))"
    using a(2) by (metis, metis list.simps(15) set_append)
  then show ?thesis
    by (auto simp: vec_delete_def)
qed

subsection \<open>The invariant of the databases\<close>

text \<open>In every vector of an SPD the indices are those of policies of the right type and SPD, without repetition and
  ordered by priority.\<close>

definition vector_ok :: "(nat \<rightharpoonup> ipsec_policy) \<Rightarrow> u32 \<Rightarrow> ipsec_spd_policy_type \<Rightarrow> nat list \<Rightarrow> bool" where
  "vector_ok P sid t v \<longleftrightarrow>
     distinct v \<and> (\<forall>i \<in> set v. \<exists>p. P i = Some p \<and> policy_type p = t \<and> policy_spd_id p = sid) \<and>
     by_priority (map (the \<circ> P) v)"

definition named_ok :: "ipsec_main \<Rightarrow> bool" where
  "named_ok im \<longleftrightarrow> (\<forall>s spd. pool_map (spds im) s = Some spd \<longrightarrow> spd_index_by_spd_id im (spd_id spd) = Some s)"

definition names_ok :: "ipsec_main \<Rightarrow> bool" where
  "names_ok im \<longleftrightarrow>
     (\<forall>sid s. spd_index_by_spd_id im sid = Some s \<longrightarrow> (\<exists>spd. pool_map (spds im) s = Some spd \<and> spd_id spd = sid))"

definition vectors_ok :: "ipsec_main \<Rightarrow> bool" where
  "vectors_ok im \<longleftrightarrow>
     (\<forall>s spd t. pool_map (spds im) s = Some spd \<longrightarrow>
        vector_ok (pool_map (policies im)) (spd_id spd) t (spd_policies spd t))"

definition bindings_ok :: "ipsec_main \<Rightarrow> bool" where
  "bindings_ok im \<longleftrightarrow>
     (\<forall>k s. spd_index_by_sw_if_index im k = Some s \<longrightarrow> pool_map (spds im) s \<noteq> None) \<and>
     input_config im = spd_index_by_sw_if_index im \<and>
     (\<forall>k. output_feature im k \<longleftrightarrow> spd_index_by_sw_if_index im k \<noteq> None)"

text \<open>The names of SPDs and the pool agree, the vectors are in order, interfaces are bound to SPDs that exist and
  have their features on exactly while they are bound.\<close>

definition spd_inv :: "ipsec_main \<Rightarrow> bool" where
  "spd_inv im \<longleftrightarrow>
     pool_wf (spds im) \<and> pool_wf (policies im) \<and> named_ok im \<and> names_ok im \<and> vectors_ok im \<and> bindings_ok im"

lemma vector_ok_same:
  assumes "vector_ok P sid t v" "P i = None"
  shows "map (the \<circ> P(i \<mapsto> p)) v = map (the \<circ> P) v"
proof -
  have "i \<notin> set v"
    using assms by (auto simp: vector_ok_def)
  then show ?thesis
    by (auto intro: map_cong)
qed

lemma vector_ok_fresh: "vector_ok P sid t v \<Longrightarrow> P i = None \<Longrightarrow> vector_ok (P(i \<mapsto> p)) sid t v"
proof -
  assume a: "vector_ok P sid t v" "P i = None"
  then have "i \<notin> set v"
    by (auto simp: vector_ok_def)
  moreover have "by_priority (map (the \<circ> P(i \<mapsto> p)) v)"
    unfolding vector_ok_same [OF a] using a(1) by (simp add: vector_ok_def)
  ultimately show ?thesis
    using a(1) unfolding vector_ok_def by auto
qed

lemma vector_ok_drop: "vector_ok P sid t v \<Longrightarrow> i \<notin> set v \<Longrightarrow> vector_ok (P(i := None)) sid t v"
proof -
  assume a: "vector_ok P sid t v" "i \<notin> set v"
  from a(2) have "map (the \<circ> P(i := None)) v = map (the \<circ> P) v"
    by (auto intro: map_cong)
  then have "by_priority (map (the \<circ> P(i := None)) v)"
    using a(1) unfolding vector_ok_def by metis
  then show ?thesis
    using a unfolding vector_ok_def by auto
qed

lemma vector_ok_elts: "vector_ok (pool_map pl) sid t v \<Longrightarrow> map (the \<circ> pool_map pl) v = map (pool_elt_at_index pl) v"
  by (fastforce simp: vector_ok_def dest: pool_map_elt)

lemma vector_ok_elts_sub:
  "vector_ok (pool_map pl) sid t v \<Longrightarrow> set w \<subseteq> set v \<Longrightarrow> map (the \<circ> pool_map pl) w = map (pool_elt_at_index pl) w"
  by (fastforce simp: vector_ok_def dest: pool_map_elt)

lemma vector_ok_insert:
  assumes "vector_ok P sid t v" "P i = None" "pool_map pl = P(i \<mapsto> p)" "policy_type p = t" "policy_spd_id p = sid"
  shows "vector_ok (pool_map pl) sid t (vec_insert i (insert_pos pl (priority p) v) v)"
proof -
  let ?v = "vec_insert i (insert_pos pl (priority p) v) v"
  have new: "i \<notin> set v"
    using assms(1,2) by (auto simp: vector_ok_def)
  have old: "vector_ok (pool_map pl) sid t v"
    using vector_ok_fresh [OF assms(1,2)] assms(3) by simp
  have all: "\<forall>j \<in> set ?v. \<exists>p. pool_map pl j = Some p \<and> policy_type p = t \<and> policy_spd_id p = sid"
    using old assms(3-5) by (auto simp: set_vec_insert vector_ok_def)
  then have "map (the \<circ> pool_map pl) ?v = map (pool_elt_at_index pl) ?v"
    by (fastforce dest: pool_map_elt)
  also have "\<dots> = policy_insert p (map (the \<circ> pool_map pl) v)"
    unfolding vector_ok_elts [OF old] using assms(3) by (intro map_vec_insert pool_map_elt) simp
  finally have "by_priority (map (the \<circ> pool_map pl) ?v)"
    using by_priority_insert old by (simp add: vector_ok_def)
  then show ?thesis
    using all distinct_vec_insert [OF _ new] old by (simp add: vector_ok_def)
qed

lemma vector_ok_delete:
  assumes "vector_ok (pool_map pl) sid t v" "find_equal pl p v = Some ii"
  shows "vector_ok ((pool_map pl)(v ! ii := None)) sid t (vec_delete ii v)"
proof -
  have d: "ii < length v" "distinct v"
    using assms find_equal_bound [OF assms(2)] by (auto simp: vector_ok_def)
  note f = vec_delete_facts [OF d]
  have "by_priority (map (pool_elt_at_index pl) (vec_delete ii v))"
    unfolding map_vec_delete [OF assms(2)] using assms(1) vector_ok_elts [OF assms(1)]
    by (intro by_priority_remove) (simp add: vector_ok_def)
  moreover have "map (the \<circ> pool_map pl) (vec_delete ii v) = map (pool_elt_at_index pl) (vec_delete ii v)"
    using assms(1) f by (fastforce simp: vector_ok_def dest: pool_map_elt)
  ultimately have "by_priority (map (the \<circ> pool_map pl) (vec_delete ii v))"
    by metis
  then have "vector_ok (pool_map pl) sid t (vec_delete ii v)"
    using assms(1) f unfolding vector_ok_def by auto
  then show ?thesis
    using f by (intro vector_ok_drop) auto
qed

text \<open>What the steps of an operation leave alone.\<close>

lemma out_epoch_frame [simp]:
  "spds (out_epoch_step p im) = spds im"
  "policies (out_epoch_step p im) = policies im"
  "spd_index_by_spd_id (out_epoch_step p im) = spd_index_by_spd_id im"
  "spd_index_by_sw_if_index (out_epoch_step p im) = spd_index_by_sw_if_index im"
  "output_feature (out_epoch_step p im) = output_feature im"
  "input_config (out_epoch_step p im) = input_config im"
  "ipsec_sa_pool (out_epoch_step p im) = ipsec_sa_pool im"
  "sa_index_by_sa_id (out_epoch_step p im) = sa_index_by_sa_id im"
  "fp_spd_ipv4_out_is_enabled (out_epoch_step p im) = fp_spd_ipv4_out_is_enabled im"
  "fp_spd_ipv4_in_is_enabled (out_epoch_step p im) = fp_spd_ipv4_in_is_enabled im"
  "fp_spd_ipv6_out_is_enabled (out_epoch_step p im) = fp_spd_ipv6_out_is_enabled im"
  "fp_spd_ipv6_in_is_enabled (out_epoch_step p im) = fp_spd_ipv6_in_is_enabled im"
  "output_flow_cache_flag (out_epoch_step p im) = output_flow_cache_flag im"
  by (simp_all add: out_epoch_step_def Let_def split: option.split)

lemma in_epoch_frame [simp]:
  "spds (in_epoch_step p im) = spds im"
  "policies (in_epoch_step p im) = policies im"
  "spd_index_by_spd_id (in_epoch_step p im) = spd_index_by_spd_id im"
  "spd_index_by_sw_if_index (in_epoch_step p im) = spd_index_by_sw_if_index im"
  "output_feature (in_epoch_step p im) = output_feature im"
  "input_config (in_epoch_step p im) = input_config im"
  "ipsec_sa_pool (in_epoch_step p im) = ipsec_sa_pool im"
  "sa_index_by_sa_id (in_epoch_step p im) = sa_index_by_sa_id im"
  "fp_spd_ipv4_out_is_enabled (in_epoch_step p im) = fp_spd_ipv4_out_is_enabled im"
  "fp_spd_ipv4_in_is_enabled (in_epoch_step p im) = fp_spd_ipv4_in_is_enabled im"
  "fp_spd_ipv6_out_is_enabled (in_epoch_step p im) = fp_spd_ipv6_out_is_enabled im"
  "fp_spd_ipv6_in_is_enabled (in_epoch_step p im) = fp_spd_ipv6_in_is_enabled im"
  "ipsec4_out_spd_hash_tbl (in_epoch_step p im) = ipsec4_out_spd_hash_tbl im"
  "epoch_count (in_epoch_step p im) = epoch_count im"
  "output_flow_cache_flag (in_epoch_step p im) = output_flow_cache_flag im"
  "ipsec4_out_spd_flow_cache_entries (in_epoch_step p im) = ipsec4_out_spd_flow_cache_entries im"
  by (simp_all add: in_epoch_step_def Let_def split: option.split)

lemma sa_unlock_frame [simp]:
  "spds (ipsec_sa_unlock k im) = spds im"
  "policies (ipsec_sa_unlock k im) = policies im"
  "spd_index_by_spd_id (ipsec_sa_unlock k im) = spd_index_by_spd_id im"
  "spd_index_by_sw_if_index (ipsec_sa_unlock k im) = spd_index_by_sw_if_index im"
  "output_feature (ipsec_sa_unlock k im) = output_feature im"
  "input_config (ipsec_sa_unlock k im) = input_config im"
  "fp_spd_ipv4_out_is_enabled (ipsec_sa_unlock k im) = fp_spd_ipv4_out_is_enabled im"
  "fp_spd_ipv4_in_is_enabled (ipsec_sa_unlock k im) = fp_spd_ipv4_in_is_enabled im"
  "fp_spd_ipv6_out_is_enabled (ipsec_sa_unlock k im) = fp_spd_ipv6_out_is_enabled im"
  "fp_spd_ipv6_in_is_enabled (ipsec_sa_unlock k im) = fp_spd_ipv6_in_is_enabled im"
  "ipsec4_out_spd_hash_tbl (ipsec_sa_unlock k im) = ipsec4_out_spd_hash_tbl im"
  "epoch_count (ipsec_sa_unlock k im) = epoch_count im"
  "output_flow_cache_flag (ipsec_sa_unlock k im) = output_flow_cache_flag im"
  "ipsec4_out_spd_flow_cache_entries (ipsec_sa_unlock k im) = ipsec4_out_spd_flow_cache_entries im"
  by (simp_all add: ipsec_sa_unlock_def ipsec_sa_del_def Let_def split: option.split)

lemma sa_find_frame [simp]:
  "spds (snd (ipsec_sa_find_and_lock k im)) = spds im"
  "policies (snd (ipsec_sa_find_and_lock k im)) = policies im"
  "spd_index_by_spd_id (snd (ipsec_sa_find_and_lock k im)) = spd_index_by_spd_id im"
  "spd_index_by_sw_if_index (snd (ipsec_sa_find_and_lock k im)) = spd_index_by_sw_if_index im"
  "output_feature (snd (ipsec_sa_find_and_lock k im)) = output_feature im"
  "input_config (snd (ipsec_sa_find_and_lock k im)) = input_config im"
  "fp_spd_ipv4_out_is_enabled (snd (ipsec_sa_find_and_lock k im)) = fp_spd_ipv4_out_is_enabled im"
  "fp_spd_ipv4_in_is_enabled (snd (ipsec_sa_find_and_lock k im)) = fp_spd_ipv4_in_is_enabled im"
  "fp_spd_ipv6_out_is_enabled (snd (ipsec_sa_find_and_lock k im)) = fp_spd_ipv6_out_is_enabled im"
  "fp_spd_ipv6_in_is_enabled (snd (ipsec_sa_find_and_lock k im)) = fp_spd_ipv6_in_is_enabled im"
  "ipsec4_out_spd_hash_tbl (snd (ipsec_sa_find_and_lock k im)) = ipsec4_out_spd_hash_tbl im"
  "epoch_count (snd (ipsec_sa_find_and_lock k im)) = epoch_count im"
  "output_flow_cache_flag (snd (ipsec_sa_find_and_lock k im)) = output_flow_cache_flag im"
  "ipsec4_out_spd_flow_cache_entries (snd (ipsec_sa_find_and_lock k im)) = ipsec4_out_spd_flow_cache_entries im"
  "sa_index_by_sa_id (snd (ipsec_sa_find_and_lock k im)) = sa_index_by_sa_id im"
  by (simp_all add: ipsec_sa_find_and_lock_def ipsec_sa_lock_def Let_def split: option.split)

lemma set_vector_frame [simp]:
  "policies (set_vector k t v im) = policies im"
  "spd_index_by_spd_id (set_vector k t v im) = spd_index_by_spd_id im"
  "spd_index_by_sw_if_index (set_vector k t v im) = spd_index_by_sw_if_index im"
  "output_feature (set_vector k t v im) = output_feature im"
  "input_config (set_vector k t v im) = input_config im"
  "ipsec_sa_pool (set_vector k t v im) = ipsec_sa_pool im"
  "sa_index_by_sa_id (set_vector k t v im) = sa_index_by_sa_id im"
  "fp_spd_ipv4_out_is_enabled (set_vector k t v im) = fp_spd_ipv4_out_is_enabled im"
  "fp_spd_ipv4_in_is_enabled (set_vector k t v im) = fp_spd_ipv4_in_is_enabled im"
  "fp_spd_ipv6_out_is_enabled (set_vector k t v im) = fp_spd_ipv6_out_is_enabled im"
  "fp_spd_ipv6_in_is_enabled (set_vector k t v im) = fp_spd_ipv6_in_is_enabled im"
  "ipsec4_out_spd_hash_tbl (set_vector k t v im) = ipsec4_out_spd_hash_tbl im"
  "epoch_count (set_vector k t v im) = epoch_count im"
  "output_flow_cache_flag (set_vector k t v im) = output_flow_cache_flag im"
  "ipsec4_out_spd_flow_cache_entries (set_vector k t v im) = ipsec4_out_spd_flow_cache_entries im"
  by (simp_all add: set_vector_def Let_def split: option.split)

lemma spd_inv_cong:
  assumes "spds im' = spds im" "policies im' = policies im" "spd_index_by_spd_id im' = spd_index_by_spd_id im"
    "spd_index_by_sw_if_index im' = spd_index_by_sw_if_index im" "output_feature im' = output_feature im"
    "input_config im' = input_config im"
  shows "spd_inv im' = spd_inv im"
  by (simp add: spd_inv_def named_ok_def names_ok_def vectors_ok_def bindings_ok_def assms)

lemma spd_inv_index:
  assumes "spd_inv im" "spd_index_by_spd_id im sid = Some s"
  obtains spd where "pool_map (spds im) s = Some spd" "spd_id spd = sid" "pool_elt_at_index (spds im) s = spd"
proof -
  have "names_ok im"
    using assms(1) by (simp add: spd_inv_def)
  then have "\<exists>spd. pool_map (spds im) s = Some spd \<and> spd_id spd = sid"
    using assms(2) unfolding names_ok_def by blast
  then show ?thesis
    by (elim exE conjE) (rule that, assumption, assumption, erule pool_map_elt)
qed

lemma spd_inv_spd:
  assumes "spd_inv im" "pool_map (spds im) s = Some spd"
  shows "spd_index_by_spd_id im (spd_id spd) = Some s"
    and "vector_ok (pool_map (policies im)) (spd_id spd) t (spd_policies spd t)"
proof -
  have "named_ok im" "vectors_ok im"
    using assms(1) by (simp_all add: spd_inv_def)
  then show "spd_index_by_spd_id im (spd_id spd) = Some s"
    "vector_ok (pool_map (policies im)) (spd_id spd) t (spd_policies spd t)"
    using assms(2) unfolding named_ok_def vectors_ok_def by blast+
qed

lemma set_interface_cases:
  "snd (ipsec_set_interface_spd k sid b im) = im \<or>
   (\<exists>s. spd_index_by_spd_id im sid = Some s \<and>
      snd (ipsec_set_interface_spd k sid b im) =
        im\<lparr>spd_index_by_sw_if_index := (spd_index_by_sw_if_index im)(k := (if b then Some s else None)),
           output_feature := (output_feature im)(k := b),
           input_config := (input_config im)(k := (if b then Some s else None))\<rparr>)"
  by (auto simp: ipsec_set_interface_spd_def Let_def split: option.split)

lemma set_interface_inv:
  assumes "spd_inv im"
  shows "spd_inv (snd (ipsec_set_interface_spd k sid b im))"
  using set_interface_cases [of k sid b im]
proof (elim disjE exE conjE)
  fix s
  assume s: "spd_index_by_spd_id im sid = Some s"
    and eq: "snd (ipsec_set_interface_spd k sid b im) =
        im\<lparr>spd_index_by_sw_if_index := (spd_index_by_sw_if_index im)(k := (if b then Some s else None)),
           output_feature := (output_feature im)(k := b),
           input_config := (input_config im)(k := (if b then Some s else None))\<rparr>"
  obtain spd where spd: "pool_map (spds im) s = Some spd" "spd_id spd = sid" "pool_elt_at_index (spds im) s = spd"
    by (rule spd_inv_index [OF assms s])
  have "bindings_ok im"
    using assms by (simp add: spd_inv_def)
  then have "bindings_ok (snd (ipsec_set_interface_spd k sid b im))"
    unfolding eq bindings_ok_def using spd by auto
  moreover have "named_ok (snd (ipsec_set_interface_spd k sid b im)) = named_ok im"
    "names_ok (snd (ipsec_set_interface_spd k sid b im)) = names_ok im"
    "vectors_ok (snd (ipsec_set_interface_spd k sid b im)) = vectors_ok im"
    "spds (snd (ipsec_set_interface_spd k sid b im)) = spds im"
    "policies (snd (ipsec_set_interface_spd k sid b im)) = policies im"
    unfolding eq by (simp_all add: named_ok_def names_ok_def vectors_ok_def)
  ultimately show ?thesis
    using assms by (simp add: spd_inv_def)
qed (simp add: assms)

text \<open>The vector of a type in an SPD after a change of one vector.\<close>

lemma pool_map_set_vector:
  assumes "pool_wf (spds im)" "pool_map (spds im) s = Some spd"
  shows "pool_map (spds (set_vector s t v im)) = (pool_map (spds im))(s \<mapsto> spd\<lparr>spd_policies := (spd_policies spd)(t := v)\<rparr>)"
    and "pool_wf (spds (set_vector s t v im))"
  using pool_map_write [OF assms(1) pool_map_active [OF assms(2)]] assms pool_map_elt [OF assms(2)]
  by (simp_all add: set_vector_def Let_def pool_write_wf)

lemma spd_inv_vectors:
  assumes "spd_inv im" "pool_map (spds im) s = Some spd" "pool_wf pl"
    and "\<And>s' spd' t'. pool_map (spds im) s' = Some spd' \<Longrightarrow> (s', t') \<noteq> (s, t) \<Longrightarrow>
           vector_ok (pool_map pl) (spd_id spd') t' (spd_policies spd' t')"
    and "vector_ok (pool_map pl) (spd_id spd) t v"
  shows "spd_inv (set_vector s t v (im\<lparr>policies := pl\<rparr>))"
proof -
  let ?im = "im\<lparr>policies := pl\<rparr>"
  have wf: "pool_wf (spds ?im)" "pool_map (spds ?im) s = Some spd"
    using assms(1,2) by (simp_all add: spd_inv_def)
  note m = pool_map_set_vector [OF wf]
  let ?im' = "set_vector s t v ?im"
  have parts: "named_ok im" "names_ok im" "bindings_ok im"
    using assms(1) by (simp_all add: spd_inv_def)
  have "named_ok ?im'"
    unfolding named_ok_def m(1) using parts(1) [unfolded named_ok_def] assms(2) by (auto split: if_splits)
  moreover have "names_ok ?im'"
    unfolding names_ok_def m(1)
  proof (intro allI impI)
    fix sid r
    assume "spd_index_by_spd_id ?im' sid = Some r"
    then obtain spd' where "pool_map (spds im) r = Some spd'" "spd_id spd' = sid"
      using parts(2) unfolding names_ok_def by auto
    then show "\<exists>x. ((pool_map (spds ?im))(s \<mapsto> spd\<lparr>spd_policies := (spd_policies spd)(t := v)\<rparr>)) r = Some x \<and> spd_id x = sid"
      using assms(2) by auto
  qed
  moreover have "bindings_ok ?im'"
    using parts(3) unfolding bindings_ok_def m(1) by simp
  moreover have "vectors_ok ?im'"
    unfolding vectors_ok_def m(1)
  proof (intro allI impI)
    fix r spd' t'
    assume a: "((pool_map (spds ?im))(s \<mapsto> spd\<lparr>spd_policies := (spd_policies spd)(t := v)\<rparr>)) r = Some spd'"
    then show "vector_ok (pool_map (policies ?im')) (spd_id spd') t' (spd_policies spd' t')"
      using assms(4) [of r spd' t'] assms(4) [of s spd t'] assms(2,5) by (cases "r = s"; cases "t' = t") auto
  qed
  ultimately show ?thesis
    using m(2) assms(3) by (simp add: spd_inv_def)
qed

lemma vectors_disjoint:
  assumes "spd_inv im" "pool_map (spds im) s = Some spd" "pool_map (spds im) s' = Some spd'"
    and "i \<in> set (spd_policies spd t)" "i \<in> set (spd_policies spd' t')"
  shows "s' = s \<and> t' = t"
proof -
  obtain p where "pool_map (policies im) i = Some p" "policy_type p = t" "policy_spd_id p = spd_id spd"
    using spd_inv_spd(2) [OF assms(1,2)] assms(4) unfolding vector_ok_def by blast
  moreover obtain p' where "pool_map (policies im) i = Some p'" "policy_type p' = t'" "policy_spd_id p' = spd_id spd'"
    using spd_inv_spd(2) [OF assms(1,3)] assms(5) unfolding vector_ok_def by blast
  moreover have "spd_index_by_spd_id im (spd_id spd) = Some s" "spd_index_by_spd_id im (spd_id spd') = Some s'"
    by (rule spd_inv_spd(1) [OF assms(1)]; fact)+
  ultimately show ?thesis
    by simp
qed

subsection \<open>Policies added and deleted\<close>

text \<open>The parts of the state that the invariant is about.\<close>

definition spd_core :: "ipsec_main \<Rightarrow> ipsec_spd pool \<times> ipsec_policy pool \<times> (u32 \<rightharpoonup> nat) \<times> (u32 \<rightharpoonup> nat) \<times> (u32 \<Rightarrow> bool) \<times> (u32 \<rightharpoonup> nat)" where
  "spd_core im = (spds im, policies im, spd_index_by_spd_id im, spd_index_by_sw_if_index im, output_feature im, input_config im)"

lemma spd_inv_core: "spd_core im' = spd_core im \<Longrightarrow> spd_inv im' = spd_inv im"
  by (rule spd_inv_cong) (simp_all add: spd_core_def)

lemma spd_core_steps [simp]:
  "spd_core (in_epoch_step p im) = spd_core im" "spd_core (out_epoch_step p im) = spd_core im"
  "spd_core (snd (ipsec_sa_find_and_lock k im)) = spd_core im" "spd_core (ipsec_sa_unlock k' im) = spd_core im"
  by (simp_all add: spd_core_def)

text \<open>The SA a policy is given.\<close>

definition protect_sa :: "ipsec_policy \<Rightarrow> ipsec_main \<Rightarrow> nat option" where
  "protect_sa p im = (if policy_action p = IPSEC_POLICY_ACTION_PROTECT then sa_index_by_sa_id im (policy_sa_id p) else None)"

lemma add_policy_found:
  "(if policy_action p = IPSEC_POLICY_ACTION_PROTECT then ipsec_sa_find_and_lock (policy_sa_id p) im else (None, im)) =
     (protect_sa p im, ipsec_sa_lock (protect_sa p im) im)"
  by (auto simp: protect_sa_def ipsec_sa_find_and_lock_def ipsec_sa_lock_def split: option.split)

lemma spd_core_lock [simp]: "spd_core (ipsec_sa_lock k im) = spd_core im"
  by (simp add: spd_core_def ipsec_sa_lock_def Let_def split: option.split)

lemma protect_sa_steps [simp]: "protect_sa p (in_epoch_step q (out_epoch_step q' im)) = protect_sa p im"
  by (simp add: protect_sa_def)

lemma add_policy_error:
  assumes "ipsec_add_del_policy p True im = Some (rv, st, im')" "rv \<noteq> VNET_API_OK"
  shows "spd_core im' = spd_core im"
  using assms unfolding ipsec_add_del_policy_def add_policy_found
  by (auto simp: Let_def split: option.splits if_splits bind_splits)

lemma add_policy_ok:
  assumes "spd_inv im" "ipsec_add_del_policy p True im = Some (VNET_API_OK, st, im')"
  obtains s spd q i where
    "spd_index_by_spd_id im (policy_spd_id p) = Some s" "pool_map (spds im) s = Some spd" "spd_id spd = policy_spd_id p"
    "pool_get (p\<lparr>policy_sa_index := protect_sa p im\<rparr>) (policies im) = Some (i, q)" "st = Some i"
    "policy_action p = IPSEC_POLICY_ACTION_PROTECT \<Longrightarrow> protect_sa p im \<noteq> None"
    "let pl = pool_write q i (p\<lparr>policy_sa_index := protect_sa p im\<rparr>); v = spd_policies spd (policy_type p)
     in im' = set_vector s (policy_type p) (vec_insert i (insert_pos pl (priority p) v) v)
                ((ipsec_sa_lock (protect_sa p im) (in_epoch_step p (out_epoch_step p im)))\<lparr>policies := pl\<rparr>)"
proof -
  obtain s where s: "spd_index_by_spd_id im (policy_spd_id p) = Some s"
    using assms(2) by (auto simp: ipsec_add_del_policy_def split: option.splits)
  obtain spd where spd: "pool_map (spds im) s = Some spd" "spd_id spd = policy_spd_id p" "pool_elt_at_index (spds im) s = spd"
    by (rule spd_inv_index [OF assms(1) s])
  have "policies (ipsec_sa_lock k im) = policies im" for k im
    using spd_core_lock [of k im] by (simp add: spd_core_def)
  then show ?thesis
    using assms(2) that [OF s spd(1,2)] unfolding ipsec_add_del_policy_def add_policy_found
    by (auto simp: Let_def s spd(3) split: option.splits if_splits bind_splits)
qed

lemma del_policy_none:
  assumes "ipsec_add_del_policy p False im = Some (rv, st, im')"
    and "\<And>s. spd_index_by_spd_id im (policy_spd_id p) = Some s \<Longrightarrow>
           find_equal (policies im) p (spd_policies (pool_elt_at_index (spds im) s) (policy_type p)) = None"
  shows "spd_core im' = spd_core im"
  using assms unfolding ipsec_add_del_policy_def
  by (auto simp: Let_def split: option.splits if_splits)

lemma del_policy_some:
  assumes "ipsec_add_del_policy p False im = Some (rv, st, im')"
    and "spd_index_by_spd_id im (policy_spd_id p) = Some s" "pool_elt_at_index (spds im) s = spd"
    and "find_equal (policies im) p (spd_policies spd (policy_type p)) = Some ii"
  shows "let v = spd_policies spd (policy_type p);
             im1 = ipsec_sa_unlock (policy_sa_index (pool_elt_at_index (policies im) (v ! ii)))
                     (set_vector s (policy_type p) (vec_delete ii v) (in_epoch_step p (out_epoch_step p im)))
         in rv = VNET_API_OK \<and> im' = im1\<lparr>policies := pool_put_index (policies im1) (v ! ii)\<rparr>"
  using assms unfolding ipsec_add_del_policy_def
  by (auto simp: Let_def split: option.splits if_splits)

text \<open>The policies of a type in an SPD, in the order in which they are tried.\<close>

definition policies_of :: "ipsec_main \<Rightarrow> u32 \<Rightarrow> ipsec_spd_policy_type \<Rightarrow> ipsec_policy list" where
  "policies_of im sid t =
     (case spd_index_by_spd_id im sid of
        None \<Rightarrow> []
      | Some s \<Rightarrow> map (the \<circ> pool_map (policies im)) (spd_policies (pool_elt_at_index (spds im) s) t))"

lemma policies_of_core: "spd_core im' = spd_core im \<Longrightarrow> policies_of im' = policies_of im"
  by (intro ext) (simp add: policies_of_def spd_core_def split: option.split)

lemma policies_of_spd:
  "spd_index_by_spd_id im sid = Some s \<Longrightarrow> pool_map (spds im) s = Some spd \<Longrightarrow>
     policies_of im sid t = map (the \<circ> pool_map (policies im)) (spd_policies spd t)"
  by (simp add: policies_of_def pool_map_elt)

lemma policies_of_by_priority: "spd_inv im \<Longrightarrow> by_priority (policies_of im sid t)"
proof (cases "spd_index_by_spd_id im sid")
  case (Some s)
  assume i: "spd_inv im"
  obtain spd where "pool_map (spds im) s = Some spd" "spd_id spd = sid" "pool_elt_at_index (spds im) s = spd"
    by (rule spd_inv_index [OF i Some])
  then show ?thesis
    using spd_inv_spd(2) [OF i, of s spd t] Some by (simp add: policies_of_def vector_ok_def)
qed (simp add: policies_of_def by_priority_def)

lemma policies_of_type:
  assumes "spd_inv im" "p \<in> set (policies_of im sid t)"
  shows "policy_type p = t \<and> policy_spd_id p = sid"
proof (cases "spd_index_by_spd_id im sid")
  case (Some s)
  obtain spd where "pool_map (spds im) s = Some spd" "spd_id spd = sid" "pool_elt_at_index (spds im) s = spd"
    by (rule spd_inv_index [OF assms(1) Some])
  then show ?thesis
    using spd_inv_spd(2) [OF assms(1), of s spd t] assms(2) Some by (auto simp: policies_of_def vector_ok_def)
qed (use assms(2) in \<open>simp add: policies_of_def\<close>)

text \<open>Changing one vector changes one list.\<close>

lemma policies_of_set_vector:
  assumes "spd_inv im" "pool_map (spds im) s = Some spd" "spd_core im1 = spd_core im"
    and "\<And>s' spd' t' i. pool_map (spds im) s' = Some spd' \<Longrightarrow> i \<in> set (spd_policies spd' t') \<Longrightarrow> (s', t') \<noteq> (s, t) \<Longrightarrow>
           pool_map pl i = pool_map (policies im) i"
  shows "policies_of (set_vector s t v (im1\<lparr>policies := pl\<rparr>)) sid t' =
    (if sid = spd_id spd \<and> t' = t then map (the \<circ> pool_map pl) v else policies_of im sid t')"
proof (cases "spd_index_by_spd_id im sid")
  case None
  then show ?thesis
    using assms(3) spd_inv_spd(1) [OF assms(1,2)] by (auto simp: policies_of_def spd_core_def)
next
  case (Some r)
  obtain spd' where spd': "pool_map (spds im) r = Some spd'" "spd_id spd' = sid" "pool_elt_at_index (spds im) r = spd'"
    by (rule spd_inv_index [OF assms(1) Some])
  have wf: "pool_wf (spds (im1\<lparr>policies := pl\<rparr>))" "pool_map (spds (im1\<lparr>policies := pl\<rparr>)) s = Some spd"
    using assms(1-3) by (simp_all add: spd_core_def spd_inv_def)
  have same: "r = s \<longleftrightarrow> sid = spd_id spd"
    using Some spd' assms(2) spd_inv_spd(1) [OF assms(1,2)] by auto
  have new: "pool_elt_at_index (spds (set_vector s t v (im1\<lparr>policies := pl\<rparr>))) r =
      (if r = s then spd\<lparr>spd_policies := (spd_policies spd)(t := v)\<rparr> else spd')"
    using pool_map_set_vector(1) [OF wf, of t v] spd'(1) assms(3) by (intro pool_map_elt) (simp add: spd_core_def)
  have ix: "spd_index_by_spd_id (set_vector s t v (im1\<lparr>policies := pl\<rparr>)) sid = Some r"
    using Some assms(3) by (simp add: spd_core_def)
  have "map (the \<circ> pool_map pl) (spd_policies spd' t') = map (the \<circ> pool_map (policies im)) (spd_policies spd' t')"
    if "(r, t') \<noteq> (s, t)"
    using assms(4) [OF spd'(1) _ that] by simp
  then show ?thesis
    using same spd'(1,3) assms(2) Some ix new by (auto simp: policies_of_def)
qed

text \<open>What an addition that succeeds does, with the new policy \<open>p'\<close> at index \<open>i\<close>.\<close>

lemma add_policy_shape:
  assumes "spd_inv im" "ipsec_add_del_policy p True im = Some (VNET_API_OK, st, im')"
  defines "p' \<equiv> p\<lparr>policy_sa_index := protect_sa p im\<rparr>"
  obtains s spd i pl im1 where
    "pool_map (spds im) s = Some spd" "spd_id spd = policy_spd_id p" "st = Some i" "spd_core im1 = spd_core im"
    "im1 = ipsec_sa_lock (protect_sa p im) (in_epoch_step p (out_epoch_step p im))"
    "pool_map (policies im) i = None" "pool_map pl = (pool_map (policies im))(i \<mapsto> p')" "pool_wf pl"
    "let v = spd_policies spd (policy_type p)
     in im' = set_vector s (policy_type p) (vec_insert i (insert_pos pl (priority p') v) v) (im1\<lparr>policies := pl\<rparr>)"
proof -
  define im1 where "im1 = ipsec_sa_lock (protect_sa p im) (in_epoch_step p (out_epoch_step p im))"
  obtain s spd q i where ok: "pool_map (spds im) s = Some spd"
      "spd_id spd = policy_spd_id p" "pool_get p' (policies im) = Some (i, q)" "st = Some i"
    and eq: "let pl = pool_write q i p'; v = spd_policies spd (policy_type p)
       in im' = set_vector s (policy_type p) (vec_insert i (insert_pos pl (priority p) v) v) (im1\<lparr>policies := pl\<rparr>)"
    by (rule add_policy_ok [OF assms(1,2), folded p'_def im1_def])
  have wf: "pool_wf (policies im)"
    using assms(1) by (simp add: spd_inv_def)
  have "spd_core im1 = spd_core im"
    by (simp add: im1_def)
  then show ?thesis
    using that [OF ok(1,2,4) _ im1_def pool_map_get_write(2) [OF wf ok(3)] pool_map_get_write(1) [OF wf ok(3)]
        pool_map_get_write(3) [OF wf ok(3)]] eq
    by (simp add: Let_def p'_def)
qed

lemma add_policy_spec:
  assumes "spd_inv im" "ipsec_add_del_policy p True im = Some (VNET_API_OK, st, im')"
  defines "p' \<equiv> p\<lparr>policy_sa_index := protect_sa p im\<rparr>"
  shows "spd_inv im'"
    and "\<exists>i. st = Some i \<and> pool_map (policies im) i = None \<and> pool_map (policies im') = (pool_map (policies im))(i \<mapsto> p')"
    and "policies_of im' sid t =
           (if sid = policy_spd_id p \<and> t = policy_type p then policy_insert p' (policies_of im sid t) else policies_of im sid t)"
proof -
  obtain s spd i pl im1 where ok: "pool_map (spds im) s = Some spd" "spd_id spd = policy_spd_id p" "st = Some i"
      "spd_core im1 = spd_core im" "pool_map (policies im) i = None" "pool_map pl = (pool_map (policies im))(i \<mapsto> p')"
      "pool_wf pl"
    and eq: "let v = spd_policies spd (policy_type p)
       in im' = set_vector s (policy_type p) (vec_insert i (insert_pos pl (priority p') v) v) (im1\<lparr>policies := pl\<rparr>)"
    by (rule add_policy_shape [OF assms(1,2), folded p'_def])
  define v v' where "v = spd_policies spd (policy_type p)" "v' = vec_insert i (insert_pos pl (priority p') v) v"
  have im': "im' = set_vector s (policy_type p) v' (im1\<lparr>policies := pl\<rparr>)"
    using eq by (simp add: Let_def v_v'_def)
  have old: "vector_ok (pool_map (policies im)) (spd_id spd) (policy_type p) v"
    using spd_inv_spd(2) [OF assms(1) ok(1)] by (simp add: v_v'_def)
  have vec: "vector_ok (pool_map pl) (spd_id spd) (policy_type p) v'"
    unfolding v_v'_def(2) by (rule vector_ok_insert [OF old ok(5,6)]) (simp_all add: p'_def ok(2))
  have inv1: "spd_inv im1" "pool_map (spds im1) s = Some spd" "policies im1 = policies im" "spds im1 = spds im"
    using assms(1) spd_inv_core [OF ok(4)] ok(1,4) by (simp_all add: spd_core_def)
  show "spd_inv im'"
    unfolding im'
    by (rule spd_inv_vectors [OF inv1(1,2) ok(7) _ vec])
      (use spd_inv_spd(2) [OF inv1(1)] inv1(3) vector_ok_fresh [where P = "pool_map (policies im)" and i = i and p = p'] ok(5,6) in simp)
  show "\<exists>i. st = Some i \<and> pool_map (policies im) i = None \<and> pool_map (policies im') = (pool_map (policies im))(i \<mapsto> p')"
    using ok(3,5,6) by (auto simp: im')
  have "map (the \<circ> pool_map pl) v' = policy_insert p' (map (pool_elt_at_index pl) v)"
    unfolding vector_ok_elts [OF vec] unfolding v_v'_def(2) using ok(6) by (intro map_vec_insert pool_map_elt) simp
  also have "map (pool_elt_at_index pl) v = map (the \<circ> pool_map (policies im)) v"
    using vector_ok_elts [OF vector_ok_fresh [OF old ok(5), of p', folded ok(6)]] vector_ok_same [OF old ok(5), of p', folded ok(6)]
    by simp
  also have "\<dots> = policies_of im (policy_spd_id p) (policy_type p)"
    using policies_of_spd [OF spd_inv_spd(1) [OF assms(1) ok(1)] ok(1)] ok(2) by (simp add: v_v'_def)
  finally have new: "map (the \<circ> pool_map pl) v' = policy_insert p' (policies_of im (policy_spd_id p) (policy_type p))" .
  show "policies_of im' sid t =
      (if sid = policy_spd_id p \<and> t = policy_type p then policy_insert p' (policies_of im sid t) else policies_of im sid t)"
    unfolding im'
  proof (subst policies_of_set_vector [OF assms(1) ok(1,4)])
    fix s' spd' t' j
    assume "pool_map (spds im) s' = Some spd'" "j \<in> set (spd_policies spd' t')"
    then have "pool_map (policies im) j \<noteq> None"
      using spd_inv_spd(2) [OF assms(1)] unfolding vector_ok_def by blast
    then show "pool_map pl j = pool_map (policies im) j"
      using ok(5,6) by auto
  qed (use new ok(2) in auto)
qed

lemma del_policy_found:
  assumes "spd_inv im" "ipsec_add_del_policy p False im = Some (rv, st, im')"
    and "pool_map (spds im) s = Some spd" "spd_id spd = policy_spd_id p"
    and "find_equal (policies im) p (spd_policies spd (policy_type p)) = Some ii"
  defines "v \<equiv> spd_policies spd (policy_type p)"
  defines "pl \<equiv> pool_put_index (policies im) (v ! ii)"
  shows "spd_core im' = spd_core (set_vector s (policy_type p) (vec_delete ii v) (im\<lparr>policies := pl\<rparr>))"
    and "pool_map (policies im) (v ! ii) \<noteq> None" "pool_map pl = (pool_map (policies im))(v ! ii := None)" "pool_wf pl"
proof -
  have ix: "spd_index_by_spd_id im (policy_spd_id p) = Some s"
    using spd_inv_spd(1) [OF assms(1,3)] assms(4) by simp
  show "spd_core im' = spd_core (set_vector s (policy_type p) (vec_delete ii v) (im\<lparr>policies := pl\<rparr>))"
    using del_policy_some [OF assms(2) ix pool_map_elt [OF assms(3)] assms(5)]
    by (simp add: Let_def spd_core_def v_def pl_def) (simp add: set_vector_def Let_def)
  have "v ! ii \<in> set v"
    using find_equal_bound [OF assms(5)] by (simp add: v_def)
  then show some: "pool_map (policies im) (v ! ii) \<noteq> None"
    using spd_inv_spd(2) [OF assms(1,3), of "policy_type p"] unfolding v_def vector_ok_def by blast
  then have act: "v ! ii \<in> pool_active (policies im)"
    by (auto intro: pool_map_active)
  have wf: "pool_wf (policies im)"
    using assms(1) by (simp add: spd_inv_def)
  show "pool_map pl = (pool_map (policies im))(v ! ii := None)" "pool_wf pl"
    using pool_map_put [OF wf act] pool_put_wf(1) [OF wf act] by (simp_all add: pl_def)
qed

lemma del_policy_found_spec:
  assumes "spd_inv im" "ipsec_add_del_policy p False im = Some (rv, st, im')"
    and "pool_map (spds im) s = Some spd" "spd_id spd = policy_spd_id p"
    and "find_equal (policies im) p (spd_policies spd (policy_type p)) = Some ii"
  shows "spd_inv im'"
    and "policies_of im' sid t =
           (if sid = policy_spd_id p \<and> t = policy_type p then policy_remove p (policies_of im sid t) else policies_of im sid t)"
proof -
  define v where "v = spd_policies spd (policy_type p)"
  define pl where "pl = pool_put_index (policies im) (v ! ii)"
  note del = del_policy_found [OF assms, folded v_def, folded pl_def]
  have old: "vector_ok (pool_map (policies im)) (spd_id spd) (policy_type p) v"
    using spd_inv_spd(2) [OF assms(1,3)] by (simp add: v_def)
  have vec: "vector_ok (pool_map pl) (spd_id spd) (policy_type p) (vec_delete ii v)"
    unfolding del(3) by (rule vector_ok_delete [OF old]) (use assms(5) in \<open>simp add: v_def\<close>)
  have bound: "ii < length v" "distinct v"
    using find_equal_bound [OF assms(5)] old by (simp_all add: v_def vector_ok_def)
  have other: "v ! ii \<notin> set (spd_policies spd' t')" if "pool_map (spds im) s' = Some spd'" "(s', t') \<noteq> (s, policy_type p)" for s' spd' t'
    using vectors_disjoint [OF assms(1,3) that(1)] that(2) bound(1) nth_mem unfolding v_def by blast
  have "spd_inv (set_vector s (policy_type p) (vec_delete ii v) (im\<lparr>policies := pl\<rparr>))"
    by (rule spd_inv_vectors [OF assms(1,3) del(4) _ vec])
      (use other spd_inv_spd(2) [OF assms(1)] vector_ok_drop in \<open>simp add: del(3)\<close>)
  then show "spd_inv im'"
    using spd_inv_core [OF del(1)] by simp
  have "map (the \<circ> pool_map pl) (vec_delete ii v) = map (the \<circ> pool_map (policies im)) (vec_delete ii v)"
    using vec_delete_facts [OF bound] by (intro map_cong) (auto simp: del(3))
  also have "\<dots> = map (pool_elt_at_index (policies im)) (vec_delete ii v)"
    using vec_delete_facts [OF bound] by (intro vector_ok_elts_sub [OF old]) auto
  also have "\<dots> = policy_remove p (map (the \<circ> pool_map (policies im)) v)"
    unfolding vector_ok_elts [OF old] by (rule map_vec_delete) (use assms(5) in \<open>simp add: v_def\<close>)
  also have "\<dots> = policy_remove p (policies_of im (policy_spd_id p) (policy_type p))"
    using policies_of_spd [OF spd_inv_spd(1) [OF assms(1,3)] assms(3)] assms(4) by (simp add: v_def)
  finally have new: "map (the \<circ> pool_map pl) (vec_delete ii v) = policy_remove p (policies_of im (policy_spd_id p) (policy_type p))" .
  show "policies_of im' sid t =
      (if sid = policy_spd_id p \<and> t = policy_type p then policy_remove p (policies_of im sid t) else policies_of im sid t)"
    unfolding policies_of_core [OF del(1)]
    by (subst policies_of_set_vector [OF assms(1,3) refl]) (use other new assms(4) in \<open>auto simp: del(3)\<close>)
qed

lemma del_policy_spec:
  assumes "spd_inv im" "ipsec_add_del_policy p False im = Some (rv, st, im')"
  shows "spd_inv im'"
    and "policies_of im' sid t =
           (if sid = policy_spd_id p \<and> t = policy_type p then policy_remove p (policies_of im sid t) else policies_of im sid t)"
proof -
  have "spd_inv im' \<and> policies_of im' sid t =
      (if sid = policy_spd_id p \<and> t = policy_type p then policy_remove p (policies_of im sid t) else policies_of im sid t)"
  proof (cases "spd_index_by_spd_id im (policy_spd_id p)")
    case None
    then have core: "spd_core im' = spd_core im"
      by (intro del_policy_none [OF assms(2)]) simp
    then show ?thesis
      using None assms(1) spd_inv_core [OF core] by (simp add: policies_of_core [OF core] policies_of_def)
  next
    case (Some s)
    obtain spd where spd: "pool_map (spds im) s = Some spd" "spd_id spd = policy_spd_id p" "pool_elt_at_index (spds im) s = spd"
      by (rule spd_inv_index [OF assms(1) Some])
    show ?thesis
    proof (cases "find_equal (policies im) p (spd_policies spd (policy_type p))")
      case None
      then have core: "spd_core im' = spd_core im"
        by (intro del_policy_none [OF assms(2)]) (use Some spd(3) in simp)
      moreover have "policy_remove p (policies_of im (policy_spd_id p) (policy_type p)) = policies_of im (policy_spd_id p) (policy_type p)"
        using policies_of_spd [OF Some spd(1)] vector_ok_elts [OF spd_inv_spd(2) [OF assms(1) spd(1)]] policy_remove_absent [OF None]
        by simp
      ultimately show ?thesis
        using assms(1) spd_inv_core [OF core] by (simp add: policies_of_core [OF core])
    next
      case (Some ii)
      then show ?thesis
        using del_policy_found_spec [OF assms spd(1,2) Some] by simp
    qed
  qed
  then show "spd_inv im'" "policies_of im' sid t =
      (if sid = policy_spd_id p \<and> t = policy_type p then policy_remove p (policies_of im sid t) else policies_of im sid t)"
    by simp_all
qed

subsection \<open>SPDs added and deleted\<close>

text \<open>Lists stay as they are when SPDs come and go that have none.\<close>

lemma policies_of_keep:
  assumes "spd_inv im" "policies im' = policies im" "x \<noteq> sid" "spd_index_by_spd_id im' x = spd_index_by_spd_id im x"
    and "\<And>r spd. spd_index_by_spd_id im x = Some r \<Longrightarrow> pool_map (spds im) r = Some spd \<Longrightarrow> pool_map (spds im') r = Some spd"
  shows "policies_of im' x t = policies_of im x t"
proof (cases "spd_index_by_spd_id im x")
  case None
  then show ?thesis
    using assms(4) by (simp add: policies_of_def)
next
  case (Some r)
  obtain spd where spd: "pool_map (spds im) r = Some spd" "spd_id spd = x" "pool_elt_at_index (spds im) r = spd"
    by (rule spd_inv_index [OF assms(1) Some])
  have "policies_of im' x t = map (the \<circ> pool_map (policies im')) (spd_policies spd t)"
    by (rule policies_of_spd [OF _ assms(5) [OF Some spd(1)]]) (use assms(4) Some in simp)
  then show ?thesis
    using policies_of_spd [OF Some spd(1), of t] assms(2) by simp
qed

lemma add_spd_inv:
  assumes "spd_inv im" "spd_index_by_spd_id im sid = None" "ipsec_add_del_spd walk sid True im = Some (rv, im')"
  shows "spd_inv im' \<and> policies_of im' = policies_of im"
proof -
  let ?e = "empty_spd\<lparr>spd_id := sid\<rparr>"
  obtain s q where get: "pool_get empty_spd (spds im) = Some (s, q)"
    and im': "im' = im\<lparr>spds := pool_write q s ?e, spd_index_by_spd_id := (spd_index_by_spd_id im)(sid \<mapsto> s)\<rparr>"
    using assms(2,3) by (auto simp: ipsec_add_del_spd_def Let_def split: bind_splits if_splits)
  have wf: "pool_wf (spds im)"
    using assms(1) by (simp add: spd_inv_def)
  have m: "pool_map (spds im') = (pool_map (spds im))(s \<mapsto> ?e)" and free: "pool_map (spds im) s = None" and "pool_wf (spds im')"
    using pool_map_get_write [OF wf get] by (simp_all add: im')
  have ix: "spd_index_by_spd_id im' = (spd_index_by_spd_id im)(sid \<mapsto> s)"
    by (simp add: im')
  have parts: "named_ok im" "names_ok im" "vectors_ok im" "bindings_ok im" "pool_wf (policies im)"
    using assms(1) by (simp_all add: spd_inv_def)
  have "named_ok im'"
    using parts(1) assms(2) unfolding named_ok_def m ix by auto
  moreover have "names_ok im'"
    using parts(2) free unfolding names_ok_def m ix by (fastforce split: if_splits)
  moreover have "vectors_ok im'" "bindings_ok im'"
    using parts(3,4) unfolding vectors_ok_def bindings_ok_def m
    by (auto simp: im' empty_spd_def vector_ok_def by_priority_def)
  ultimately have inv: "spd_inv im'"
    using parts(5) \<open>pool_wf (spds im')\<close> by (simp add: spd_inv_def im')
  have "policies_of im' x t = policies_of im x t" for x t
  proof (cases "x = sid")
    case True
    then show ?thesis
      using policies_of_spd [of im' sid s ?e t] assms(2) by (simp add: m ix policies_of_def) (simp add: empty_spd_def)
  next
    case False
    then show ?thesis
      by (intro policies_of_keep [OF assms(1)]) (use free in \<open>auto simp: m ix, simp_all add: im'\<close>)
  qed
  then show ?thesis
    using inv by blast
qed

text \<open>A walk over a hash table visits every entry once.\<close>

definition walks :: "((u32 \<rightharpoonup> nat) \<Rightarrow> (u32 \<times> nat) list) \<Rightarrow> bool" where
  "walks walk \<longleftrightarrow> (\<forall>m. distinct (walk m) \<and> set (walk m) = {(k, v). m k = Some v})"

lemma unbind_fold:
  assumes "spd_inv im" "spd_index_by_spd_id im sid = Some s"
  defines "f \<equiv> \<lambda>(k, v) im. if v = s then snd (ipsec_set_interface_spd k sid False im) else im"
  shows "spd_inv (fold f kvs im) \<and> spds (fold f kvs im) = spds im \<and> policies (fold f kvs im) = policies im \<and>
    spd_index_by_spd_id (fold f kvs im) = spd_index_by_spd_id im \<and>
    spd_index_by_sw_if_index (fold f kvs im) =
      (\<lambda>k. if (k, s) \<in> set kvs then None else spd_index_by_sw_if_index im k)"
  using assms(1,2)
proof (induction kvs arbitrary: im)
  case (Cons kv kvs)
  obtain k v where kv: "kv = (k, v)"
    by (cases kv)
  define im1 where "im1 = f kv im"
  have im1: "spd_inv im1" "spds im1 = spds im" "policies im1 = policies im"
    "spd_index_by_spd_id im1 = spd_index_by_spd_id im"
    "spd_index_by_sw_if_index im1 = (if v = s then (spd_index_by_sw_if_index im)(k := None) else spd_index_by_sw_if_index im)"
    using Cons.prems set_interface_inv [OF Cons.prems(1), of k sid False]
    by (simp_all add: im1_def f_def kv ipsec_set_interface_spd_def Let_def)
  show ?case
    using Cons.IH [OF im1(1)] im1 Cons.prems(2) by (auto simp: im1_def [unfolded kv, symmetric] kv)
qed simp

lemma del_spd_shape:
  assumes "spd_inv im" "spd_index_by_spd_id im sid = Some s" "ipsec_add_del_spd walk sid False im = Some (rv, im')"
    and "walks walk"
  shows "\<exists>im1. spd_inv im1 \<and> spds im1 = spds im \<and> policies im1 = policies im \<and>
      spd_index_by_spd_id im1 = spd_index_by_spd_id im \<and>
      spd_index_by_sw_if_index im1 = (\<lambda>k. if spd_index_by_sw_if_index im k = Some s then None else spd_index_by_sw_if_index im k) \<and>
      im' = im1\<lparr>spd_index_by_spd_id := (spd_index_by_spd_id im)(sid := None),
        spds := pool_put_index (pool_write (spds im) s ((pool_elt_at_index (spds im) s)\<lparr>spd_policies := \<lambda>_. []\<rparr>)) s\<rparr>"
proof -
  define im1 where "im1 = fold (\<lambda>(k, v) im. if v = s then snd (ipsec_set_interface_spd k sid False im) else im)
    (walk (spd_index_by_sw_if_index im)) im"
  note u = unbind_fold [OF assms(1,2), of "walk (spd_index_by_sw_if_index im)", folded im1_def]
  have set: "set (walk (spd_index_by_sw_if_index im)) = {(k, v). spd_index_by_sw_if_index im k = Some v}"
    using assms(4) unfolding walks_def by blast
  have "im' = im1\<lparr>spd_index_by_spd_id := (spd_index_by_spd_id im)(sid := None),
        spds := pool_put_index (pool_write (spds im) s ((pool_elt_at_index (spds im) s)\<lparr>spd_policies := \<lambda>_. []\<rparr>)) s\<rparr>"
    using assms(2,3) u by (simp add: ipsec_add_del_spd_def Let_def im1_def [symmetric] split: if_splits)
  then show ?thesis
    using u set by (intro exI [of _ im1]) simp
qed

lemma del_spd_inv:
  assumes "spd_inv im" "spd_index_by_spd_id im sid = Some s" "ipsec_add_del_spd walk sid False im = Some (rv, im')"
    and "walks walk"
  shows "spd_inv im' \<and> policies_of im' = (policies_of im)(sid := \<lambda>_. [])"
proof -
  obtain im1 where im1: "spd_inv im1" "spds im1 = spds im" "policies im1 = policies im"
      "spd_index_by_spd_id im1 = spd_index_by_spd_id im"
      "spd_index_by_sw_if_index im1 = (\<lambda>k. if spd_index_by_sw_if_index im k = Some s then None else spd_index_by_sw_if_index im k)"
    and im': "im' = im1\<lparr>spd_index_by_spd_id := (spd_index_by_spd_id im)(sid := None),
        spds := pool_put_index (pool_write (spds im) s ((pool_elt_at_index (spds im) s)\<lparr>spd_policies := \<lambda>_. []\<rparr>)) s\<rparr>"
    using del_spd_shape [OF assms] by blast
  obtain spd where spd: "pool_map (spds im) s = Some spd" "spd_id spd = sid" "pool_elt_at_index (spds im) s = spd"
    by (rule spd_inv_index [OF assms(1,2)])
  have wf: "pool_wf (spds im)"
    using assms(1) by (simp add: spd_inv_def)
  have active: "s \<in> pool_active (spds im)"
    by (rule pool_map_active [OF spd(1)])
  have m: "pool_map (spds im') = (pool_map (spds im))(s := None)" and wf': "pool_wf (spds im')"
    using wf active by (simp_all add: im' pool_map_put pool_map_write pool_put_wf pool_write_wf)
  have ix: "spd_index_by_spd_id im' = (spd_index_by_spd_id im)(sid := None)"
    by (simp add: im')
  have parts: "named_ok im1" "names_ok im1" "vectors_ok im1" "bindings_ok im1" "pool_wf (policies im1)"
    using im1(1) by (simp_all add: spd_inv_def)
  have "named_ok im'"
    using parts(1) assms(2) unfolding named_ok_def m ix im1(2,4) by (force split: if_splits)
  moreover have "names_ok im'"
    using parts(2) spd unfolding names_ok_def m ix im1(2,4) by (fastforce split: if_splits)
  moreover have "vectors_ok im'"
    using parts(3) unfolding vectors_ok_def m im1(2) by (simp add: im')
  moreover have "bindings_ok im'"
  proof -
    have same: "spd_index_by_sw_if_index im' = spd_index_by_sw_if_index im1" "input_config im' = input_config im1"
      "output_feature im' = output_feature im1"
      by (simp_all add: im')
    have "spd_index_by_sw_if_index im1 k \<noteq> Some s" for k
      by (simp add: im1(5))
    then show ?thesis
      using parts(4) unfolding bindings_ok_def m same im1(2) by (metis fun_upd_other)
  qed
  moreover have pol: "policies im' = policies im"
    by (simp add: im' im1(3))
  ultimately have inv: "spd_inv im'"
    using parts(5) wf' im1(3) by (simp add: spd_inv_def)
  have only: "x = sid" if "spd_index_by_spd_id im x = Some s" for x
    using parts(2) that spd unfolding names_ok_def im1(2,4) by force
  have "policies_of im' x t = (if x = sid then [] else policies_of im x t)" for x t
  proof (cases "x = sid")
    case False
    then have "policies_of im' x t = policies_of im x t"
      by (intro policies_of_keep [OF assms(1) pol]) (use only in \<open>auto simp: m ix\<close>)
    then show ?thesis
      using False by simp
  qed (simp add: policies_of_def ix)
  then show ?thesis
    using inv by (auto simp: fun_eq_iff)
qed

end
