(* ===== verification/Spd_Props.thy ===== *)
theory Spd_Props
  imports Ipsec_Spd
begin

text \<open>
  The control plane of the security policy databases as a whole: sequences of its operations, the map from names
  to lists of policies that they implement, and the locks that policies hold on SAs.
\<close>

subsection \<open>Sequences of operations\<close>

text \<open>The requests of the API: an SPD by its name, a policy, the SPD of an interface; each to add or to delete.\<close>

datatype spd_op = Spd_op u32 bool | Policy_op ipsec_policy bool | Interface_op u32 u32 bool

definition spd_step ::
  "((u32 \<rightharpoonup> nat) \<Rightarrow> (u32 \<times> nat) list) \<Rightarrow> spd_op \<Rightarrow> ipsec_main \<Rightarrow> (vnet_api_rv \<times> ipsec_main) option" where
  "spd_step walk r im =
     (case r of
        Spd_op sid is_add \<Rightarrow> ipsec_add_del_spd walk sid is_add im
      | Policy_op p is_add \<Rightarrow> map_option (\<lambda>(rv, _, im). (rv, im)) (ipsec_add_del_policy p is_add im)
      | Interface_op k sid is_add \<Rightarrow> Some (ipsec_set_interface_spd k sid is_add im))"

fun spd_run ::
  "((u32 \<rightharpoonup> nat) \<Rightarrow> (u32 \<times> nat) list) \<Rightarrow> spd_op list \<Rightarrow> ipsec_main \<Rightarrow> (vnet_api_rv list \<times> ipsec_main) option" where
  "spd_run walk [] im = Some ([], im)"
| "spd_run walk (r # rs) im =
     do { (rv, im) \<leftarrow> spd_step walk r im; (rvs, im) \<leftarrow> spd_run walk rs im; Some (rv # rvs, im) }"

subsection \<open>What they mean\<close>

text \<open>The abstract state: for every name in use the lists of policies, highest priority first and of equal ones the
  latest first, and the name each interface is bound to. The index of the SA in a policy is left out, as the
  position of the SA in its pool is nobody's business; so are the positions of SPDs and policies.\<close>

record spd_view =
  lists :: "u32 \<rightharpoonup> (ipsec_spd_policy_type \<Rightarrow> ipsec_policy list)"
  bound :: "u32 \<rightharpoonup> u32"

definition no_sa :: "ipsec_policy \<Rightarrow> ipsec_policy" where
  "no_sa p = p\<lparr>policy_sa_index := None\<rparr>"

definition view_of :: "ipsec_main \<Rightarrow> spd_view" where
  "view_of im =
     \<lparr>lists = (\<lambda>sid. if spd_index_by_spd_id im sid = None then None else Some (\<lambda>t. map no_sa (policies_of im sid t))),
      bound = (\<lambda>k. map_option (\<lambda>s. spd_id (pool_elt_at_index (spds im) s)) (spd_index_by_sw_if_index im k))\<rparr>"

text \<open>The outcome of a request: the code returned and the new state. Whether an SA exists is the one thing that
  the abstract state does not say.\<close>

fun spec_step :: "(u32 \<Rightarrow> bool) \<Rightarrow> spd_op \<Rightarrow> spd_view \<Rightarrow> vnet_api_rv \<times> spd_view" where
  "spec_step sas (Spd_op sid True) w =
     (if lists w sid \<noteq> None then (VNET_API_ERROR_ENTRY_ALREADY_EXISTS, w)
      else (VNET_API_OK, w\<lparr>lists := (lists w)(sid \<mapsto> \<lambda>_. [])\<rparr>))"
| "spec_step sas (Spd_op sid False) w =
     (if lists w sid = None then (VNET_API_ERROR_NO_SUCH_ENTRY, w)
      else (VNET_API_OK, w\<lparr>lists := (lists w)(sid := None),
              bound := (\<lambda>k. if bound w k = Some sid then None else bound w k)\<rparr>))"
| "spec_step sas (Policy_op p is_add) w =
     (case lists w (policy_spd_id p) of
        None \<Rightarrow> (VNET_API_ERROR_SYSCALL_ERROR_1, w)
      | Some ls \<Rightarrow>
          if is_add \<and> policy_action p = IPSEC_POLICY_ACTION_PROTECT \<and> \<not> sas (policy_sa_id p)
          then (VNET_API_ERROR_SYSCALL_ERROR_1, w)
          else (VNET_API_OK, w\<lparr>lists := (lists w)(policy_spd_id p \<mapsto>
                 ls(policy_type p := (if is_add then policy_insert (no_sa p) else policy_remove p) (ls (policy_type p))))\<rparr>))"
| "spec_step sas (Interface_op k sid is_add) w =
     (if lists w sid = None then (VNET_API_ERROR_SYSCALL_ERROR_1, w)
      else if is_add \<and> bound w k \<noteq> None then (VNET_API_ERROR_SYSCALL_ERROR_2, w)
      else (VNET_API_OK, w\<lparr>bound := (bound w)(k := (if is_add then Some sid else None))\<rparr>))"

subsection \<open>Each operation does what it means\<close>

lemma lists_view: "lists (view_of im) sid = None \<longleftrightarrow> spd_index_by_spd_id im sid = None"
  by (simp add: view_of_def)

lemma bound_view: "bound (view_of im) k = None \<longleftrightarrow> spd_index_by_sw_if_index im k = None"
  by (simp add: view_of_def)

lemma no_sa_fields [simp]:
  "priority (no_sa p) = priority p" "ipsec_policy_is_equal (no_sa p) q = ipsec_policy_is_equal p q"
  "no_sa (p\<lparr>policy_sa_index := x\<rparr>) = no_sa p"
  by (simp_all add: no_sa_def ipsec_policy_is_equal_def)

lemma map_no_sa_insert: "map no_sa (policy_insert p ls) = policy_insert (no_sa p) (map no_sa ls)"
  by (simp add: policy_insert_def takeWhile_map dropWhile_map comp_def)

lemma map_no_sa_remove: "map no_sa (policy_remove p ls) = policy_remove p (map no_sa ls)"
  by (induction ls) simp_all

lemma view_eqI:
  assumes "\<And>sid. lists (view_of im) sid = lists w sid" "\<And>k. bound (view_of im) k = bound w k"
  shows "view_of im = w"
  using assms by (intro spd_view.equality) auto

text \<open>Interfaces stay bound to the names they are bound to while their SPDs keep theirs.\<close>

lemma bound_keep:
  assumes "spd_inv im" "spd_index_by_sw_if_index im' k = spd_index_by_sw_if_index im k"
    and "\<And>s spd. spd_index_by_sw_if_index im k = Some s \<Longrightarrow> pool_map (spds im) s = Some spd \<Longrightarrow>
           \<exists>spd'. pool_map (spds im') s = Some spd' \<and> spd_id spd' = spd_id spd"
  shows "bound (view_of im') k = bound (view_of im) k"
proof (cases "spd_index_by_sw_if_index im k")
  case (Some s)
  have "bindings_ok im"
    using assms(1) by (simp add: spd_inv_def)
  then obtain spd where spd: "pool_map (spds im) s = Some spd"
    using Some unfolding bindings_ok_def by blast
  obtain spd' where "pool_map (spds im') s = Some spd'" "spd_id spd' = spd_id spd"
    using assms(3) [OF Some spd] by blast
  then show ?thesis
    using spd Some assms(2) by (simp add: view_of_def pool_map_elt)
qed (use assms(2) in \<open>simp add: view_of_def\<close>)

lemma add_spd_view:
  assumes "spd_inv im" "ipsec_add_del_spd walk sid True im = Some (rv, im')"
  shows "spec_step sas (Spd_op sid True) (view_of im) = (rv, view_of im')"
proof (cases "spd_index_by_spd_id im sid")
  case None
  obtain s q where get: "pool_get empty_spd (spds im) = Some (s, q)" and rv: "rv = VNET_API_OK"
    and im': "im' = im\<lparr>spds := pool_write q s (empty_spd\<lparr>spd_id := sid\<rparr>), spd_index_by_spd_id := (spd_index_by_spd_id im)(sid \<mapsto> s)\<rparr>"
    using None assms(2) by (auto simp: ipsec_add_del_spd_def Let_def split: bind_splits if_splits)
  have wf: "pool_wf (spds im)"
    using assms(1) by (simp add: spd_inv_def)
  have m: "pool_map (spds im') = (pool_map (spds im))(s \<mapsto> empty_spd\<lparr>spd_id := sid\<rparr>)" and free: "pool_map (spds im) s = None"
    using pool_map_get_write [OF wf get] by (simp_all add: im')
  have same: "policies_of im' = policies_of im"
    using add_spd_inv [OF assms(1) None assms(2)] by blast
  have empty: "policies_of im sid = (\<lambda>_. [])"
    by (intro ext) (simp add: policies_of_def None)
  have ls: "lists (view_of im') = (lists (view_of im))(sid \<mapsto> \<lambda>_. [])"
    by (intro ext) (simp add: view_of_def same empty, simp add: im')
  have "bound (view_of im') k = bound (view_of im) k" for k
    by (rule bound_keep [OF assms(1)]) (simp add: im', use free m in auto)
  then show ?thesis
    using None rv ls by (auto simp: lists_view intro!: view_eqI [symmetric])
next
  case (Some s)
  then show ?thesis
    using assms(2) by (simp add: lists_view ipsec_add_del_spd_def)
qed

lemma del_spd_view:
  assumes "spd_inv im" "ipsec_add_del_spd walk sid False im = Some (rv, im')" "walks walk"
  shows "spec_step sas (Spd_op sid False) (view_of im) = (rv, view_of im')"
proof (cases "spd_index_by_spd_id im sid")
  case None
  then show ?thesis
    using assms(2) by (simp add: lists_view ipsec_add_del_spd_def)
next
  case (Some s)
  obtain im1 where im1: "spd_index_by_sw_if_index im1 = (\<lambda>k. if spd_index_by_sw_if_index im k = Some s then None else spd_index_by_sw_if_index im k)"
    and im': "im' = im1\<lparr>spd_index_by_spd_id := (spd_index_by_spd_id im)(sid := None),
        spds := pool_put_index (pool_write (spds im) s ((pool_elt_at_index (spds im) s)\<lparr>spd_policies := \<lambda>_. []\<rparr>)) s\<rparr>"
    using del_spd_shape [OF assms(1) Some assms(2,3)] by blast
  obtain spd where spd: "pool_map (spds im) s = Some spd" "spd_id spd = sid" "pool_elt_at_index (spds im) s = spd"
    by (rule spd_inv_index [OF assms(1) Some])
  have wf: "pool_wf (spds im)"
    using assms(1) by (simp add: spd_inv_def)
  have m: "pool_map (spds im') = (pool_map (spds im))(s := None)"
    using wf pool_map_active [OF spd(1)] by (simp add: im' pool_map_put pool_map_write pool_put_wf pool_write_wf)
  have pol: "policies_of im' = (policies_of im)(sid := \<lambda>_. [])"
    using del_spd_inv [OF assms(1) Some assms(2,3)] by blast
  have ls: "lists (view_of im') x = ((lists (view_of im))(sid := None)) x" for x
    by (simp add: view_of_def pol) (simp add: im')
  have iff: "bound (view_of im) k = Some sid \<longleftrightarrow> spd_index_by_sw_if_index im k = Some s" for k
  proof
    assume "bound (view_of im) k = Some sid"
    then obtain r where r: "spd_index_by_sw_if_index im k = Some r" "spd_id (pool_elt_at_index (spds im) r) = sid"
      by (auto simp: view_of_def)
    have "bindings_ok im"
      using assms(1) by (simp add: spd_inv_def)
    then obtain spd' where "pool_map (spds im) r = Some spd'"
      using r(1) unfolding bindings_ok_def by blast
    then show "spd_index_by_sw_if_index im k = Some s"
      using spd_inv_spd(1) [OF assms(1)] Some r by (force dest: pool_map_elt)
  qed (use spd in \<open>simp add: view_of_def\<close>)
  have bd: "bound (view_of im') k = (if bound (view_of im) k = Some sid then None else bound (view_of im) k)" for k
  proof (cases "spd_index_by_sw_if_index im k = Some s")
    case False
    then show ?thesis
      unfolding iff by (simp, intro bound_keep [OF assms(1)]) (auto simp: im' im1 m [unfolded im', simplified])
  qed (unfold iff, simp add: view_of_def im' im1)
  have "rv = VNET_API_OK"
    using assms(2) Some by (simp add: ipsec_add_del_spd_def Let_def split: if_splits)
  then show ?thesis
    using Some ls bd by (auto simp: lists_view intro!: view_eqI [symmetric])
qed

text \<open>An operation on policies moves no SPD.\<close>

lemma policy_core:
  assumes "spd_inv im" "ipsec_add_del_policy p b im = Some (rv, st, im')"
  shows "spd_core im' = spd_core im \<or>
    (\<exists>s spd v pl. pool_map (spds im) s = Some spd \<and>
       spd_core im' = spd_core (set_vector s (policy_type p) v (im\<lparr>policies := pl\<rparr>)))"
proof (cases b)
  case True
  show ?thesis
  proof (cases "rv = VNET_API_OK")
    case ok: True
    have add: "ipsec_add_del_policy p True im = Some (VNET_API_OK, st, im')"
      using assms(2) True ok by simp
    obtain s spd i pl im1 where "pool_map (spds im) s = Some spd" "spd_core im1 = spd_core im"
      "let v = spd_policies spd (policy_type p)
       in im' = set_vector s (policy_type p) (vec_insert i (insert_pos pl (priority (p\<lparr>policy_sa_index := protect_sa p im\<rparr>)) v) v)
         (im1\<lparr>policies := pl\<rparr>)"
      by (rule add_policy_shape [OF assms(1) add])
    then show ?thesis
      by (intro disjI2 exI [of _ s] exI [of _ spd] exI [of _ "vec_insert i (insert_pos pl (priority p) (spd_policies spd (policy_type p))) (spd_policies spd (policy_type p))"] exI [of _ pl])
        (simp add: Let_def spd_core_def set_vector_def)
  qed (use add_policy_error assms(2) True in simp)
next
  case False
  then have del: "ipsec_add_del_policy p False im = Some (rv, st, im')"
    using assms(2) by simp
  show ?thesis
  proof (cases "spd_core im' = spd_core im")
    case changed: False
    then obtain s ii where s: "spd_index_by_spd_id im (policy_spd_id p) = Some s"
      "find_equal (policies im) p (spd_policies (pool_elt_at_index (spds im) s) (policy_type p)) = Some ii"
      using del_policy_none [OF del] by (metis option.exhaust)
    obtain spd where spd: "pool_map (spds im) s = Some spd" "spd_id spd = policy_spd_id p" "pool_elt_at_index (spds im) s = spd"
      by (rule spd_inv_index [OF assms(1) s(1)])
    then show ?thesis
      using del_policy_found(1) [OF assms(1) del spd(1,2)] s(2) by blast
  qed simp
qed

lemma policy_frame:
  assumes "spd_inv im" "ipsec_add_del_policy p b im = Some (rv, st, im')"
  shows "spd_index_by_spd_id im' = spd_index_by_spd_id im" and "bound (view_of im') k = bound (view_of im) k"
proof -
  have wf: "pool_wf (spds im)"
    using assms(1) by (simp add: spd_inv_def)
  have frame: "spd_index_by_spd_id im' = spd_index_by_spd_id im \<and> spd_index_by_sw_if_index im' = spd_index_by_sw_if_index im \<and>
      (\<forall>s spd. pool_map (spds im) s = Some spd \<longrightarrow> (\<exists>spd'. pool_map (spds im') s = Some spd' \<and> spd_id spd' = spd_id spd))"
    using policy_core [OF assms]
  proof (elim disjE exE conjE)
    fix s spd v pl
    assume s: "pool_map (spds im) s = Some spd"
      and c: "spd_core im' = spd_core (set_vector s (policy_type p) v (im\<lparr>policies := pl\<rparr>))"
    have "pool_map (spds im') = (pool_map (spds im))(s \<mapsto> spd\<lparr>spd_policies := (spd_policies spd)(policy_type p := v)\<rparr>)"
      using pool_map_set_vector(1) [of "im\<lparr>policies := pl\<rparr>" s spd] c s wf by (simp add: spd_core_def)
    then show ?thesis
      using c s by (simp add: spd_core_def)
  qed (simp add: spd_core_def)
  then show "spd_index_by_spd_id im' = spd_index_by_spd_id im"
    by blast
  show "bound (view_of im') k = bound (view_of im) k"
    by (rule bound_keep [OF assms(1)]) (use frame in auto)
qed

lemma add_policy_rv:
  assumes "ipsec_add_del_policy p True im = Some (rv, st, im')"
  shows "rv = (if spd_index_by_spd_id im (policy_spd_id p) = None \<or>
      policy_action p = IPSEC_POLICY_ACTION_PROTECT \<and> protect_sa p im = None then VNET_API_ERROR_SYSCALL_ERROR_1 else VNET_API_OK)"
  using assms unfolding ipsec_add_del_policy_def add_policy_found
  by (auto simp: Let_def split: option.splits if_splits bind_splits)

lemma del_policy_rv:
  assumes "ipsec_add_del_policy p False im = Some (rv, st, im')"
  shows "rv = (if spd_index_by_spd_id im (policy_spd_id p) = None then VNET_API_ERROR_SYSCALL_ERROR_1 else VNET_API_OK)"
  using assms unfolding ipsec_add_del_policy_def
  by (auto simp: Let_def split: option.splits if_splits)

lemma lists_view_some: "spd_index_by_spd_id im sid \<noteq> None \<Longrightarrow> lists (view_of im) sid = Some (\<lambda>t. map no_sa (policies_of im sid t))"
  by (simp add: view_of_def)

lemma core_view: "spd_core im' = spd_core im \<Longrightarrow> view_of im' = view_of im"
  by (frule policies_of_core) (simp add: view_of_def spd_core_def cong: if_cong)

lemma policy_view:
  assumes "spd_inv im" "ipsec_add_del_policy p b im = Some (rv, st, im')"
  defines "sas \<equiv> \<lambda>x. sa_index_by_sa_id im x \<noteq> None"
  shows "spec_step sas (Policy_op p b) (view_of im) = (rv, view_of im')"
proof (cases "rv = VNET_API_OK")
  case ok: True
  have pol: "map no_sa (policies_of im' sid t) =
      (if sid = policy_spd_id p \<and> t = policy_type p
       then (if b then policy_insert (no_sa p) else policy_remove p) (map no_sa (policies_of im sid t))
       else map no_sa (policies_of im sid t))" for sid t
    using assms(1,2) ok add_policy_spec(3) [of im p st im' sid t] del_policy_spec(2) [of im p rv st im' sid t]
    by (cases b) (simp_all add: map_no_sa_insert map_no_sa_remove)
  have known: "spd_index_by_spd_id im (policy_spd_id p) \<noteq> None"
    and sa: "\<not> (b \<and> policy_action p = IPSEC_POLICY_ACTION_PROTECT \<and> \<not> sas (policy_sa_id p))"
    using assms(2) ok add_policy_rv [of p im rv st im'] del_policy_rv [of p im rv st im']
    by (cases b; auto simp: sas_def protect_sa_def split: if_splits)+
  have ls: "lists (view_of im') sid = (if sid = policy_spd_id p then Some ((\<lambda>t. map no_sa (policies_of im sid t))(policy_type p :=
      (if b then policy_insert (no_sa p) else policy_remove p) (map no_sa (policies_of im sid (policy_type p))))) else lists (view_of im) sid)" for sid
    using known by (auto simp: view_of_def policy_frame(1) [OF assms(1,2)] pol)
  show ?thesis
    using ok sa policy_frame(2) [OF assms(1,2)] ls
    by (auto simp: lists_view_some [OF known] intro!: view_eqI [symmetric])
next
  case False
  then have b: "b \<or> spd_index_by_spd_id im (policy_spd_id p) = None"
    using assms(2) del_policy_rv [of p im rv st im'] by (cases b) (auto split: if_splits)
  have "spd_core im' = spd_core im"
    using assms(2) False b add_policy_error [of p im rv st im'] del_policy_none [of p im rv st im'] by (cases b) auto
  then have same: "view_of im' = view_of im"
    by (rule core_view)
  show ?thesis
  proof (cases "spd_index_by_spd_id im (policy_spd_id p) = None")
    case True
    then show ?thesis
      using same assms(2) add_policy_rv [of p im rv st im'] del_policy_rv [of p im rv st im'] lists_view [of im "policy_spd_id p"]
      by (cases b) auto
  next
    case known: False
    then show ?thesis
      using same assms(2) False b add_policy_rv [of p im rv st im'] lists_view_some [OF known]
      by (auto simp: sas_def protect_sa_def split: if_splits)
  qed
qed

lemma interface_view:
  assumes "spd_inv im" "ipsec_set_interface_spd k sid b im = (rv, im')"
  shows "spec_step sas (Interface_op k sid b) (view_of im) = (rv, view_of im')"
proof (cases "spd_index_by_spd_id im sid")
  case None
  then show ?thesis
    using assms(2) by (auto simp: ipsec_set_interface_spd_def lists_view)
next
  case (Some s)
  obtain spd where spd: "pool_map (spds im) s = Some spd" "spd_id spd = sid" "pool_elt_at_index (spds im) s = spd"
    by (rule spd_inv_index [OF assms(1) Some])
  have same: "policies_of im' = policies_of im" "spd_index_by_spd_id im' = spd_index_by_spd_id im" "spds im' = spds im"
    using assms(2) Some
    by (auto simp: ipsec_set_interface_spd_def Let_def policies_of_def fun_eq_iff split: if_splits option.split)
  show ?thesis
  proof (cases "b \<and> spd_index_by_sw_if_index im k \<noteq> None")
    case True
    then show ?thesis
      using assms(2) Some by (auto simp: ipsec_set_interface_spd_def lists_view bound_view)
  next
    case False
    then have rv: "rv = VNET_API_OK" and ix: "spd_index_by_sw_if_index im' = (spd_index_by_sw_if_index im)(k := (if b then Some s else None))"
      using assms(2) Some by (auto simp: ipsec_set_interface_spd_def Let_def split: if_splits)
    have "lists (view_of im') = lists (view_of im)"
      by (simp add: view_of_def same cong: if_cong)
    moreover have "bound (view_of im') j = ((bound (view_of im))(k := (if b then Some sid else None))) j" for j
      by (simp add: view_of_def ix same spd(2,3))
    ultimately show ?thesis
      using False rv Some by (auto simp: lists_view bound_view intro!: view_eqI [symmetric])
  qed
qed

lemma spd_op_inv:
  assumes "spd_inv im" "walks walk" "ipsec_add_del_spd walk sid b im = Some (rv, im')"
  shows "spd_inv im'"
proof (cases "b \<longleftrightarrow> spd_index_by_spd_id im sid = None")
  case fits: True
  show ?thesis
  proof (cases "spd_index_by_spd_id im sid")
    case None
    then have "ipsec_add_del_spd walk sid True im = Some (rv, im')"
      using fits assms(3) by simp
    then show ?thesis
      using add_spd_inv [OF assms(1) None] by blast
  next
    case (Some s)
    then have "ipsec_add_del_spd walk sid False im = Some (rv, im')"
      using fits assms(3) by simp
    then show ?thesis
      using del_spd_inv [OF assms(1) Some _ assms(2)] by blast
  qed
next
  case False
  then have "im' = im"
    using assms(3) by (cases b; cases "spd_index_by_spd_id im sid") (simp_all add: ipsec_add_del_spd_def)
  then show ?thesis
    using assms(1) by simp
qed

lemma policy_op_inv:
  assumes "spd_inv im" "ipsec_add_del_policy p b im = Some (rv, st, im')"
  shows "spd_inv im'"
proof (cases b)
  case True
  then have add: "ipsec_add_del_policy p True im = Some (rv, st, im')"
    using assms(2) by simp
  show ?thesis
  proof (cases "rv = VNET_API_OK")
    case True
    then show ?thesis
      using add_policy_spec(1) [OF assms(1)] add by blast
  next
    case False
    then show ?thesis
      using spd_inv_core [OF add_policy_error [OF add]] assms(1) by blast
  qed
next
  case False
  then have "ipsec_add_del_policy p False im = Some (rv, st, im')"
    using assms(2) by simp
  then show ?thesis
    by (rule del_policy_spec(1) [OF assms(1)])
qed

lemma spd_step_view:
  assumes "spd_inv im" "walks walk" "spd_step walk r im = Some (rv, im')"
  shows "spd_inv im' \<and> spec_step (\<lambda>x. sa_index_by_sa_id im x \<noteq> None) r (view_of im) = (rv, view_of im')"
proof (cases r)
  case (Spd_op sid b)
  then have s: "ipsec_add_del_spd walk sid b im = Some (rv, im')"
    using assms(3) by (simp add: spd_step_def)
  then have "spec_step (\<lambda>x. sa_index_by_sa_id im x \<noteq> None) (Spd_op sid b) (view_of im) = (rv, view_of im')"
    using add_spd_view [OF assms(1)] del_spd_view [OF assms(1) _ assms(2)] by (cases b) (simp_all del: spec_step.simps)
  then show ?thesis
    unfolding Spd_op using spd_op_inv [OF assms(1,2) s] by blast
next
  case (Policy_op p b)
  then obtain st where add: "ipsec_add_del_policy p b im = Some (rv, st, im')"
    using assms(3) by (auto simp: spd_step_def)
  show ?thesis
    unfolding Policy_op using policy_op_inv [OF assms(1) add] policy_view [OF assms(1) add] by blast
next
  case (Interface_op k sid b)
  then have s: "ipsec_set_interface_spd k sid b im = (rv, im')"
    using assms(3) by (simp add: spd_step_def)
  have "spd_inv im'"
    using set_interface_inv [OF assms(1), of k sid b] s by simp
  then show ?thesis
    unfolding Interface_op using interface_view [OF assms(1) s] by blast
qed

text \<open>Nothing but the fast path and a pool of fixed size can stop an operation.\<close>

definition spd_ready :: "ipsec_main \<Rightarrow> bool" where
  "spd_ready im \<longleftrightarrow>
     \<not> fp_spd_ipv4_out_is_enabled im \<and> \<not> fp_spd_ipv4_in_is_enabled im \<and>
     \<not> fp_spd_ipv6_out_is_enabled im \<and> \<not> fp_spd_ipv6_in_is_enabled im \<and>
     max_elts (spds im) = 0 \<and> max_elts (policies im) = 0"

lemma max_elts_keep [simp]: "max_elts (pool_write p i x) = max_elts p" "max_elts (pool_put_index p i) = max_elts p"
  by (simp_all add: pool_write_def pool_put_index_def)

lemma spd_ready_interface [simp]: "spd_ready (snd (ipsec_set_interface_spd k sid b im)) = spd_ready im"
  by (simp add: ipsec_set_interface_spd_def spd_ready_def Let_def split: option.split)

lemma spd_ready_unbind:
  "spd_ready im \<Longrightarrow> spd_ready (fold (\<lambda>(k, v) im. if v = s then snd (ipsec_set_interface_spd k sid False im) else im) kvs im)"
  by (induction kvs arbitrary: im) (simp_all split: prod.split)

lemma spd_ready_frame [simp]:
  "spd_ready (out_epoch_step p im) = spd_ready im" "spd_ready (in_epoch_step p im) = spd_ready im"
  "spd_ready (ipsec_sa_unlock k im) = spd_ready im" "spd_ready (set_vector s t v im) = spd_ready im"
  by (simp_all add: spd_ready_def) (simp add: set_vector_def Let_def)

lemma spd_ready_lock [simp]: "spd_ready (ipsec_sa_lock k im) = spd_ready im"
  by (simp add: spd_ready_def ipsec_sa_lock_def Let_def split: option.split)

lemma spd_ready_fp: "spd_ready im \<Longrightarrow> \<not> ipsec_is_fp_enabled im spd p"
  by (simp add: spd_ready_def ipsec_is_fp_enabled_def)

lemma spd_ready_policies: "spd_ready im \<Longrightarrow> max_elts pl = 0 \<Longrightarrow> spd_ready (im\<lparr>policies := pl\<rparr>)"
  by (simp add: spd_ready_def)

lemma policy_ready:
  assumes "spd_ready im"
  shows "\<exists>rv st im'. ipsec_add_del_policy p b im = Some (rv, st, im') \<and> spd_ready im'"
proof -
  define im1 where "im1 = in_epoch_step p (out_epoch_step p im)"
  define im2 where "im2 = (if b then ipsec_sa_lock (protect_sa p im1) im1 else im1)"
  have r: "spd_ready im1" "spd_ready im2"
    using assms by (simp_all add: im1_def im2_def)
  obtain i pl where get: "pool_get (p\<lparr>policy_sa_index := protect_sa p im1\<rparr>) (policies im2) = Some (i, pl)"
    using pool_get_some r(2) by (meson spd_ready_def)
  have pl: "max_elts pl = 0"
    using pool_get_max_elts [OF get] r(2) by (simp add: spd_ready_def)
  have pol: "max_elts (policies im1) = 0"
    using r(1) by (simp add: spd_ready_def)
  show ?thesis
  proof (cases b)
    case True
    have "spd_ready (set_vector s t v (im2\<lparr>policies := pool_write pl i x\<rparr>))" for s t v x
      using r(2) pl by (simp add: spd_ready_policies)
    then show ?thesis
      using True assms r(2) get unfolding ipsec_add_del_policy_def add_policy_found im1_def [symmetric]
      by (simp add: Let_def im2_def spd_ready_fp split: option.split)
  next
    case False
    have "spd_ready (ipsec_sa_unlock k (set_vector s t v im1)\<lparr>policies := pool_put_index (policies im1) i\<rparr>)" for k s t v i
      using r(1) pol by (simp add: spd_ready_policies)
    then show ?thesis
      using False assms r(1) unfolding ipsec_add_del_policy_def im1_def [symmetric]
      by (simp add: Let_def spd_ready_fp split: option.split)
  qed
qed

lemma spd_op_ready:
  assumes "spd_ready im"
  shows "\<exists>rv im'. ipsec_add_del_spd walk sid b im = Some (rv, im') \<and> spd_ready im'"
proof (cases "spd_index_by_spd_id im sid")
  case None
  obtain s q where get: "pool_get empty_spd (spds im) = Some (s, q)"
    using pool_get_some assms by (meson spd_ready_def)
  have "max_elts q = 0"
    using pool_get_max_elts [OF get] assms by (simp add: spd_ready_def)
  then show ?thesis
    using assms None get by (simp add: ipsec_add_del_spd_def spd_ready_def)
next
  case (Some s)
  show ?thesis
    using assms Some spd_ready_unbind [OF assms, of s sid "walk (spd_index_by_sw_if_index im)"]
    by (simp add: ipsec_add_del_spd_def Let_def) (simp add: spd_ready_def)
qed

lemma spd_step_ready:
  assumes "spd_ready im"
  shows "\<exists>rv im'. spd_step walk r im = Some (rv, im') \<and> spd_ready im'"
proof (cases r)
  case (Spd_op sid b)
  then show ?thesis
    using spd_op_ready [OF assms] by (simp add: spd_step_def)
next
  case (Policy_op p b)
  then show ?thesis
    using policy_ready [OF assms, of p b] by (auto simp: spd_step_def)
next
  case (Interface_op k sid b)
  then show ?thesis
    using assms spd_ready_interface [of k sid b im] by (cases "ipsec_set_interface_spd k sid b im") (simp add: spd_step_def)
qed

lemma spd_run_total:
  assumes "spd_inv im" "spd_ready im" "walks walk"
  shows "\<exists>rvs im'. spd_run walk rs im = Some (rvs, im') \<and> length rvs = length rs \<and> spd_inv im' \<and> spd_ready im'"
  using assms(1,2)
proof (induction rs arbitrary: im)
  case (Cons r rs)
  obtain rv im1 where step: "spd_step walk r im = Some (rv, im1)" "spd_ready im1"
    using spd_step_ready [OF Cons.prems(2)] by blast
  have "spd_inv im1"
    using spd_step_view [OF Cons.prems(1) assms(3) step(1)] by blast
  then obtain rvs im' where "spd_run walk rs im1 = Some (rvs, im')" "length rvs = length rs" "spd_inv im'" "spd_ready im'"
    using Cons.IH step(2) by blast
  then show ?case
    using step(1) by simp
qed simp

subsection \<open>Properties of the control plane\<close>

text \<open>The state when VPP starts, and an order in which the interfaces may be visited.\<close>

definition ipsec_main_zero :: ipsec_main where
  "ipsec_main_zero =
     \<lparr>spds = pool_null, policies = pool_null, ipsec_sa_pool = pool_null, spd_index_by_spd_id = Map.empty,
      spd_index_by_sw_if_index = Map.empty, sa_index_by_sa_id = Map.empty, fp_spd_ipv4_out_is_enabled = False,
      fp_spd_ipv4_in_is_enabled = False, fp_spd_ipv6_out_is_enabled = False, fp_spd_ipv6_in_is_enabled = False,
      ipsec4_out_spd_hash_tbl = [], ipsec4_out_spd_flow_cache_entries = 0, epoch_count = 0, output_flow_cache_flag = False,
      ipsec4_in_spd_hash_tbl = [], ipsec4_in_spd_flow_cache_entries = 0, input_epoch_count = 0, input_flow_cache_flag = False,
      output_feature = (\<lambda>_. False), input_config = Map.empty\<rparr>"

definition ascending :: "(u32 \<rightharpoonup> nat) \<Rightarrow> (u32 \<times> nat) list" where
  "ascending m = map (\<lambda>k. (k, the (m k))) (sorted_list_of_set (dom m))"

lemma ascending_walks: "walks ascending"
  by (force simp: walks_def ascending_def distinct_map inj_on_def)

lemma pool_map_code [code]:
  "pool_map p i = (if i < length (elts p) \<and> i \<notin> set (free_indices p) then Some (pool_elt_at_index p i) else None)"
  by (simp add: pool_map_def pool_active_def)

lemma pool_null_map [simp]: "pool_wf pool_null" "pool_map pool_null i = None"
  by (simp_all add: pool_null_def pool_wf_def pool_map_def pool_active_def clib_bitmap_get_def)

lemma zero_inv: "spd_inv ipsec_main_zero" "spd_ready ipsec_main_zero"
  by (simp_all add: ipsec_main_zero_def spd_inv_def spd_ready_def named_ok_def names_ok_def vectors_ok_def bindings_ok_def)
    (simp add: pool_null_def)

text \<open>A policy for IPv4 packets that leave, from and to any address, for the witnesses.\<close>

definition any_range :: ip46_address_range where
  "any_range = \<lparr>addr_start = \<lparr>as_u64_0 = 0, as_u64_1 = 0\<rparr>, addr_stop = \<lparr>as_u64_0 = 0, as_u64_1 = 0xFFFFFFFF00000000\<rparr>\<rparr>"

definition sample_policy :: "int \<Rightarrow> ipsec_policy_action \<Rightarrow> ipsec_policy" where
  "sample_policy prio act =
     \<lparr>policy_spd_id = 1, priority = prio, policy_type = IPSEC_SPD_POLICY_IP4_OUTBOUND, policy_is_ipv6 = False,
      laddr = any_range, raddr = any_range, policy_protocol = 255, lport = \<lparr>port_start = 0, port_stop = 65535\<rparr>,
      rport = \<lparr>port_start = 0, port_stop = 65535\<rparr>, policy_action = act, policy_sa_id = 0, policy_sa_index = None\<rparr>"




text \<open>C10. Every operation implements its specification on the map from names to lists: the code it returns and the
  new state are those of \<open>spec_step\<close>. In particular a policy goes before the first one of no higher priority in the
  list of its type and nowhere else, deletion takes the first equal policy, and the deletion of an SPD unbinds exactly
  its interfaces.\<close>

theorem spd_step_refines:
  assumes "spd_inv im" "walks walk" "spd_step walk r im = Some (rv, im')"
  shows "spec_step (\<lambda>x. sa_index_by_sa_id im x \<noteq> None) r (view_of im) = (rv, view_of im')"
  using spd_step_view [OF assms] by blast

theorem spd_step_refines_witness:
  "\<exists>im'. spd_step ascending (Spd_op 1 True) ipsec_main_zero = Some (VNET_API_OK, im') \<and>
     lists (view_of im') 1 = Some (\<lambda>_. []) \<and> lists (view_of im') 2 = None"
proof -
  obtain rv im' where s: "spd_step ascending (Spd_op 1 True) ipsec_main_zero = Some (rv, im')"
    using spd_step_ready [OF zero_inv(2)] by blast
  have "view_of ipsec_main_zero = \<lparr>lists = Map.empty, bound = Map.empty\<rparr>"
    by (simp add: view_of_def ipsec_main_zero_def)
  then have "rv = VNET_API_OK" "view_of im' = \<lparr>lists = [1 \<mapsto> \<lambda>_. []], bound = Map.empty\<rparr>"
    using spd_step_refines [OF zero_inv(1) ascending_walks s] by simp_all
  then show ?thesis
    using s by simp
qed

text \<open>C38. A request to delete an IPv6 policy deletes another one: two policies that differ in the low half of the
  address where their remote ranges end are equal to \<open>ipsec_policy_is_equal\<close>.\<close>

theorem ipv6_delete_ignores_range_end:
  assumes "spd_inv im" "policies_of im (policy_spd_id p) (policy_type p) = p # ps" "policy_is_ipv6 p"
    and "ipsec_add_del_policy (p\<lparr>raddr := (raddr p)\<lparr>addr_stop := (addr_stop (raddr p))\<lparr>as_u64_1 := w\<rparr>\<rparr>\<rparr>) False im = Some (rv, st, im')"
  shows "rv = VNET_API_OK \<and> policies_of im' (policy_spd_id p) (policy_type p) = ps"
proof -
  let ?q = "p\<lparr>raddr := (raddr p)\<lparr>addr_stop := (addr_stop (raddr p))\<lparr>as_u64_1 := w\<rparr>\<rparr>\<rparr>"
  have "ipsec_policy_is_equal p ?q"
    using assms(3) by (simp add: ipsec_policy_is_equal_def)
  then have "policies_of im' (policy_spd_id p) (policy_type p) = ps"
    using del_policy_spec(2) [OF assms(1,4), of "policy_spd_id p" "policy_type p"] assms(2) by simp
  moreover have "spd_index_by_spd_id im (policy_spd_id p) \<noteq> None"
    using assms(2) by (auto simp: policies_of_def split: option.splits)
  ultimately show ?thesis
    using del_policy_rv [OF assms(4)] by simp
qed

definition sample_policy6 :: ipsec_policy where
  "sample_policy6 = (sample_policy 5 IPSEC_POLICY_ACTION_DISCARD)\<lparr>policy_type := IPSEC_SPD_POLICY_IP6_OUTBOUND, policy_is_ipv6 := True\<rparr>"

theorem ipv6_delete_ignores_range_end_witness:
  "\<exists>rvs im im' st. spd_run ascending [Spd_op 1 True, Policy_op sample_policy6 True] ipsec_main_zero = Some (rvs, im) \<and>
     policies_of im 1 IPSEC_SPD_POLICY_IP6_OUTBOUND = [sample_policy6] \<and>
     ipsec_add_del_policy (sample_policy6\<lparr>raddr := (raddr sample_policy6)\<lparr>addr_stop := (addr_stop (raddr sample_policy6))\<lparr>as_u64_1 := 0\<rparr>\<rparr>\<rparr>)
       False im = Some (VNET_API_OK, st, im') \<and>
     policies_of im' 1 IPSEC_SPD_POLICY_IP6_OUTBOUND = []"
proof -
  let ?ops = "[Spd_op 1 True, Policy_op sample_policy6 True]"
  let ?q = "sample_policy6\<lparr>raddr := (raddr sample_policy6)\<lparr>addr_stop := (addr_stop (raddr sample_policy6))\<lparr>as_u64_1 := 0\<rparr>\<rparr>\<rparr>"
  obtain rvs im where run: "spd_run ascending ?ops ipsec_main_zero = Some (rvs, im)" and inv: "spd_inv im" "spd_ready im"
    using spd_run_total [OF zero_inv ascending_walks] by blast
  obtain rv st im' where del: "ipsec_add_del_policy ?q False im = Some (rv, st, im')"
    using policy_ready [OF inv(2)] by blast
  have "map_option (\<lambda>(_, im). policies_of im 1 IPSEC_SPD_POLICY_IP6_OUTBOUND) (spd_run ascending ?ops ipsec_main_zero) = Some [sample_policy6]"
    by code_simp
  then have pol: "policies_of im (policy_spd_id sample_policy6) (policy_type sample_policy6) = [sample_policy6]"
    using run by (simp add: sample_policy6_def sample_policy_def)
  have "rv = VNET_API_OK \<and> policies_of im' (policy_spd_id sample_policy6) (policy_type sample_policy6) = []"
    by (rule ipv6_delete_ignores_range_end [OF inv(1) pol _ del]) (simp add: sample_policy6_def)
  moreover have "policy_spd_id sample_policy6 = 1" "policy_type sample_policy6 = IPSEC_SPD_POLICY_IP6_OUTBOUND"
    by (simp_all add: sample_policy6_def sample_policy_def)
  ultimately show ?thesis
    using run del pol by auto
qed

end
