(* ===== verification/Sa_Locks.thy ===== *)
theory Sa_Locks
  imports Spd_Props
begin

text \<open>
  Locks on SAs: the creator of an SA holds one and every policy that protects packets with it holds one. A count is
  right when it is the number of locks that its owners still have to release and of policies that name the SA; then
  the SA of a policy is not freed under it.
\<close>

subsection \<open>Counts\<close>

definition refs :: "(nat \<rightharpoonup> ipsec_policy) \<Rightarrow> nat \<Rightarrow> nat" where
  "refs P i = card {j. \<exists>p. P j = Some p \<and> policy_sa_index p = Some i}"

lemma refs_add:
  assumes "finite (dom P)" "P j = None"
  shows "refs (P(j \<mapsto> p)) i = refs P i + (if policy_sa_index p = Some i then 1 else 0)"
proof -
  let ?R = "{k. \<exists>q. P k = Some q \<and> policy_sa_index q = Some i}"
  have "finite ?R" "j \<notin> ?R"
    using assms by (auto intro: finite_subset [of _ "dom P"])
  moreover have "{k. \<exists>q. (P(j \<mapsto> p)) k = Some q \<and> policy_sa_index q = Some i} = (if policy_sa_index p = Some i then insert j ?R else ?R)"
    using assms(2) by auto
  ultimately show ?thesis
    by (simp add: refs_def)
qed




text \<open>Every SA is known by its name and has as many locks as \<open>cnt\<close> says, at least one.\<close>

definition sas_ok :: "(nat \<Rightarrow> nat) \<Rightarrow> (nat \<rightharpoonup> ipsec_sa) \<Rightarrow> (u32 \<rightharpoonup> nat) \<Rightarrow> bool" where
  "sas_ok cnt S ix \<longleftrightarrow>
     (\<forall>i sa. S i = Some sa \<longrightarrow> unat (sa_locks sa) = cnt i \<and> 0 < cnt i \<and> (\<forall>x. ix x = Some i \<longleftrightarrow> x = sa_name sa)) \<and>
     (\<forall>x i. ix x = Some i \<longrightarrow> S i \<noteq> None)"

lemma sas_okD:
  "sas_ok cnt S ix \<Longrightarrow> S i = Some sa \<Longrightarrow> unat (sa_locks sa) = cnt i \<and> 0 < cnt i \<and> (ix x = Some i \<longleftrightarrow> x = sa_name sa)"
  "sas_ok cnt S ix \<Longrightarrow> ix x = Some i \<Longrightarrow> \<exists>sa. S i = Some sa"
  by (simp_all add: sas_ok_def)

definition sa_drop :: "nat \<Rightarrow> (nat \<rightharpoonup> ipsec_sa) \<Rightarrow> (nat \<rightharpoonup> ipsec_sa)" where
  "sa_drop i S =
     (case S i of None \<Rightarrow> S
      | Some sa \<Rightarrow> S(i := (if sa_locks sa - 1 = 0 then None else Some (sa\<lparr>sa_locks := sa_locks sa - 1\<rparr>))))"



subsection \<open>Policies and their SAs\<close>

text \<open>A policy has the SA it names if it protects packets, and none otherwise.\<close>

definition policy_sa_ok :: "(nat \<rightharpoonup> ipsec_sa) \<Rightarrow> ipsec_policy \<Rightarrow> bool" where
  "policy_sa_ok S p \<longleftrightarrow>
     (if policy_action p = IPSEC_POLICY_ACTION_PROTECT
      then \<exists>i sa. policy_sa_index p = Some i \<and> S i = Some sa \<and> sa_name sa = policy_sa_id p
      else policy_sa_index p = None)"

definition locks_ok :: "(nat \<Rightarrow> nat) \<Rightarrow> (nat \<rightharpoonup> ipsec_policy) \<Rightarrow> (nat \<rightharpoonup> ipsec_sa) \<Rightarrow> (u32 \<rightharpoonup> nat) \<Rightarrow> bool" where
  "locks_ok own P S ix \<longleftrightarrow>
     finite (dom P) \<and> sas_ok (\<lambda>i. own i + refs P i) S ix \<and> (\<forall>j p. P j = Some p \<longrightarrow> policy_sa_ok S p)"







subsection \<open>The operations\<close>

definition locks_inv :: "(nat \<Rightarrow> nat) \<Rightarrow> ipsec_main \<Rightarrow> bool" where
  "locks_inv own im \<longleftrightarrow>
     pool_wf (ipsec_sa_pool im) \<and> locks_ok own (pool_map (policies im)) (pool_map (ipsec_sa_pool im)) (sa_index_by_sa_id im)"

text \<open>What the operations on SPDs and interfaces leave alone.\<close>

definition sa_core :: "ipsec_main \<Rightarrow> ipsec_sa pool \<times> (u32 \<rightharpoonup> nat)" where
  "sa_core im = (ipsec_sa_pool im, sa_index_by_sa_id im)"


lemma sa_core_steps [simp]:
  "sa_core (in_epoch_step p im) = sa_core im" "sa_core (out_epoch_step p im) = sa_core im"
  "sa_core (set_vector k t v im) = sa_core im" "sa_core (im\<lparr>policies := pl\<rparr>) = sa_core im"
  "sa_core (snd (ipsec_set_interface_spd k' sid b im)) = sa_core im"
  by (simp_all add: sa_core_def ipsec_set_interface_spd_def Let_def split: option.split)





lemma unlock_maps:
  assumes "pool_wf (ipsec_sa_pool im)" "pool_map (ipsec_sa_pool im) i = Some sa"
  shows "pool_map (ipsec_sa_pool (ipsec_sa_unlock (Some i) im)) = sa_drop i (pool_map (ipsec_sa_pool im))"
    and "pool_wf (ipsec_sa_pool (ipsec_sa_unlock (Some i) im))"
    and "sa_index_by_sa_id (ipsec_sa_unlock (Some i) im) =
           (if sa_locks sa - 1 = 0 then (sa_index_by_sa_id im)(sa_name sa := None) else sa_index_by_sa_id im)"
proof -
  let ?pl = "pool_write (ipsec_sa_pool im) i (sa\<lparr>sa_locks := sa_locks sa - 1\<rparr>)"
  have act: "i \<in> pool_active (ipsec_sa_pool im)" "i \<in> pool_active ?pl"
    using pool_map_active [OF assms(2)] by (simp_all add: pool_write_wf)
  have wf: "pool_wf ?pl"
    using assms(1) by (simp add: pool_write_wf)
  have elt: "pool_elt_at_index ?pl i = sa\<lparr>sa_locks := sa_locks sa - 1\<rparr>"
    using act(1) by (simp add: pool_write_wf)
  note maps = pool_map_write [OF assms(1) act(1)] pool_map_put [OF wf act(2)] pool_put_wf(1) [OF wf act(2)]
  show "pool_map (ipsec_sa_pool (ipsec_sa_unlock (Some i) im)) = sa_drop i (pool_map (ipsec_sa_pool im))"
    "pool_wf (ipsec_sa_pool (ipsec_sa_unlock (Some i) im))"
    "sa_index_by_sa_id (ipsec_sa_unlock (Some i) im) =
       (if sa_locks sa - 1 = 0 then (sa_index_by_sa_id im)(sa_name sa := None) else sa_index_by_sa_id im)"
    using maps wf elt assms(2) pool_map_elt [OF assms(2)]
    by (cases "sa_locks sa = 1"; simp add: ipsec_sa_unlock_def ipsec_sa_del_def Let_def sa_drop_def)+
qed








subsection \<open>Properties of the locks\<close>






text \<open>States for the witnesses: one SA, called 10, and one with a policy that protects packets with it.\<close>

definition one_pool :: "'a \<Rightarrow> 'a pool" where
  "one_pool x = \<lparr>elts = [x], free_bitmap = [], free_indices = [], max_elts = 0\<rparr>"

definition sample_sa :: ipsec_sa where
  "sample_sa = \<lparr>replay_window = NOT 0, replay_window_huge = [], seq = 0, seq_hi = 0, flags = 0, sa_name = 10, sa_spi = 1000,
     sa_locks = 1, sa_is_ah = False, t_src = \<lparr>as_u64_0 = 0, as_u64_1 = 0\<rparr>, t_dst = \<lparr>as_u64_0 = 0, as_u64_1 = 0\<rparr>\<rparr>"

definition protect_policy :: ipsec_policy where
  "protect_policy = (sample_policy 5 IPSEC_POLICY_ACTION_PROTECT)\<lparr>policy_sa_id := 10\<rparr>"

definition one_sa_main :: ipsec_main where
  "one_sa_main = ipsec_main_zero\<lparr>ipsec_sa_pool := one_pool sample_sa, sa_index_by_sa_id := [10 \<mapsto> 0]\<rparr>"

definition one_user_main :: ipsec_main where
  "one_user_main = one_sa_main\<lparr>policies := one_pool (protect_policy\<lparr>policy_sa_index := Some 0\<rparr>)\<rparr>"

lemma one_pool_map [simp]: "pool_wf (one_pool x)" "pool_map (one_pool x) = [0 \<mapsto> x]"
  by (auto simp: one_pool_def pool_wf_def pool_map_def pool_active_def pool_elt_at_index_def clib_bitmap_get_def fun_eq_iff)


lemma one_user_locks: "locks_inv (\<lambda>i. 0) one_user_main"
proof -
  have "refs [0 \<mapsto> protect_policy\<lparr>policy_sa_index := Some 0\<rparr>] i = (if i = 0 then 1 else 0)" for i
    using refs_add [of Map.empty 0 "protect_policy\<lparr>policy_sa_index := Some 0\<rparr>" i] by (auto simp: refs_def)
  then show ?thesis
    by (simp add: locks_inv_def locks_ok_def one_user_main_def one_sa_main_def sas_ok_def policy_sa_ok_def
        sample_sa_def protect_policy_def sample_policy_def)
qed



text \<open>C37. A lock that is released once too often frees the SA under the policy that still names it: when the owners
  have none left and one policy names the SA, another \<open>ipsec_sa_unlock_id\<close>, which is what a second deletion of the
  SA calls, takes the lock of the policy.\<close>

theorem extra_release_frees:
  assumes "locks_inv own im" "sa_index_by_sa_id im x = Some i" "own i = 0" "refs (pool_map (policies im)) i = 1"
  defines "im' \<equiv> snd (ipsec_sa_unlock_id x im)"
  shows "fst (ipsec_sa_unlock_id x im) \<and> pool_map (ipsec_sa_pool im') i = None \<and>
    (\<exists>j p. pool_map (policies im') j = Some p \<and> policy_action p = IPSEC_POLICY_ACTION_PROTECT \<and> policy_sa_index p = Some i)"
proof -
  let ?P = "pool_map (policies im)" and ?S = "pool_map (ipsec_sa_pool im)"
  have l: "pool_wf (ipsec_sa_pool im)" "sas_ok (\<lambda>i. own i + refs ?P i) ?S (sa_index_by_sa_id im)"
      "\<And>j p. ?P j = Some p \<Longrightarrow> policy_sa_ok ?S p"
    using assms(1) by (simp_all add: locks_inv_def locks_ok_def)
  obtain sa where sa: "?S i = Some sa"
    using sas_okD(2) [OF l(2) assms(2)] by blast
  have "unat (sa_locks sa) = unat (1 :: u32)"
    using sas_okD(1) [OF l(2) sa] assms(3,4) by simp
  then have one: "sa_locks sa - 1 = 0"
    by (simp only: word_unat_eq_iff [symmetric] cancel_comm_monoid_add_class.diff_cancel)
  have im': "im' = ipsec_sa_unlock (Some i) im" "fst (ipsec_sa_unlock_id x im)"
    using assms(2) by (simp_all add: im'_def ipsec_sa_unlock_id_def)
  have "?S i \<noteq> None \<longrightarrow> pool_map (ipsec_sa_pool im') i = None"
    using unlock_maps(1) [OF l(1) sa] one sa by (simp add: im'(1) sa_drop_def)
  moreover have "{j. \<exists>p. ?P j = Some p \<and> policy_sa_index p = Some i} \<noteq> {}"
    using assms(4) by (force simp: refs_def)
  then obtain j p where "?P j = Some p" "policy_sa_index p = Some i"
    by blast
  moreover from this have "policy_action p = IPSEC_POLICY_ACTION_PROTECT"
    using l(3) [of j p] by (auto simp: policy_sa_ok_def split: if_splits)
  moreover have "policies im' = policies im"
    by (simp add: im'(1))
  ultimately show ?thesis
    using sa im'(2) by auto
qed

theorem extra_release_frees_witness:
  "pool_map (ipsec_sa_pool (snd (ipsec_sa_unlock_id 10 one_user_main))) 0 = None \<and>
   (\<exists>p. pool_map (policies (snd (ipsec_sa_unlock_id 10 one_user_main))) 0 = Some p \<and> policy_sa_index p = Some 0)"
proof -
  have "refs [0 \<mapsto> protect_policy\<lparr>policy_sa_index := Some 0\<rparr>] 0 = 1"
    using refs_add [of Map.empty 0 "protect_policy\<lparr>policy_sa_index := Some 0\<rparr>" 0] by (simp add: refs_def)
  then have "pool_map (ipsec_sa_pool (snd (ipsec_sa_unlock_id 10 one_user_main))) 0 = None"
    using extra_release_frees [OF one_user_locks, of 10 0] by (simp add: one_user_main_def one_sa_main_def)
  moreover have "policies (snd (ipsec_sa_unlock_id 10 one_user_main)) = policies one_user_main"
    by (simp add: ipsec_sa_unlock_id_def split: option.split)
  ultimately show ?thesis
    by (simp add: one_user_main_def)
qed

end
