(* ===== verification/Ip_Csum.thy ===== *)
theory Ip_Csum
  imports Ip4_Address
begin

unbundle bit_operations_syntax

text \<open>
  The internet checksum of \<^verbatim>\<open>vnet/ip/ip_packet.h\<close> and the IPv4 header checksum of
  \<^verbatim>\<open>vnet/ip/ip4_packet.h\<close>, on a little-endian 64-bit machine. Sums are 64-bit words and their
  arithmetic is that of the one's complement, so that every operation is described by the residue of its
  result modulo 65535. The two ways to fold a sum to 16 bits, in C and in x86 assembly, compute the same
  function. An IPv4 header is a record in network byte order with its option words.
\<close>

subsection \<open>Sums\<close>

definition ip_csum_with_carry :: "u64 \<Rightarrow> u64 \<Rightarrow> u64" where
  "ip_csum_with_carry csum x = (let t = csum + x in t + (if t < x then 1 else 0))"

definition ip_csum_add_even :: "u64 \<Rightarrow> u64 \<Rightarrow> u64" where
  "ip_csum_add_even c x = (let d = c - x in d - (if d > c then 1 else 0))"

definition ip_csum_sub_even :: "u64 \<Rightarrow> u64 \<Rightarrow> u64" where
  "ip_csum_sub_even c x = ip_csum_with_carry c x"

definition ip_csum_update_inline :: "u64 \<Rightarrow> u64 \<Rightarrow> u64 \<Rightarrow> nat \<Rightarrow> nat \<Rightarrow> u64" where
  "ip_csum_update_inline csum old new field_byte_offset field_n_bytes =
     (let odd_byte = field_n_bytes mod 2 \<noteq> 0 \<and> field_byte_offset mod 2 = 1;
          old = (if odd_byte then push_bit 8 old else old);
          new = (if odd_byte then push_bit 8 new else new)
      in ip_csum_add_even (ip_csum_sub_even csum old) new)"

text \<open>The portable code to fold a sum.\<close>

definition ip_csum_fold :: "u64 \<Rightarrow> u16" where
  "ip_csum_fold c =
     (let c = (c AND 0xffffffff) + drop_bit 32 c;
          c = (c AND 0xffff) + drop_bit 16 c;
          c = (c AND 0xffff) + drop_bit 16 c;
          c = (c AND 0xffff) + drop_bit 16 c
      in ucast c)"

text \<open>The code for x86 with BMI2. Each addition is one of 32 or 16 bits that leaves its carry for the next.\<close>

definition ip_csum_fold_bmi2 :: "u64 \<Rightarrow> u16" where
  "ip_csum_fold_bmi2 c =
     (let tmp = (ucast c :: u32);
          csum = (ucast (drop_bit 32 c) :: u32);
          carry = (if unat csum + unat tmp \<ge> 2 ^ 32 then 1 else 0 :: nat);
          csum = csum + tmp;
          tmp16 = (ucast (drop_bit 16 csum) :: u16);
          sum16 = (ucast csum :: u16);
          carry2 = (if unat sum16 + unat tmp16 + carry \<ge> 2 ^ 16 then 1 else 0);
          sum16 = sum16 + tmp16 + of_nat carry
      in sum16 + carry2)"

subsection \<open>The IPv4 header\<close>

record ip4_header =
  ip4_version_and_header_length :: u8
  ip4_tos :: u8
  ip4_len :: u16
  ip4_fragment_id :: u16
  ip4_flags_and_fragment_offset :: u16
  ip4_ttl :: u8
  ip4_protocol :: u8
  ip4_checksum :: u16
  ip4_src_address :: ip4_address
  ip4_dst_address :: ip4_address

text \<open>The header as five 32-bit words, as \<open>iphdr\<close> of the code reads them from memory.\<close>

definition iphdr :: "ip4_header \<Rightarrow> u32 list" where
  "iphdr i =
     [ucast (ip4_version_and_header_length i) + push_bit 8 (ucast (ip4_tos i)) + push_bit 16 (ucast (ip4_len i)),
      ucast (ip4_fragment_id i) + push_bit 16 (ucast (ip4_flags_and_fragment_offset i)),
      ucast (ip4_ttl i) + push_bit 8 (ucast (ip4_protocol i)) + push_bit 16 (ucast (ip4_checksum i)),
      ip4_src_address i,
      ip4_dst_address i]"

text \<open>The checksum of a header with option words \<open>opts\<close>, of which the code reads as many as the header length
  says.\<close>

definition ip4_header_checksum_inline :: "ip4_header \<Rightarrow> u32 list \<Rightarrow> bool \<Rightarrow> u16" where
  "ip4_header_checksum_inline i opts with_checksum =
     (let option_len = unat (ip4_version_and_header_length i AND 0xf) - 5;
          third = (if with_checksum then ucast (iphdr i ! 2)
                   else ucast (ucast (iphdr i ! 2) :: u16)) :: u64;
          csum = ucast (iphdr i ! 0) + ucast (iphdr i ! 1) + third + ucast (iphdr i ! 3) + ucast (iphdr i ! 4) +
                sum_list (map ucast (take option_len opts));
          csum = (csum AND 0xffffffff) + drop_bit 32 csum;
          csum = (csum AND 0xffff) + drop_bit 16 csum;
          csum = (csum AND 0xffff) + drop_bit 16 csum
      in NOT (ucast csum))"

definition ip4_header_checksum :: "ip4_header \<Rightarrow> u32 list \<Rightarrow> u16" where
  "ip4_header_checksum i opts = ip4_header_checksum_inline i opts False"

definition ip4_header_checksum_is_valid :: "ip4_header \<Rightarrow> u32 list \<Rightarrow> bool" where
  "ip4_header_checksum_is_valid i opts \<longleftrightarrow> ip4_header_checksum_inline i opts True = 0"

definition ip4_header_set_ecn_w_chksum :: "ip4_header \<Rightarrow> u8 \<Rightarrow> ip4_header" where
  "ip4_header_set_ecn_w_chksum ip4 ecn =
     (let old = ip4_tos ip4;
          new = (old AND NOT 3) OR ecn;
          csum = ip_csum_update_inline (ucast (ip4_checksum ip4)) (ucast old) (ucast new) 1 1
      in ip4\<lparr>ip4_checksum := ip_csum_fold csum, ip4_tos := new\<rparr>)"

text \<open>Forwarding decrements the time to live, \<^verbatim>\<open>vnet/ip/ip4_forward.c\<close>; the result says whether the packet expired
  and goes to the ICMP error node. Packets the router itself sends are left alone. The time to live is a signed
  number, the checksum one of 32 bits.\<close>

definition ip4_ttl_and_checksum_check :: "bool \<Rightarrow> ip4_header \<Rightarrow> bool \<times> ip4_header" where
  "ip4_ttl_and_checksum_check locally_originated ip =
     (if locally_originated then (False, ip)
      else let ttl = uint (ip4_ttl ip);
               checksum = (ucast (ip4_checksum ip) + ucast (clib_host_to_net_u16 0x0100) :: u32);
               checksum = checksum + (if checksum \<ge> 0xffff then 1 else 0);
               ttl = ttl - 1
           in (ttl \<le> 0, ip\<lparr>ip4_checksum := ucast checksum, ip4_ttl := word_of_int ttl\<rparr>))"

text \<open>The increment undoes the decrement for packets that go back.\<close>

definition ip4_ttl_inc :: "bool \<Rightarrow> ip4_header \<Rightarrow> ip4_header" where
  "ip4_ttl_inc locally_originated ip =
     (if locally_originated then ip
      else let ttl = uint (ip4_ttl ip);
               checksum = (ucast (ip4_checksum ip) - ucast (clib_host_to_net_u16 0x0100) :: u32);
               checksum = checksum + (if checksum \<ge> 0xffff then 1 else 0);
               ttl = ttl + 1
           in ip\<lparr>ip4_checksum := ucast checksum, ip4_ttl := word_of_int ttl\<rparr>)"

subsection \<open>Residues\<close>

lemma residue_64: "(n + 18446744073709551615) mod 65535 = n mod (65535 :: nat)"
proof -
  have "(18446744073709551615 :: nat) = 65535 * 281479271743489"
    by simp
  then show ?thesis
    by (metis mod_mult_self2)
qed

lemma with_carry_residue:
  "unat (ip_csum_with_carry csum x) mod 65535 = (unat csum + unat x) mod 65535"
proof (cases "unat csum + unat x < 2 ^ 64")
  case True
  then have "unat (csum + x) = unat csum + unat x"
    by (simp add: unat_plus_if')
  then show ?thesis
    by (simp add: ip_csum_with_carry_def Let_def word_less_nat_alt)
next
  case False
  have b: "unat csum < 2 ^ 64" "unat x < 2 ^ 64"
    using unsigned_less [of csum, where 'a = nat] unsigned_less [of x, where 'a = nat] by simp_all
  have t: "unat (csum + x) = unat csum + unat x - 2 ^ 64"
    using False by (simp add: unat_plus_if')
  then have less: "csum + x < x"
    using False b by (simp add: word_less_nat_alt)
  have "unat (csum + x + 1) = unat (csum + x) + 1"
    using t b by (subst unat_plus_if') simp
  then have "unat csum + unat x = unat (ip_csum_with_carry csum x) + 18446744073709551615"
    using t False less by (simp add: ip_csum_with_carry_def Let_def)
  then show ?thesis
    by (simp only: residue_64)
qed

lemma add_even_residue:
  "(unat (ip_csum_add_even c x) + unat x) mod 65535 = unat c mod 65535"
proof (cases "unat x \<le> unat c")
  case True
  then show ?thesis
    by (simp add: ip_csum_add_even_def Let_def word_less_nat_alt unat_sub_if')
next
  case False
  have b: "unat x < 2 ^ 64"
    using unsigned_less [of x, where 'a = nat] by simp
  have d: "unat (c - x) = unat c + 2 ^ 64 - unat x"
    using False by (simp add: unat_sub_if')
  then have "c < c - x"
    using False b by (simp add: word_less_nat_alt)
  moreover have "unat (c - x - 1) = unat (c - x) - 1"
    using d b by (subst unat_sub_if') simp
  ultimately have "unat (ip_csum_add_even c x) + unat x = unat c + 18446744073709551615"
    using d b by (simp add: ip_csum_add_even_def Let_def)
  then show ?thesis
    by (simp only: residue_64)
qed

lemma sub_even_residue: "unat (ip_csum_sub_even c x) mod 65535 = (unat c + unat x) mod 65535"
  by (simp add: ip_csum_sub_even_def with_carry_residue)

text \<open>What the assertion of \<open>ip_csum_add_even\<close> checks.\<close>

lemma add_even_assert:
  "ip_csum_with_carry (ip_csum_add_even c x) x - c = 0 \<or> ip_csum_with_carry (ip_csum_add_even c x) x - c = - 1"
proof (cases "unat x \<le> unat c")
  case True
  then show ?thesis
    by (simp add: ip_csum_add_even_def ip_csum_with_carry_def Let_def word_less_nat_alt unat_sub_if')
next
  case False
  have b: "unat x < 2 ^ 64"
    using unsigned_less [of x, where 'a = nat] by simp
  have "unat (c - x) = unat c + 2 ^ 64 - unat x"
    using False by (simp add: unat_sub_if')
  then have "c < c - x"
    using False b by (simp add: word_less_nat_alt)
  then show ?thesis
    by (simp add: ip_csum_add_even_def ip_csum_with_carry_def Let_def)
qed

lemma update_residue:
  assumes "field_n_bytes mod 2 = 0 \<or> field_byte_offset mod 2 = 0"
  shows "(unat (ip_csum_update_inline csum old new field_byte_offset field_n_bytes) + unat new) mod 65535 =
         (unat csum + unat old) mod 65535"
  using assms by (auto simp: ip_csum_update_inline_def Let_def add_even_residue sub_even_residue)

lemma update_residue_odd:
  assumes "field_n_bytes mod 2 = 1" "field_byte_offset mod 2 = 1"
  shows "(unat (ip_csum_update_inline csum old new field_byte_offset field_n_bytes) + unat (push_bit 8 new)) mod 65535 =
         (unat csum + unat (push_bit 8 old)) mod 65535"
  using assms by (simp add: ip_csum_update_inline_def Let_def add_even_residue sub_even_residue)

subsection \<open>Folding\<close>

text \<open>A 16-bit number with the residue of the sum, and zero only for zero.\<close>

definition fold16 :: "nat \<Rightarrow> nat" where
  "fold16 n = (if n = 0 then 0 else (n - 1) mod 65535 + 1)"

lemma fold16_unique:
  assumes "r mod 65535 = n mod 65535" "r = 0 \<longleftrightarrow> n = 0" "r \<le> 65535"
  shows "r = fold16 n"
proof (cases "n = 0")
  case False
  then obtain m where m: "n = Suc m"
    by (cases n) auto
  from False assms(2) obtain q where q: "r = Suc q"
    by (cases r) auto
  have "q mod 65535 = m mod 65535"
    using assms(1) unfolding m q nat_mod_eq_iff by simp
  then show ?thesis
    using assms(3) by (simp add: fold16_def m q)
qed (use assms in \<open>simp add: fold16_def\<close>)

lemma unat_take_bit: "unat (take_bit k (c :: 'a :: len word)) = unat c mod 2 ^ k"
  by (simp only: unsigned_take_bit_eq take_bit_eq_mod [of _ "unat c"])

lemma unat_drop_bit: "unat (drop_bit k (c :: 'a :: len word)) = unat c div 2 ^ k"
  by (simp only: unat_drop_bit_eq drop_bit_eq_div [of _ "unat c"])

lemma unat_ucast_mod: "unat (ucast (c :: 'a :: len word) :: 'b :: len word) = unat c mod 2 ^ LENGTH('b)"
  by (simp only: unsigned_ucast_eq take_bit_eq_mod)

text \<open>One step of a fold adds the low part and the rest.\<close>

lemma fold_step:
  assumes "k < 64" "0 < k"
  shows "unat (take_bit k c + drop_bit k (c :: u64)) = unat c mod 2 ^ k + unat c div 2 ^ k"
proof -
  have "unat c div 2 ^ k < 2 ^ (64 - k)"
    using unsigned_less [of c, where 'a = nat] assms(1)
    by (simp add: less_mult_imp_div_less power_add [symmetric])
  moreover have "(2 :: nat) ^ k \<le> 2 ^ 63" "(2 :: nat) ^ (64 - k) \<le> 2 ^ 63"
    using assms by (intro power_increasing; simp)+
  moreover have "unat c mod 2 ^ k < 2 ^ k"
    by simp
  ultimately have "unat c mod 2 ^ k + unat c div 2 ^ k < 2 ^ 63 + 2 ^ 63"
    by linarith
  then show ?thesis
    by (simp add: unat_plus_if' unat_take_bit unat_drop_bit)
qed

lemma and_low_u64: "c AND 0xffff = take_bit 16 (c :: u64)" "c AND 0xffffffff = take_bit 32 (c :: u64)"
  by (simp_all add: take_bit_eq_mask mask_eq_exp_minus_1)

lemma fold_step_residue:
  "(n mod 2 ^ 16 + n div 2 ^ 16) mod 65535 = n mod (65535 :: nat)"
  "(n mod 2 ^ 32 + n div 2 ^ 32) mod 65535 = n mod (65535 :: nat)"
proof -
  have "n = n mod 2 ^ 16 + n div 2 ^ 16 + 65535 * (n div 2 ^ 16)"
    using mod_mult_div_eq [of n "2 ^ 16"] by simp
  then show "(n mod 2 ^ 16 + n div 2 ^ 16) mod 65535 = n mod (65535 :: nat)"
    by (metis mod_mult_self2)
  have "n = n mod 2 ^ 32 + n div 2 ^ 32 + 65535 * (65537 * (n div 2 ^ 32))"
    using mod_mult_div_eq [of n "2 ^ 32"] by simp
  then show "(n mod 2 ^ 32 + n div 2 ^ 32) mod 65535 = n mod (65535 :: nat)"
    by (metis mod_mult_self2)
qed

lemma fold_step_zero: "n mod 2 ^ k + n div 2 ^ k = 0 \<longleftrightarrow> n = (0 :: nat)"
  using mod_mult_div_eq [of n "2 ^ k"] by auto

lemma ucast_u16_small: "unat (c :: u64) \<le> 65535 \<Longrightarrow> unat (ucast c :: u16) = unat c"
  by (simp add: unsigned_ucast_eq take_bit_nat_eq_self)

lemma ip_csum_fold_val: "unat (ip_csum_fold c) = fold16 (unat c)"
proof -
  define a where "a = take_bit 32 c + drop_bit 32 c"
  define b where "b = take_bit 16 a + drop_bit 16 a"
  define d where "d = take_bit 16 b + drop_bit 16 b"
  define e where "e = take_bit 16 d + drop_bit 16 d"
  have vals: "unat a = unat c mod 2 ^ 32 + unat c div 2 ^ 32" "unat b = unat a mod 2 ^ 16 + unat a div 2 ^ 16"
    "unat d = unat b mod 2 ^ 16 + unat b div 2 ^ 16" "unat e = unat d mod 2 ^ 16 + unat d div 2 ^ 16"
    unfolding a_def b_def d_def e_def by (rule fold_step; simp)+
  have "unat a < 2 ^ 33"
    using unsigned_less [of c, where 'a = nat] vals(1) mod_less_divisor [of "2 ^ 32" "unat c"]
      less_mult_imp_div_less [of "unat c" "2 ^ 32" "2 ^ 32"] by simp
  then have "unat b < 3 * 2 ^ 16"
    using vals(2) mod_less_divisor [of "2 ^ 16" "unat a"] less_mult_imp_div_less [of "unat a" "2 ^ 17" "2 ^ 16"]
    by simp
  then have "unat d \<le> 65535 + 2"
    using vals(3) mod_less_divisor [of "2 ^ 16" "unat b"] less_mult_imp_div_less [of "unat b" 3 "2 ^ 16"] by simp
  then have "unat e \<le> 65535"
    using vals(4) le_Suc_eq [of "unat d" 65536] le_Suc_eq [of "unat d" 65535] by auto
  moreover have "unat e mod 65535 = unat c mod 65535"
    using vals by (simp only: fold_step_residue)
  moreover have "unat e = 0 \<longleftrightarrow> unat c = 0"
    using vals by (simp only: fold_step_zero)
  ultimately have "unat e = fold16 (unat c)" "unat (ucast e :: u16) = unat e"
    by (auto intro: fold16_unique ucast_u16_small)
  moreover have "ip_csum_fold c = ucast e"
    by (simp only: ip_csum_fold_def Let_def and_low_u64 a_def b_def d_def e_def)
  ultimately show ?thesis
    by simp
qed

lemma half_sum: "x < 2 ^ k \<Longrightarrow> y \<le> 2 ^ k \<Longrightarrow> (if x + y \<ge> 2 ^ k then 1 else 0) = (x + y) div (2 ^ k :: nat)"
  by (simp add: div_if) linarith

lemma div_mod_one: "m \<le> t \<Longrightarrow> t < 2 * m \<Longrightarrow> t div m = 1 \<and> t mod m = t - (m :: nat)"
  by (simp add: le_div_geq le_mod_geq)

lemma carry_32: "S \<le> 2 * (2 ^ 32 - 1) \<Longrightarrow> S div 2 ^ 32 \<le> 1 \<and> S mod 2 ^ 32 + S div 2 ^ 32 < (2 ^ 32 :: nat)"
  using div_mod_one [of "2 ^ 32" S] by (cases "S < 2 ^ 32") simp_all

lemma carry_16: "u + c < 2 ^ 32 \<Longrightarrow> c \<le> 1 \<Longrightarrow> u mod 2 ^ 16 + u div 2 ^ 16 + c < (2 ^ 17 - 1 :: nat)"
proof -
  assume a: "u + c < 2 ^ 32" "c \<le> 1"
  obtain q r where "u = 65536 * q + r" "r < 65536" "u div 2 ^ 16 = q" "u mod 2 ^ 16 = r"
    using that [of "u div 65536" "u mod 65536"] by simp
  then show ?thesis
    using a by simp
qed

lemma fold_bmi2_end:
  fixes a b :: u16
  assumes "c \<le> 1" "unat a + unat b + c = t" "t < 2 ^ 17 - 1"
  shows "unat (a + b + of_nat c + (if t \<ge> 2 ^ 16 then 1 else 0)) = t mod 2 ^ 16 + t div 2 ^ 16"
proof -
  have sum: "unat (a + b + of_nat c) = t mod 2 ^ 16"
    using assms(1,2) by (simp add: unat_word_ariths unat_of_nat mod_add_left_eq)
  show ?thesis
  proof (cases "t \<ge> 2 ^ 16")
    case True
    then have "t mod 2 ^ 16 < 2 ^ 16 - 1" "t div 2 ^ 16 = 1"
      using assms(3) div_mod_one [of "2 ^ 16" t] by simp_all
    then show ?thesis
      using True sum by (subst unat_plus_if') simp
  qed (use sum in simp)
qed

lemma ip_csum_fold_bmi2_val: "unat (ip_csum_fold_bmi2 c) = fold16 (unat c)"
proof -
  define s where "s = (ucast (drop_bit 32 c) :: u32) + ucast c"
  define S where "S = unat c mod 2 ^ 32 + unat c div 2 ^ 32"
  define t where "t = unat s mod 2 ^ 16 + unat s div 2 ^ 16 + S div 2 ^ 32"
  have hi: "unat c div 2 ^ 32 < 2 ^ 32"
    using unsigned_less [of c, where 'a = nat] by (intro less_mult_imp_div_less) simp
  have parts: "unat (ucast c :: u32) = unat c mod 2 ^ 32" "unat (ucast (drop_bit 32 c) :: u32) = unat c div 2 ^ 32"
    using hi by (simp_all add: unat_ucast_mod unat_drop_bit)
  have S: "S \<le> 2 * (2 ^ 32 - 1)"
    using hi mod_less_divisor [of "2 ^ 32" "unat c"] unfolding S_def by simp
  have s: "unat s = S mod 2 ^ 32"
    unfolding s_def unat_word_ariths(1) parts S_def by (simp add: add.commute [of "_ div _"])
  have s16: "unat (ucast s :: u16) = unat s mod 2 ^ 16" "unat (ucast (drop_bit 16 s) :: u16) = unat s div 2 ^ 16"
    using unsigned_less [of s, where 'a = nat] by (simp_all add: unat_ucast_mod unat_drop_bit less_mult_imp_div_less)
  have t: "t < 2 ^ 17 - 1"
    using carry_16 carry_32 [OF S] unfolding t_def s by blast
  have c1: "(if unat (ucast (drop_bit 32 c) :: u32) + unat (ucast c :: u32) \<ge> 2 ^ 32 then 1 else 0) = S div 2 ^ 32"
    unfolding parts S_def using hi by (subst half_sum) (simp_all add: add.commute)
  have "unat (ip_csum_fold_bmi2 c) = t mod 2 ^ 16 + t div 2 ^ 16"
    unfolding ip_csum_fold_bmi2_def Let_def c1 s_def [symmetric]
    using fold_bmi2_end [of "S div 2 ^ 32" "ucast s" "ucast (drop_bit 16 s)" t] carry_32 [OF S] s16 t
    by (simp add: t_def)
  moreover have "t mod 2 ^ 16 + t div 2 ^ 16 \<le> 65535"
    using t div_mod_one [of "2 ^ 16" t] by (cases "t < 2 ^ 16") simp_all
  moreover have "(t mod 2 ^ 16 + t div 2 ^ 16) mod 65535 = unat c mod 65535"
    unfolding fold_step_residue t_def
    using fold_step_residue S_def s by (metis mod_add_left_eq)
  moreover have "t = 0 \<longleftrightarrow> unat s = 0 \<and> S div 2 ^ 32 = 0"
    unfolding t_def by (metis add_is_0 fold_step_zero)
  then have "t mod 2 ^ 16 + t div 2 ^ 16 = 0 \<longleftrightarrow> unat c = 0"
    unfolding fold_step_zero s using fold_step_zero [of S 32] fold_step_zero [of "unat c" 32] S_def
    by (metis add_is_0)
  ultimately show ?thesis
    by (simp add: fold16_unique)
qed

subsection \<open>The header checksum\<close>

text \<open>The sum of a header: the fields weighted as they lie in the 32-bit words.\<close>

definition fields_sum :: "ip4_header \<Rightarrow> nat" where
  "fields_sum i =
     unat (ip4_version_and_header_length i) + 256 * unat (ip4_tos i) + 65536 * unat (ip4_len i) +
     unat (ip4_fragment_id i) + 65536 * unat (ip4_flags_and_fragment_offset i) +
     unat (ip4_ttl i) + 256 * unat (ip4_protocol i) + unat (ip4_src_address i) + unat (ip4_dst_address i)"

definition options_sum :: "ip4_header \<Rightarrow> u32 list \<Rightarrow> nat" where
  "options_sum i opts = sum_list (map unat (take (unat (ip4_version_and_header_length i AND 0xf) - 5) opts))"

lemma unat_ucast_up:
  assumes "LENGTH('a :: len) \<le> LENGTH('b :: len)"
  shows "unat (ucast (x :: 'a word) :: 'b word) = unat x"
proof -
  have "unat x < 2 ^ LENGTH('a)"
    by (rule unsigned_less)
  also have "\<dots> \<le> 2 ^ LENGTH('b)"
    using assms by (intro power_increasing) simp_all
  finally show ?thesis
    by (simp add: unat_ucast_mod)
qed

lemma unat_push_ucast:
  assumes "LENGTH('a :: len) + k \<le> LENGTH('b :: len)"
  shows "unat (push_bit k (ucast (x :: 'a word) :: 'b word)) = 2 ^ k * unat x"
proof -
  have "unat x < 2 ^ LENGTH('a)"
    by (rule unsigned_less)
  then have "2 ^ k * unat x < 2 ^ (LENGTH('a) + k)"
    by (simp add: power_add)
  also have "\<dots> \<le> 2 ^ LENGTH('b)"
    using assms by (intro power_increasing) simp_all
  finally have "2 ^ k * unat x < 2 ^ LENGTH('b)" .
  moreover have "unat (ucast x :: 'b word) = unat x"
    using assms by (intro unat_ucast_up) simp
  moreover have "unat (push_bit k (y :: 'b word)) = (2 ^ k * unat y) mod 2 ^ LENGTH('b)" for y
    by (simp only: unsigned_push_bit_eq take_bit_eq_mod push_bit_eq_mult [of _ "unat y"] mult.commute)
  ultimately show ?thesis
    by simp
qed

lemma field_bounds:
  "unat (x :: u8) < 256" "unat (y :: u16) < 65536" "unat (z :: u32) < 4294967296"
  using unsigned_less [of x, where 'a = nat] unsigned_less [of y, where 'a = nat]
    unsigned_less [of z, where 'a = nat] by simp_all

lemma iphdr_vals:
  "unat (iphdr i ! 0) = unat (ip4_version_and_header_length i) + 256 * unat (ip4_tos i) + 65536 * unat (ip4_len i)"
  "unat (iphdr i ! 1) = unat (ip4_fragment_id i) + 65536 * unat (ip4_flags_and_fragment_offset i)"
  "unat (iphdr i ! 2) = unat (ip4_ttl i) + 256 * unat (ip4_protocol i) + 65536 * unat (ip4_checksum i)"
  "iphdr i ! 3 = ip4_src_address i" "iphdr i ! 4 = ip4_dst_address i"
  using field_bounds(1) [of "ip4_version_and_header_length i"] field_bounds(1) [of "ip4_tos i"]
    field_bounds(2) [of "ip4_len i"] field_bounds(2) [of "ip4_fragment_id i"]
    field_bounds(2) [of "ip4_flags_and_fragment_offset i"] field_bounds(1) [of "ip4_ttl i"]
    field_bounds(1) [of "ip4_protocol i"] field_bounds(2) [of "ip4_checksum i"]
  by (simp_all add: iphdr_def nth_Cons' unat_plus_if' unat_push_ucast unat_ucast_up)

lemma take_len_bound: "unat (v AND 0xf :: u8) - 5 \<le> 10"
proof -
  have "v AND 0xf \<le> (0xf :: u8)"
    by (rule word_and_le1)
  then show ?thesis
    by (simp add: word_le_nat_alt)
qed

lemma sum_list_u32: "sum_list (map unat (ws :: u32 list)) \<le> length ws * 4294967295"
proof (induction ws)
  case (Cons w ws)
  then show ?case
    using field_bounds(3) [of w] by simp
qed simp

lemma unat_sum_list_ucast:
  "length ws \<le> 10 \<Longrightarrow> unat (sum_list (map ucast (ws :: u32 list)) :: u64) = sum_list (map unat ws)"
proof (induction ws)
  case (Cons w ws)
  then have "unat (sum_list (map ucast ws) :: u64) = sum_list (map unat ws)"
    by simp
  moreover have "unat (ucast w :: u64) = unat w"
    by (rule unat_ucast_up) simp
  moreover have "sum_list (map unat ws) \<le> 10 * 4294967295"
    using sum_list_u32 [of ws] Cons.prems by simp
  ultimately show ?case
    using field_bounds(3) [of w] by (simp add: unat_plus_if')
qed simp

lemma options_sum_bound: "options_sum i opts \<le> 10 * 4294967295"
proof -
  define n where "n = unat (ip4_version_and_header_length i AND 0xf) - 5"
  have "length (take n opts) \<le> 10"
    using take_len_bound [of "ip4_version_and_header_length i"] by (simp add: n_def)
  then show ?thesis
    using sum_list_u32 [of "take n opts"] unfolding options_sum_def n_def [symmetric] by linarith
qed

lemma three_folds:
  assumes "unat (c :: u64) < 2 ^ 36"
    and "a = take_bit 32 c + drop_bit 32 c" "b = take_bit 16 a + drop_bit 16 a" "d = take_bit 16 b + drop_bit 16 b"
  shows "unat (ucast d :: u16) = fold16 (unat c)"
proof -
  have vals: "unat a = unat c mod 2 ^ 32 + unat c div 2 ^ 32" "unat b = unat a mod 2 ^ 16 + unat a div 2 ^ 16"
    "unat d = unat b mod 2 ^ 16 + unat b div 2 ^ 16"
    unfolding assms(2-4) by (rule fold_step; simp)+
  have a: "unat a < 2 ^ 32 + 16"
    using assms(1) vals(1) mod_less_divisor [of "2 ^ 32" "unat c"]
      less_mult_imp_div_less [of "unat c" 16 "2 ^ 32"] by simp
  have b: "unat b < 2 ^ 17 - 1"
  proof (cases "unat a < 2 ^ 32")
    case True
    then show ?thesis
      using vals(2) carry_16 [of "unat a" 0] by simp
  next
    case False
    obtain q r where "unat a = 65536 * q + r" "r < 65536" "unat a div 2 ^ 16 = q" "unat a mod 2 ^ 16 = r"
      using that [of "unat a div 65536" "unat a mod 65536"] by simp
    then show ?thesis
      using False a vals(2) by simp
  qed
  then have "unat d \<le> 65535"
    using vals(3) div_mod_one [of "2 ^ 16" "unat b"] by (cases "unat b < 2 ^ 16") simp_all
  moreover have "unat d mod 65535 = unat c mod 65535" "unat d = 0 \<longleftrightarrow> unat c = 0"
    using vals by (simp_all only: fold_step_residue fold_step_zero)
  ultimately show ?thesis
    by (simp add: fold16_unique ucast_u16_small)
qed

lemma fields_sum_bound: "fields_sum i < 5 * 4294967296 - 4294901760"
  using field_bounds(1) [of "ip4_version_and_header_length i"] field_bounds(1) [of "ip4_tos i"]
    field_bounds(2) [of "ip4_len i"] field_bounds(2) [of "ip4_fragment_id i"]
    field_bounds(2) [of "ip4_flags_and_fragment_offset i"] field_bounds(1) [of "ip4_ttl i"]
    field_bounds(1) [of "ip4_protocol i"] field_bounds(3) [of "ip4_src_address i"]
    field_bounds(3) [of "ip4_dst_address i"]
  unfolding fields_sum_def by linarith

lemma unat_sum_6:
  fixes a b c d e f :: u64
  assumes "unat a + unat b + unat c + unat d + unat e + unat f < 2 ^ 64"
  shows "unat (a + b + c + d + e + f) = unat a + unat b + unat c + unat d + unat e + unat f"
  using assms by (simp add: unat_plus_if')

lemma header_checksum_val:
  "ip4_header_checksum_inline i opts w =
     NOT (of_nat (fold16 (fields_sum i + (if w then 65536 * unat (ip4_checksum i) else 0) + options_sum i opts)))"
proof -
  define n where "n = unat (ip4_version_and_header_length i AND 0xf) - 5"
  define third where "third = (if w then ucast (iphdr i ! 2) else ucast (ucast (iphdr i ! 2) :: u16) :: u64)"
  define c where "c = ucast (iphdr i ! 0) + ucast (iphdr i ! 1) + third + ucast (iphdr i ! 3) + ucast (iphdr i ! 4) +
    sum_list (map ucast (take n opts))"
  have n: "length (take n opts) \<le> 10"
    using take_len_bound [of "ip4_version_and_header_length i"] by (simp add: n_def)
  have third: "unat third = unat (ip4_ttl i) + 256 * unat (ip4_protocol i) + (if w then 65536 * unat (ip4_checksum i) else 0)"
    using field_bounds(1) [of "ip4_ttl i"] field_bounds(1) [of "ip4_protocol i"] field_bounds(2) [of "ip4_checksum i"]
    by (simp add: third_def unat_ucast_up unat_ucast_mod iphdr_vals)
  have opts: "unat (sum_list (map ucast (take n opts)) :: u64) = options_sum i opts"
    using unat_sum_list_ucast [OF n] by (simp add: options_sum_def n_def)
  define v where "v = fields_sum i + (if w then 65536 * unat (ip4_checksum i) else 0) + options_sum i opts"
  have v: "v < 2 ^ 36"
    using fields_sum_bound [of i] options_sum_bound [of i opts] field_bounds(2) [of "ip4_checksum i"]
    unfolding v_def by (simp split: if_split)
  have parts: "unat (ucast (iphdr i ! 0) :: u64) + unat (ucast (iphdr i ! 1) :: u64) + unat third +
      unat (ucast (iphdr i ! 3) :: u64) + unat (ucast (iphdr i ! 4) :: u64) +
      unat (sum_list (map ucast (take n opts)) :: u64) = v"
    using iphdr_vals [of i] by (simp add: third opts unat_ucast_up v_def fields_sum_def)
  then have eq: "unat c = v"
    unfolding c_def using v by (subst unat_sum_6) simp_all
  then have small: "unat c < 2 ^ 36"
    using v by simp
  show ?thesis
    unfolding ip4_header_checksum_inline_def Let_def and_low_u64 n_def [symmetric] third_def [symmetric] c_def [symmetric]
      v_def [symmetric] eq [symmetric] three_folds [OF small refl refl refl, symmetric]
    by simp
qed

lemma fold16_le: "fold16 n \<le> 65535"
  using mod_less_divisor [of 65535 "n - 1"] by (auto simp: fold16_def less_Suc_eq_le simp del: mod_less_divisor)

lemma fold16_ffff: "fold16 n = 65535 \<longleftrightarrow> n \<noteq> 0 \<and> n mod 65535 = 0"
proof (cases n)
  case (Suc m)
  then show ?thesis
    by (simp add: fold16_def mod_Suc)
qed (simp add: fold16_def)

lemma fold16_residue: "fold16 n mod 65535 = n mod 65535"
  by (cases n) (simp_all add: fold16_def mod_Suc_eq)

lemma unat_minus_1_u16: "unat (- 1 :: u16) = 65535"
  by (simp add: unsigned_minus_1_eq_mask mask_eq_exp_minus_1)

lemma unat_not_u16: "unat (NOT x :: u16) = 65535 - unat x"
proof -
  have "NOT x = - 1 - x"
    by (simp add: not_eq_complement)
  then show ?thesis
    using field_bounds(2) [of x] by (simp only: unat_sub_if' unat_minus_1_u16) simp
qed

text \<open>A header is valid exactly when its sum, the checksum included, has residue zero and is not zero itself.\<close>

lemma checksum_valid_iff:
  "ip4_header_checksum_is_valid i opts \<longleftrightarrow>
     (let n = fields_sum i + 65536 * unat (ip4_checksum i) + options_sum i opts in n \<noteq> 0 \<and> n mod 65535 = 0)"
proof -
  define n where "n = fields_sum i + 65536 * unat (ip4_checksum i) + options_sum i opts"
  have "NOT (of_nat (fold16 n) :: u16) = 0 \<longleftrightarrow> of_nat (fold16 n) = (- 1 :: u16)"
    by (metis bit.compl_zero bit.double_compl)
  also have "\<dots> \<longleftrightarrow> unat (of_nat (fold16 n) :: u16) = 65535"
    by (simp only: word_unat_eq_iff unat_minus_1_u16)
  also have "\<dots> \<longleftrightarrow> fold16 n = 65535"
    using fold16_le [of n] by (simp add: unat_of_nat)
  finally show ?thesis
    by (simp add: ip4_header_checksum_is_valid_def header_checksum_val Let_def n_def fold16_ffff)
qed

subsection \<open>Updates that keep a header valid\<close>

text \<open>What an update of some fields and of the checksum must do: the sum keeps its residue.\<close>

lemma valid_preserved:
  assumes "ip4_header_checksum_is_valid i opts"
    and "ip4_version_and_header_length j = ip4_version_and_header_length i" "ip4_version_and_header_length i \<noteq> 0"
    and "(fields_sum j + 65536 * unat (ip4_checksum j)) mod 65535 = (fields_sum i + 65536 * unat (ip4_checksum i)) mod 65535"
  shows "ip4_header_checksum_is_valid j opts"
proof -
  have "options_sum j opts = options_sum i opts"
    using assms(2) by (simp add: options_sum_def)
  moreover have "fields_sum j \<noteq> 0"
    using assms(2,3) by (simp add: fields_sum_def unsigned_eq_0_iff)
  moreover have "(fields_sum j + 65536 * unat (ip4_checksum j) + options_sum i opts) mod 65535 =
      (fields_sum i + 65536 * unat (ip4_checksum i) + options_sum i opts) mod 65535"
    by (rule mod_add_cong [OF assms(4) refl])
  ultimately show ?thesis
    using assms(1) by (simp add: checksum_valid_iff Let_def)
qed

lemma shift16_residue: "(a + 65536 * c) mod 65535 = (a + c) mod (65535 :: nat)"
proof -
  have "a + 65536 * c = (a + c) + 65535 * c"
    by simp
  then show ?thesis
    by (metis mod_mult_self2)
qed

text \<open>Writing the computed checksum gives a valid header.\<close>

lemma set_checksum_valid:
  "ip4_header_checksum_is_valid (i\<lparr>ip4_checksum := ip4_header_checksum i opts\<rparr>) opts"
proof -
  define n where "n = fields_sum i + options_sum i opts"
  have same: "fields_sum (i\<lparr>ip4_checksum := x\<rparr>) = fields_sum i" "options_sum (i\<lparr>ip4_checksum := x\<rparr>) opts = options_sum i opts" for x
    by (simp_all add: fields_sum_def options_sum_def)
  have "unat (of_nat (fold16 n) :: u16) = fold16 n"
    using fold16_le [of n] by (simp add: unat_of_nat)
  then have ck: "unat (ip4_header_checksum i opts) = 65535 - fold16 n"
    by (simp add: ip4_header_checksum_def header_checksum_val n_def unat_not_u16)
  have "(n + (65535 - fold16 n)) mod 65535 = (fold16 n + (65535 - fold16 n)) mod 65535"
    by (rule mod_add_cong [OF fold16_residue [symmetric] refl])
  then have "(n + (65535 - fold16 n)) mod 65535 = 0"
    using fold16_le [of n] by simp
  moreover have "n + 65536 * (65535 - fold16 n) \<noteq> 0"
    by (cases "n = 0") (simp_all add: fold16_def)
  ultimately show ?thesis
    using shift16_residue [of n "65535 - fold16 n"]
    by (simp add: checksum_valid_iff Let_def same ck n_def add_ac not_le)
qed

lemma net_0100: "clib_host_to_net_u16 0x0100 = 1"
  by (simp add: clib_host_to_net_u16_def clib_byte_swap_u16_def)

text \<open>The checksum that the decrement writes, and the one that the increment writes.\<close>

lemma ttl_dec_checksum:
  fixes ck :: u16
  defines "c \<equiv> ucast ck + 1 :: u32"
  shows "unat (ucast (c + (if c \<ge> 0xffff then 1 else 0)) :: u16) mod 65535 = (unat ck + 1) mod 65535"
proof -
  have c: "unat c = unat ck + 1"
    using field_bounds(2) [of ck] by (simp add: c_def unat_plus_if' unat_ucast_up)
  consider "unat ck < 65534" | "unat ck = 65534" | "unat ck = 65535"
    using field_bounds(2) [of ck] by linarith
  then show ?thesis
    using c by cases (simp_all add: word_le_nat_alt unat_ucast_mod unat_plus_if')
qed

lemma ttl_inc_checksum:
  fixes ck :: u16
  defines "c \<equiv> ucast ck - 1 :: u32"
  shows "unat (ucast (c + (if c \<ge> 0xffff then 1 else 0)) :: u16) = unat ck - 1"
proof (cases "unat ck = 0")
  case True
  then have "c = - 1"
    by (simp add: c_def unsigned_eq_0_iff)
  then show ?thesis
    using True by simp
next
  case False
  then have "unat c = unat ck - 1"
    by (simp add: c_def unat_sub_if' unat_ucast_up)
  then show ?thesis
    using field_bounds(2) [of ck] False by (simp add: word_le_nat_alt unat_ucast_mod)
qed

lemma csum_fold_residue: "unat (ip_csum_fold c) mod 65535 = unat c mod 65535"
  by (simp only: ip_csum_fold_val fold16_residue)

text \<open>The fields change from \<open>old\<close> to \<open>new\<close> beside \<open>r\<close>, and the checksum makes up for it.\<close>

lemma field_change:
  assumes "fields_sum i = r + old" "fields_sum j = r + new"
    and "(unat (ip4_checksum j) + new) mod 65535 = (unat (ip4_checksum i) + old) mod 65535"
  shows "(fields_sum j + 65536 * unat (ip4_checksum j)) mod 65535 = (fields_sum i + 65536 * unat (ip4_checksum i)) mod 65535"
proof -
  have "(r + (unat (ip4_checksum j) + new)) mod 65535 = (r + (unat (ip4_checksum i) + old)) mod 65535"
    by (rule mod_add_cong [OF refl assms(3)])
  then show ?thesis
    unfolding shift16_residue assms(1,2) by (simp only: add_ac)
qed

lemma ttl_dec_valid:
  assumes "ip4_header_checksum_is_valid ip opts" "ip4_version_and_header_length ip \<noteq> 0" "ip4_ttl ip \<noteq> 0"
  shows "ip4_header_checksum_is_valid (snd (ip4_ttl_and_checksum_check False ip)) opts"
proof (rule valid_preserved [OF assms(1)])
  define j where "j = snd (ip4_ttl_and_checksum_check False ip)"
  have ttl: "word_of_int (uint (ip4_ttl ip) - 1) = ip4_ttl ip - 1"
    by simp
  have u: "unat (ip4_ttl ip) = unat (ip4_ttl ip - 1) + 1"
    using assms(3) unat_minus_one [of "ip4_ttl ip"] by (simp add: unat_gt_0)
  define r where "r = fields_sum (ip\<lparr>ip4_ttl := 0\<rparr>)"
  have f: "fields_sum ip = r + unat (ip4_ttl ip)" "fields_sum j = r + unat (ip4_ttl ip - 1)"
    by (simp_all add: r_def j_def fields_sum_def ip4_ttl_and_checksum_check_def Let_def)
  have "unat (ip4_checksum j) mod 65535 = (unat (ip4_checksum ip) + 1) mod 65535"
    using ttl_dec_checksum [of "ip4_checksum ip"] by (simp add: j_def ip4_ttl_and_checksum_check_def Let_def net_0100)
  then have "(unat (ip4_checksum j) + unat (ip4_ttl ip - 1)) mod 65535 =
      ((unat (ip4_checksum ip) + 1) + unat (ip4_ttl ip - 1)) mod 65535"
    by (rule mod_add_cong [OF _ refl])
  then have "(unat (ip4_checksum j) + unat (ip4_ttl ip - 1)) mod 65535 = (unat (ip4_checksum ip) + unat (ip4_ttl ip)) mod 65535"
    by (simp only: u add_ac)
  then show "(fields_sum j + 65536 * unat (ip4_checksum j)) mod 65535 =
      (fields_sum ip + 65536 * unat (ip4_checksum ip)) mod 65535"
    by (rule field_change [OF f])
qed (use assms in \<open>simp_all add: ip4_ttl_and_checksum_check_def Let_def\<close>)

lemma set_ecn_valid:
  assumes "ip4_header_checksum_is_valid ip opts" "ip4_version_and_header_length ip \<noteq> 0"
  shows "ip4_header_checksum_is_valid (ip4_header_set_ecn_w_chksum ip ecn) opts"
proof (rule valid_preserved [OF assms(1)])
  define new where "new = (ip4_tos ip AND NOT 3) OR ecn"
  define j where "j = ip4_header_set_ecn_w_chksum ip ecn"
  define c where "c = ip_csum_update_inline (ucast (ip4_checksum ip)) (ucast (ip4_tos ip)) (ucast new) 1 1"
  have j: "j = ip\<lparr>ip4_checksum := ip_csum_fold c, ip4_tos := new\<rparr>"
    by (simp add: j_def ip4_header_set_ecn_w_chksum_def Let_def c_def new_def)
  have f: "fields_sum ip = fields_sum (ip\<lparr>ip4_tos := 0\<rparr>) + 256 * unat (ip4_tos ip)"
    "fields_sum j = fields_sum (ip\<lparr>ip4_tos := 0\<rparr>) + 256 * unat new"
    by (simp_all add: j fields_sum_def)
  have "(unat c + 256 * unat new) mod 65535 = (unat (ip4_checksum ip) + 256 * unat (ip4_tos ip)) mod 65535"
    using update_residue_odd [of 1 1 "ucast (ip4_checksum ip)" "ucast (ip4_tos ip)" "ucast new"]
    by (simp add: c_def unat_push_ucast unat_ucast_up)
  then have "(unat (ip4_checksum j) + 256 * unat new) mod 65535 = (unat (ip4_checksum ip) + 256 * unat (ip4_tos ip)) mod 65535"
    using mod_add_cong [OF csum_fold_residue [of c] refl] by (simp add: j)
  then show "(fields_sum j + 65536 * unat (ip4_checksum j)) mod 65535 =
      (fields_sum ip + 65536 * unat (ip4_checksum ip)) mod 65535"
    by (rule field_change [OF f])
qed (use assms in \<open>simp_all add: ip4_header_set_ecn_w_chksum_def Let_def\<close>)

text \<open>C33. The two ways to fold a sum to 16 bits, the portable one and the one in assembly, give the same checksum for
  every 64-bit sum.\<close>

theorem csum_fold_variants: "ip_csum_fold_bmi2 c = ip_csum_fold c"
  by (simp only: word_unat_eq_iff ip_csum_fold_val ip_csum_fold_bmi2_val)

text \<open>C31. A router that decrements the time to live updates the checksum incrementally: a valid header stays valid, the
  time to live is one less, the packet expires exactly when it was one, and packets of the router itself are not
  touched. Likewise a header is valid after its checksum was computed anew and after its congestion bits were
  rewritten.\<close>

theorem header_updates_valid:
  assumes "ip4_header_checksum_is_valid ip opts" "ip4_version_and_header_length ip \<noteq> 0" "ip4_ttl ip \<noteq> 0"
  shows "(case ip4_ttl_and_checksum_check lo ip of (expired, ip') \<Rightarrow>
            ip4_header_checksum_is_valid ip' opts \<and>
            ip4_ttl ip' = (if lo then ip4_ttl ip else ip4_ttl ip - 1) \<and> (expired \<longleftrightarrow> \<not> lo \<and> ip4_ttl ip = 1)) \<and>
         ip4_header_checksum_is_valid (ip4_header_set_ecn_w_chksum ip ecn) opts \<and>
         ip4_header_checksum_is_valid (jp\<lparr>ip4_checksum := ip4_header_checksum jp opts\<rparr>) opts"
proof -
  have "uint (ip4_ttl ip) \<le> 1 \<longleftrightarrow> unat (ip4_ttl ip) \<le> 1"
    using of_nat_le_iff [of "unat (ip4_ttl ip)" 1, where 'a = int] by (simp only: uint_nat of_nat_1)
  moreover have "unat (ip4_ttl ip) \<le> 1 \<longleftrightarrow> ip4_ttl ip = 1"
    using assms(3) unsigned_eq_0_iff [of "ip4_ttl ip", where 'a = nat] word_unat_eq_iff [of "ip4_ttl ip" 1]
    by (cases "unat (ip4_ttl ip)") simp_all
  ultimately have ttl: "uint (ip4_ttl ip) \<le> 1 \<longleftrightarrow> ip4_ttl ip = 1"
    by simp
  have "case ip4_ttl_and_checksum_check lo ip of (expired, ip') \<Rightarrow>
      ip4_header_checksum_is_valid ip' opts \<and>
      ip4_ttl ip' = (if lo then ip4_ttl ip else ip4_ttl ip - 1) \<and> (expired \<longleftrightarrow> \<not> lo \<and> ip4_ttl ip = 1)"
    using assms(1) ttl_dec_valid [OF assms] by (cases lo) (simp_all add: ip4_ttl_and_checksum_check_def Let_def ttl)
  then show ?thesis
    using set_ecn_valid [OF assms(1,2)] set_checksum_valid by blast
qed

definition sample_header :: ip4_header where
  "sample_header =
     \<lparr>ip4_version_and_header_length = 0x45, ip4_tos = 0, ip4_len = 0x7300, ip4_fragment_id = 0,
      ip4_flags_and_fragment_offset = 0x40, ip4_ttl = 64, ip4_protocol = 17, ip4_checksum = 0x61b8,
      ip4_src_address = 0x0100a8c0, ip4_dst_address = 0xc700a8c0\<rparr>"

lemma sample_header_valid: "ip4_header_checksum_is_valid sample_header []"
  by (simp add: checksum_valid_iff Let_def fields_sum_def options_sum_def sample_header_def)

theorem header_updates_valid_witness:
  "ip4_header_checksum_is_valid sample_header [] \<and>
   ip4_header_checksum_is_valid (snd (ip4_ttl_and_checksum_check False sample_header)) [] \<and>
   \<not> fst (ip4_ttl_and_checksum_check False sample_header)"
  using header_updates_valid [of sample_header "[]" False] sample_header_valid
  by (simp add: sample_header_def case_prod_beta)

text \<open>C32. The increment of the time to live, which undoes the decrement, keeps a valid header valid exactly when its
  checksum is not zero: for a zero checksum the subtraction wraps at 32 bits and the correction that follows makes
  it zero again, so that the header that goes out is invalid.\<close>

theorem ttl_inc_valid_iff:
  assumes "ip4_header_checksum_is_valid ip opts" "ip4_version_and_header_length ip \<noteq> 0" "unat (ip4_ttl ip) < 255"
  shows "ip4_header_checksum_is_valid (ip4_ttl_inc False ip) opts \<longleftrightarrow> ip4_checksum ip \<noteq> 0"
proof -
  define j where "j = ip4_ttl_inc False ip"
  have ttl: "unat (ip4_ttl j) = unat (ip4_ttl ip) + 1"
    using assms(3) by (simp add: j_def ip4_ttl_inc_def Let_def unat_plus_if')
  have ck: "unat (ip4_checksum j) = unat (ip4_checksum ip) - 1"
    using ttl_inc_checksum [of "ip4_checksum ip"] by (simp add: j_def ip4_ttl_inc_def Let_def net_0100)
  have v: "ip4_version_and_header_length j = ip4_version_and_header_length ip"
    by (simp add: j_def ip4_ttl_inc_def Let_def)
  define r where "r = fields_sum (ip\<lparr>ip4_ttl := 0\<rparr>)"
  have f: "fields_sum ip = r + unat (ip4_ttl ip)" "fields_sum j = r + unat (ip4_ttl j)"
    by (simp_all add: r_def j_def fields_sum_def ip4_ttl_inc_def Let_def)
  show ?thesis
  proof (cases "ip4_checksum ip = 0")
    case True
    have "options_sum j opts = options_sum ip opts"
      by (simp add: options_sum_def v)
    then have "\<not> ip4_header_checksum_is_valid j opts"
      using assms(1) True ck f ttl by (simp add: checksum_valid_iff Let_def mod_Suc)
    then show ?thesis
      using True by (simp add: j_def)
  next
    case False
    then have "unat (ip4_checksum ip) = unat (ip4_checksum j) + 1"
      using ck by (simp add: unat_gt_0)
    then have "(unat (ip4_checksum j) + unat (ip4_ttl j)) mod 65535 = (unat (ip4_checksum ip) + unat (ip4_ttl ip)) mod 65535"
      using ttl by simp
    from valid_preserved [OF assms(1) v assms(2) field_change [OF f this]] show ?thesis
      using False by (simp add: j_def)
  qed
qed

theorem ttl_inc_valid_iff_witness:
  "let ip = sample_header\<lparr>ip4_checksum := 0, ip4_fragment_id := 0x61b8\<rparr> in
   ip4_header_checksum_is_valid ip [] \<and> \<not> ip4_header_checksum_is_valid (ip4_ttl_inc False ip) []"
proof -
  define ip where "ip = sample_header\<lparr>ip4_checksum := 0, ip4_fragment_id := 0x61b8\<rparr>"
  have "ip4_header_checksum_is_valid ip []"
    by (simp add: checksum_valid_iff Let_def fields_sum_def options_sum_def sample_header_def ip_def)
  then show ?thesis
    using ttl_inc_valid_iff [of ip "[]"] by (simp add: ip_def sample_header_def)
qed

end
