(* ===== verification/Esp_Headers.thy ===== *)
theory Esp_Headers
  imports Ip_Csum Esp_Replay
begin

unbundle bit_operations_syntax

text \<open>
  The headers around an ESP packet: the additional authenticated data and the error codes of
  \<^verbatim>\<open>vnet/ipsec/esp.h\<close>, the change of the IPv4 header in \<^verbatim>\<open>vnet/ipsec/esp_encrypt.c\<close> and its reversal in
  \<^verbatim>\<open>vnet/ipsec/esp_decrypt.c\<close>, and the walk over the IPv6 extension headers that stay in front of the ESP
  header.
\<close>

subsection \<open>Additional authenticated data\<close>

record esp_header =
  esp_spi :: u32
  esp_seq_no :: u32

text \<open>The words of the data; the byte count that the code returns is four times their number.\<close>

definition esp_aad_fill :: "esp_header \<Rightarrow> 'a ipsec_sa_replay_scheme \<Rightarrow> u32 \<Rightarrow> u32 list \<times> u16" where
  "esp_aad_fill esp sa hi =
     (if ipsec_sa_is_set IPSEC_SA_FLAG_USE_ESN sa
      then ([esp_spi esp, clib_host_to_net_u32 hi, esp_seq_no esp], 12)
      else ([esp_spi esp, esp_seq_no esp], 8))"

subsection \<open>Error codes\<close>

datatype esp_encrypt_error =
  ESP_ENCRYPT_ERROR_RX_PKTS | ESP_ENCRYPT_ERROR_POST_RX_PKTS | ESP_ENCRYPT_ERROR_HANDOFF
| ESP_ENCRYPT_ERROR_SEQ_CYCLED | ESP_ENCRYPT_ERROR_CRYPTO_ENGINE_ERROR | ESP_ENCRYPT_ERROR_CRYPTO_QUEUE_FULL
| ESP_ENCRYPT_ERROR_NO_BUFFERS | ESP_ENCRYPT_ERROR_NO_PROTECTION | ESP_ENCRYPT_ERROR_NO_ENCRYPTION
| ESP_ENCRYPT_ERROR_NO_AVAIL_FRAME


datatype ipsec_sa_err =
  IPSEC_SA_ERROR_LOST | IPSEC_SA_ERROR_HANDOFF | IPSEC_SA_ERROR_INTEG_ERROR | IPSEC_SA_ERROR_DECRYPTION_FAILED
| IPSEC_SA_ERROR_CRYPTO_ENGINE_ERROR | IPSEC_SA_ERROR_REPLAY | IPSEC_SA_ERROR_RUNT | IPSEC_SA_ERROR_NO_BUFFERS
| IPSEC_SA_ERROR_OVERSIZED_HEADER | IPSEC_SA_ERROR_NO_TAIL_SPACE | IPSEC_SA_ERROR_TUN_NO_PROTO
| IPSEC_SA_ERROR_UNSUP_PAYLOAD | IPSEC_SA_ERROR_SEQ_CYCLED | IPSEC_SA_ERROR_CRYPTO_QUEUE_FULL
| IPSEC_SA_ERROR_NO_ENCRYPTION | IPSEC_SA_ERROR_DROP_FRAGMENTS

text \<open>The counter of the SA for an error of a node; \<open>None\<close> is the code's \<open>~0\<close>, no counter.\<close>

fun esp_encrypt_err_to_sa_err :: "esp_encrypt_error \<Rightarrow> ipsec_sa_err option" where
  "esp_encrypt_err_to_sa_err ESP_ENCRYPT_ERROR_HANDOFF = Some IPSEC_SA_ERROR_HANDOFF"
| "esp_encrypt_err_to_sa_err ESP_ENCRYPT_ERROR_SEQ_CYCLED = Some IPSEC_SA_ERROR_SEQ_CYCLED"
| "esp_encrypt_err_to_sa_err ESP_ENCRYPT_ERROR_CRYPTO_ENGINE_ERROR = Some IPSEC_SA_ERROR_CRYPTO_ENGINE_ERROR"
| "esp_encrypt_err_to_sa_err ESP_ENCRYPT_ERROR_CRYPTO_QUEUE_FULL = Some IPSEC_SA_ERROR_CRYPTO_QUEUE_FULL"
| "esp_encrypt_err_to_sa_err ESP_ENCRYPT_ERROR_NO_BUFFERS = Some IPSEC_SA_ERROR_NO_BUFFERS"
| "esp_encrypt_err_to_sa_err ESP_ENCRYPT_ERROR_NO_ENCRYPTION = Some IPSEC_SA_ERROR_NO_ENCRYPTION"
| "esp_encrypt_err_to_sa_err _ = None"


text \<open>A dropped packet: its next node, its error, and the counters of errors per SA.\<close>

record 'e drop_state =
  drop_nexts :: "u16 list"
  drop_error :: "'e option"
  sa_err_counters :: "ipsec_sa_err \<Rightarrow> nat \<Rightarrow> nat"

definition ipsec_set_next_index ::
  "'e \<Rightarrow> ipsec_sa_err option \<Rightarrow> nat \<Rightarrow> u16 \<Rightarrow> nat \<Rightarrow> 'e drop_state \<Rightarrow> 'e drop_state" where
  "ipsec_set_next_index err sa_err ix drop_next sa_index s =
     (let s = s\<lparr>drop_nexts := (drop_nexts s)[ix := drop_next], drop_error := Some err\<rparr>
      in case sa_err of
           None \<Rightarrow> s
         | Some e \<Rightarrow> s\<lparr>sa_err_counters := (sa_err_counters s)(e := (sa_err_counters s e)(sa_index := sa_err_counters s e sa_index + 1))\<rparr>)"

definition esp_encrypt_set_next_index where
  "esp_encrypt_set_next_index err = ipsec_set_next_index err (esp_encrypt_err_to_sa_err err)"


subsection \<open>The IPv4 header\<close>

definition IP_PROTOCOL_UDP :: u8 where
  "IP_PROTOCOL_UDP = 17"

definition IP_PROTOCOL_IPSEC_ESP :: u8 where
  "IP_PROTOCOL_IPSEC_ESP = 50"

text \<open>The field \<open>protocol\<close> is one byte at offset 9, \<open>length\<close> two bytes at offset 2.\<close>

definition esp_update_ip4_hdr :: "ip4_header \<Rightarrow> u16 \<Rightarrow> bool \<Rightarrow> bool \<Rightarrow> ip4_header" where
  "esp_update_ip4_hdr ip4 len is_transport is_udp =
     (let len = clib_net_to_host_u16 len;
          old_len = ip4_len ip4;
          prot = (if is_udp then IP_PROTOCOL_UDP else IP_PROTOCOL_IPSEC_ESP);
          (ip4, csum) =
            (if is_transport
             then let csum = ip_csum_update_inline (ucast (ip4_checksum ip4)) (ucast (ip4_protocol ip4)) (ucast prot) 9 1
                  in (ip4\<lparr>ip4_protocol := prot\<rparr>, ip_csum_update_inline csum (ucast old_len) (ucast len) 2 2)
             else (ip4, ip_csum_update_inline (ucast (ip4_checksum ip4)) (ucast old_len) (ucast len) 2 2))
      in ip4\<lparr>ip4_len := len, ip4_checksum := ip_csum_fold csum\<rparr>)"

text \<open>The header of a decrypted packet in transport mode, from the transport header found in the trailer.\<close>

definition esp_decrypt_ip4_hdr :: "ip4_header \<Rightarrow> u16 \<Rightarrow> u16 \<Rightarrow> u16 \<Rightarrow> u8 \<Rightarrow> ip4_header" where
  "esp_decrypt_ip4_hdr ip4 adv tail_orig udp_sz next_header =
     (let csum = ucast (ip4_checksum ip4);
          len = clib_net_to_host_u16 (ip4_len ip4);
          len = clib_host_to_net_u16 (len - adv - tail_orig - udp_sz);
          csum = ip_csum_update_inline csum (ucast (ip4_protocol ip4)) (ucast next_header) 9 1;
          csum = ip_csum_update_inline csum (ucast (ip4_len ip4)) (ucast len) 2 2
      in ip4\<lparr>ip4_checksum := ip_csum_fold csum, ip4_protocol := next_header, ip4_len := len\<rparr>)"

subsection \<open>IPv6 extension headers\<close>

text \<open>The packet is the memory from the IPv6 header on. A header in front of the ESP header is one of hop-by-hop
  options (0), routing (43) or fragmentation (44).\<close>

definition ext_hdr_is_pre_esp :: "u8 \<Rightarrow> bool" where
  "ext_hdr_is_pre_esp nexthdr \<longleftrightarrow> nexthdr XOR 0 = 0 \<or> nexthdr XOR 43 = 0 \<or> nexthdr XOR 44 = 0"

text \<open>The variant for machines with vectors compares 16 bytes at once, of which 13 are zero.\<close>

definition ext_hdr_is_pre_esp_vec128 :: "u8 \<Rightarrow> bool" where
  "ext_hdr_is_pre_esp_vec128 nexthdr \<longleftrightarrow>
     \<not> list_all (\<lambda>b. b = 0) (map (\<lambda>t. if t = nexthdr then - 1 else 0 :: u8) ([0, 43, 44] @ replicate 13 0))"

definition ip6_ext_header_len :: "(nat \<Rightarrow> u8) \<Rightarrow> nat \<Rightarrow> nat" where
  "ip6_ext_header_len pkt p = (unat (pkt (p + 1)) + 1) * 8"

definition ip6_ext_next_header :: "(nat \<Rightarrow> u8) \<Rightarrow> nat \<Rightarrow> nat" where
  "ip6_ext_next_header pkt p = p + ip6_ext_header_len pkt p"

text \<open>The loop of the code, which ends only if a header with another successor is found.\<close>

partial_function (option) ip6_pre_esp_loop :: "(nat \<Rightarrow> u8) \<Rightarrow> u8 \<Rightarrow> nat \<Rightarrow> (u8 \<times> nat) option" where
  "ip6_pre_esp_loop pkt len p =
     (if ext_hdr_is_pre_esp (pkt p)
      then ip6_pre_esp_loop pkt (len + of_nat (ip6_ext_header_len pkt p)) (ip6_ext_next_header pkt p)
      else Some (len, p))"

definition esp_get_ip6_hdr_len :: "(nat \<Rightarrow> u8) \<Rightarrow> (u8 \<times> nat option) option" where
  "esp_get_ip6_hdr_len pkt =
     (if \<not> ext_hdr_is_pre_esp (pkt 6) then Some (40, None)
      else map_option (\<lambda>(len, p). (len, Some p))
             (ip6_pre_esp_loop pkt (40 + of_nat (ip6_ext_header_len pkt 40)) 40))"

subsection \<open>Header lemmas\<close>

text \<open>The two changes of the header, of the length alone and of the protocol too, as changes of the sum.\<close>

lemma len_update_residue:
  "(unat (ip_csum_update_inline c (ucast (old :: u16)) (ucast (new :: u16)) 2 2) + unat new) mod 65535 =
     (unat c + unat old) mod 65535"
  using update_residue [of 2 2 c "ucast old" "ucast new"] by (simp add: unat_ucast_up)

lemma prot_update_residue:
  "(unat (ip_csum_update_inline c (ucast (old :: u8)) (ucast (new :: u8)) 9 1) + 256 * unat new) mod 65535 =
     (unat c + 256 * unat old) mod 65535"
  using update_residue_odd [of 1 9 c "ucast old" "ucast new"] by (simp add: unat_push_ucast)

lemma len_prot_valid:
  assumes "ip4_header_checksum_is_valid i opts" "ip4_version_and_header_length i \<noteq> 0"
    and "(unat c + 256 * unat prot + unat len) mod 65535 =
         (unat (ip4_checksum i) + 256 * unat (ip4_protocol i) + unat (ip4_len i)) mod 65535"
  shows "ip4_header_checksum_is_valid (i\<lparr>ip4_protocol := prot, ip4_len := len, ip4_checksum := ip_csum_fold c\<rparr>) opts"
proof (rule valid_preserved [OF assms(1)])
  define j where "j = i\<lparr>ip4_protocol := prot, ip4_len := len, ip4_checksum := ip_csum_fold c\<rparr>"
  define r where "r = fields_sum (i\<lparr>ip4_protocol := 0, ip4_len := 0\<rparr>)"
  have f: "fields_sum i = r + (256 * unat (ip4_protocol i) + 65536 * unat (ip4_len i))"
    "fields_sum j = r + (256 * unat prot + 65536 * unat len)"
    by (simp_all add: r_def j_def fields_sum_def)
  have "(unat (ip_csum_fold c) + (256 * unat prot + unat len)) mod 65535 = (unat c + (256 * unat prot + unat len)) mod 65535"
    by (rule mod_add_cong [OF csum_fold_residue refl])
  then have "(unat (ip4_checksum j) + 256 * unat prot + unat len) mod 65535 =
      (unat (ip4_checksum i) + 256 * unat (ip4_protocol i) + unat (ip4_len i)) mod 65535"
    using assms(3) by (simp add: j_def add.assoc)
  then have "(unat (ip4_checksum j) + (256 * unat prot + 65536 * unat len)) mod 65535 =
      (unat (ip4_checksum i) + (256 * unat (ip4_protocol i) + 65536 * unat (ip4_len i))) mod 65535"
    by (simp only: add.assoc [symmetric] shift16_residue)
  then show "(fields_sum j + 65536 * unat (ip4_checksum j)) mod 65535 =
      (fields_sum i + 65536 * unat (ip4_checksum i)) mod 65535"
    by (rule field_change [OF f])
qed (use assms in simp_all)

lemma two_updates_residue:
  "(unat (ip_csum_update_inline (ip_csum_update_inline c (ucast p) (ucast p') 9 1) (ucast l) (ucast l') 2 2) +
      256 * unat (p' :: u8) + unat (l' :: u16)) mod 65535 =
   (unat c + 256 * unat (p :: u8) + unat (l :: u16)) mod 65535"
proof -
  define d where "d = ip_csum_update_inline c (ucast p) (ucast p') 9 1"
  define e where "e = ip_csum_update_inline d (ucast l) (ucast l') 2 2"
  have "(unat e + unat l' + 256 * unat p') mod 65535 = (unat d + unat l + 256 * unat p') mod 65535"
    unfolding e_def by (rule mod_add_cong [OF len_update_residue refl])
  moreover have "(unat d + 256 * unat p' + unat l) mod 65535 = (unat c + 256 * unat p + unat l) mod 65535"
    unfolding d_def by (rule mod_add_cong [OF prot_update_residue refl])
  ultimately show ?thesis
    unfolding d_def [symmetric] e_def [symmetric] by (simp add: add_ac)
qed

lemma unat_ucast_csum: "unat (ucast (ck :: u16) :: u64) = unat ck"
  by (rule unat_ucast_up) simp

lemma esp_update_valid:
  assumes "ip4_header_checksum_is_valid i opts" "ip4_version_and_header_length i \<noteq> 0"
  shows "ip4_header_checksum_is_valid (esp_update_ip4_hdr i len tr udp) opts"
proof (cases tr)
  case True
  show ?thesis
    using len_prot_valid [OF assms, of _ "if udp then IP_PROTOCOL_UDP else IP_PROTOCOL_IPSEC_ESP" "clib_net_to_host_u16 len",
        OF two_updates_residue [of "ucast (ip4_checksum i)", unfolded unat_ucast_csum]] True
    by (simp add: esp_update_ip4_hdr_def Let_def)
next
  case False
  define c where "c = ip_csum_update_inline (ucast (ip4_checksum i)) (ucast (ip4_len i)) (ucast (clib_net_to_host_u16 len)) 2 2"
  have "(unat c + unat (clib_net_to_host_u16 len) + 256 * unat (ip4_protocol i)) mod 65535 =
      (unat (ip4_checksum i) + unat (ip4_len i) + 256 * unat (ip4_protocol i)) mod 65535"
    unfolding c_def by (rule mod_add_cong [OF len_update_residue [of "ucast (ip4_checksum i)", unfolded unat_ucast_csum] refl])
  then show ?thesis
    using len_prot_valid [OF assms, of c "ip4_protocol i" "clib_net_to_host_u16 len"] False
    by (simp add: esp_update_ip4_hdr_def Let_def c_def add_ac)
qed

lemma esp_decrypt_valid:
  assumes "ip4_header_checksum_is_valid i opts" "ip4_version_and_header_length i \<noteq> 0"
  shows "ip4_header_checksum_is_valid (esp_decrypt_ip4_hdr i adv tail_orig udp_sz nh) opts"
  using len_prot_valid [OF assms, of _ nh "clib_host_to_net_u16 (clib_net_to_host_u16 (ip4_len i) - adv - tail_orig - udp_sz)",
      OF two_updates_residue [of "ucast (ip4_checksum i)", unfolded unat_ucast_csum]]
  by (cases i) (simp add: esp_decrypt_ip4_hdr_def Let_def)

subsection \<open>The walk over extension headers\<close>

text \<open>Where the extension header number \<open>n\<close> after the one at \<open>p\<close> starts.\<close>

primrec ext_hdr_off :: "(nat \<Rightarrow> u8) \<Rightarrow> nat \<Rightarrow> nat \<Rightarrow> nat" where
  "ext_hdr_off pkt p 0 = p"
| "ext_hdr_off pkt p (Suc n) = ext_hdr_off pkt (ip6_ext_next_header pkt p) n"

lemma ip6_pre_esp_loop_run:
  assumes "\<And>k. k < n \<Longrightarrow> ext_hdr_is_pre_esp (pkt (ext_hdr_off pkt p k))"
    and "\<not> ext_hdr_is_pre_esp (pkt (ext_hdr_off pkt p n))"
  shows "ip6_pre_esp_loop pkt len p =
    Some (len + of_nat (ext_hdr_off pkt p n - p), ext_hdr_off pkt p n) \<and> p \<le> ext_hdr_off pkt p n"
  using assms
proof (induction n arbitrary: len p)
  case 0
  then show ?case
    by (simp add: ip6_pre_esp_loop.simps [of pkt len p])
next
  case (Suc n)
  let ?q = "ip6_ext_next_header pkt p"
  have "ip6_pre_esp_loop pkt (len + of_nat (ip6_ext_header_len pkt p)) ?q =
      Some (len + of_nat (ip6_ext_header_len pkt p) + of_nat (ext_hdr_off pkt ?q n - ?q), ext_hdr_off pkt ?q n) \<and>
      ?q \<le> ext_hdr_off pkt ?q n"
    using Suc.prems(1) [of "Suc _"] Suc.prems(2) by (intro Suc.IH) auto
  moreover have "ext_hdr_is_pre_esp (pkt p)"
    using Suc.prems(1) [of 0] by simp
  moreover have "of_nat (ip6_ext_header_len pkt p) + of_nat (m - ?q) = (of_nat (m - p) :: u8)" if le: "?q \<le> m" for m
  proof -
    obtain d where "m = p + ip6_ext_header_len pkt p + d"
      using le_Suc_ex [OF le] by (auto simp: ip6_ext_next_header_def)
    then show ?thesis
      by (simp add: ip6_ext_next_header_def)
  qed
  ultimately show ?case
    by (simp add: ip6_pre_esp_loop.simps [of pkt len p] add.assoc ip6_ext_next_header_def)
qed

lemma xor_eq_0_iff_u8: "a XOR b = 0 \<longleftrightarrow> a = (b :: u8)"
  by (auto simp: bit_eq_iff bit_xor_iff)

lemma pre_esp_vec128: "ext_hdr_is_pre_esp_vec128 b \<longleftrightarrow> ext_hdr_is_pre_esp b"
  by (auto simp: ext_hdr_is_pre_esp_vec128_def ext_hdr_is_pre_esp_def xor_eq_0_iff_u8 list_all_iff set_replicate_conv_if)

subsection \<open>Properties\<close>

text \<open>C34. Transport mode: encryption rewrites the IPv4 header for the longer packet and for ESP or UDP, with a checksum
  that stays valid; decryption, given the sizes and the protocol from the trailer, restores every field of the
  original header and a valid checksum.\<close>

theorem esp_ip4_header_roundtrip:
  assumes "ip4_header_checksum_is_valid i opts" "ip4_version_and_header_length i \<noteq> 0"
    and "len = clib_net_to_host_u16 (ip4_len i) + adv + tail_orig + udp_sz"
  shows "let out = esp_update_ip4_hdr i len True is_udp;
             back = esp_decrypt_ip4_hdr out adv tail_orig udp_sz (ip4_protocol i)
         in ip4_header_checksum_is_valid out opts \<and> clib_net_to_host_u16 (ip4_len out) = len \<and>
            ip4_protocol out = (if is_udp then IP_PROTOCOL_UDP else IP_PROTOCOL_IPSEC_ESP) \<and>
            ip4_header_checksum_is_valid back opts \<and> back\<lparr>ip4_checksum := c\<rparr> = i\<lparr>ip4_checksum := c\<rparr>"
proof -
  define out where "out = esp_update_ip4_hdr i len True is_udp"
  have valid: "ip4_header_checksum_is_valid out opts"
    unfolding out_def by (rule esp_update_valid [OF assms(1,2)])
  have out: "ip4_version_and_header_length out \<noteq> 0" "clib_net_to_host_u16 (ip4_len out) = len"
    "ip4_protocol out = (if is_udp then IP_PROTOCOL_UDP else IP_PROTOCOL_IPSEC_ESP)"
    using assms(2)
    by (simp_all add: out_def esp_update_ip4_hdr_def Let_def clib_net_to_host_u16_def clib_host_to_net_u16_def)
  have "(esp_decrypt_ip4_hdr out adv tail_orig udp_sz (ip4_protocol i))\<lparr>ip4_checksum := c\<rparr> = i\<lparr>ip4_checksum := c\<rparr>"
    using assms(3)
    by (cases i) (simp add: esp_decrypt_ip4_hdr_def out_def esp_update_ip4_hdr_def Let_def clib_net_to_host_u16_def clib_host_to_net_u16_def)
  then show ?thesis
    using out valid esp_decrypt_valid [OF valid out(1)] by (simp add: Let_def out_def)
qed

theorem esp_ip4_header_roundtrip_witness:
  "let out = esp_update_ip4_hdr sample_header 157 True False;
       back = esp_decrypt_ip4_hdr out 16 18 8 17
   in ip4_header_checksum_is_valid out [] \<and> ip4_header_checksum_is_valid back [] \<and>
      back\<lparr>ip4_checksum := 0\<rparr> = sample_header\<lparr>ip4_checksum := 0\<rparr>"
proof -
  have "clib_net_to_host_u16 (ip4_len sample_header) = 115"
    by (simp add: sample_header_def clib_net_to_host_u16_def clib_host_to_net_u16_def clib_byte_swap_u16_def)
  then show ?thesis
    using esp_ip4_header_roundtrip [of sample_header "[]" 157 16 18 8 False 0] sample_header_valid
    by (simp add: sample_header_def Let_def)
qed

text \<open>C35. The walk over the IPv6 extension headers returns whenever the headers in front of the ESP header end, at the
  last of them, however many there are. The length it returns, however, is that of the IPv6 header and of all
  extension headers but the last, with the first counted twice: it is right only if the first and the last are
  equally long, and it is kept in eight bits.\<close>

theorem esp_ip6_hdr_len_returns:
  assumes "ext_hdr_is_pre_esp (pkt 6)"
    and "\<And>k. k < n \<Longrightarrow> ext_hdr_is_pre_esp (pkt (ext_hdr_off pkt 40 k))"
    and "\<not> ext_hdr_is_pre_esp (pkt (ext_hdr_off pkt 40 n))"
  shows "esp_get_ip6_hdr_len pkt =
    Some (of_nat (ext_hdr_off pkt 40 n + ip6_ext_header_len pkt 40), Some (ext_hdr_off pkt 40 n))"
proof -
  have "ip6_pre_esp_loop pkt l 40 =
      Some (l + of_nat (ext_hdr_off pkt 40 n - 40), ext_hdr_off pkt 40 n) \<and> 40 \<le> ext_hdr_off pkt 40 n" for l
    by (rule ip6_pre_esp_loop_run) (use assms in auto)
  moreover have "40 + of_nat l + of_nat (m - 40) = (of_nat (m + l) :: u8)" if le: "40 \<le> m" for l m
  proof -
    obtain d where "m = 40 + d"
      using le_Suc_ex [OF le] by auto
    then show ?thesis
      by simp
  qed
  ultimately show ?thesis
    using assms(1) by (simp add: esp_get_ip6_hdr_len_def)
qed

text \<open>A packet with hop-by-hop options of 8 bytes and a routing header of 24 bytes before UDP.\<close>

definition sample_ip6 :: "nat \<Rightarrow> u8" where
  "sample_ip6 a = (if a = 6 then 0 else if a = 40 then 43 else if a = 41 then 0 else if a = 48 then 17 else if a = 49 then 2 else 1)"

theorem esp_ip6_hdr_len_returns_witness: "esp_get_ip6_hdr_len sample_ip6 = Some (56, Some 48)"
  using esp_ip6_hdr_len_returns [of sample_ip6 1]
  by (simp add: sample_ip6_def ext_hdr_is_pre_esp_def ip6_ext_next_header_def ip6_ext_header_len_def)

text \<open>The additional authenticated data of two packets of an SA agree exactly when the packets have the same SPI and
  the same sequence number, of which the high word counts with extended sequence numbers; their size is that of
  the words written.\<close>

theorem esp_aad_separates:
  "(esp_aad_fill esp sa hi = esp_aad_fill esp' sa hi' \<longleftrightarrow>
      esp_spi esp = esp_spi esp' \<and> esp_seq_no esp = esp_seq_no esp' \<and>
      (if ipsec_sa_is_set IPSEC_SA_FLAG_USE_ESN sa then hi = hi' else True)) \<and>
   unat (snd (esp_aad_fill esp sa hi)) = 4 * length (fst (esp_aad_fill esp sa hi)) \<and>
   length (fst (esp_aad_fill esp sa hi)) \<le> 3"
  by (auto simp: esp_aad_fill_def byte_order_defs byte_swap_u32_inj)




end
