(* ===== verification/Ipsec_Output.thy ===== *)
theory Ipsec_Output
  imports Sa_Locks Esp_Headers
begin

text \<open>
  Packets that leave, \<^verbatim>\<open>vnet/ipsec/ipsec_output.h\<close> and \<^verbatim>\<open>vnet/ipsec/ipsec_output.c\<close>: the policy for a packet,
  by a search through the policies of the SPD of its interface or from the cache of flows, and what the node does
  with the packet. A packet is given by the fields that are read; addresses and ports of the packet are in network
  order, those of the search in host order. The hash of a flow depends on the processor: where it has an
  instruction for CRC32 that is the argument \<open>crc\<close>, otherwise it is computed.
\<close>

subsection \<open>Flows\<close>

definition IPSEC_POLICY_PROTOCOL_ANY :: u8 where "IPSEC_POLICY_PROTOCOL_ANY = 255"
definition IP_PROTOCOL_TCP :: u8 where "IP_PROTOCOL_TCP = 6"
definition IP_PROTOCOL_SCTP :: u8 where "IP_PROTOCOL_SCTP = 132"

definition has_ports :: "u8 \<Rightarrow> bool" where
  "has_ports pr \<longleftrightarrow> \<not> (pr \<noteq> IP_PROTOCOL_TCP \<and> pr \<noteq> IP_PROTOCOL_UDP \<and> pr \<noteq> IP_PROTOCOL_SCTP)"

definition XXH_rotl64 :: "u64 \<Rightarrow> nat \<Rightarrow> u64" where
  "XXH_rotl64 x r = push_bit r x OR drop_bit (64 - r) x"

definition clib_xxhash :: "u64 \<Rightarrow> u64" where
  "clib_xxhash key =
     (let k1 = key;
          h64 = 0x9e3779b97f4a7c13 + 2870177450012600261 + 8;
          k1 = k1 * 14029467366897019727;
          k1 = XXH_rotl64 k1 31;
          k1 = k1 * 11400714785074694791;
          h64 = h64 XOR k1;
          h64 = XXH_rotl64 h64 27 * 11400714785074694791 + 9650029242287828579;
          h64 = h64 XOR drop_bit 33 h64;
          h64 = h64 * 14029467366897019727;
          h64 = h64 XOR drop_bit 29 h64;
          h64 = h64 * 1609587929392839161;
          h64 = h64 XOR drop_bit 32 h64
      in h64)"

text \<open>The two words of a key.\<close>

definition tuple_key :: "ipsec4_spd_5tuple \<Rightarrow> u64 \<times> u64" where
  "tuple_key t =
     (case t of (la, ra, lp, rp, pr) \<Rightarrow>
        (ucast la OR push_bit 32 (ucast ra), ucast lp OR push_bit 16 (ucast rp) OR push_bit 32 (ucast pr)))"

definition ipsec4_hash_16_8 :: "(u64 \<times> u64 \<Rightarrow> u32) option \<Rightarrow> u64 \<times> u64 \<Rightarrow> u64" where
  "ipsec4_hash_16_8 crc key =
     (case crc of Some f \<Rightarrow> ucast (f key)
      | None \<Rightarrow> let tmp = fst key XOR snd key in clib_xxhash tmp)"

text \<open>The cache is a table with one entry for each bucket; the number of buckets is its length.\<close>

definition out_bucket :: "(u64 \<times> u64 \<Rightarrow> u32) option \<Rightarrow> ipsec_main \<Rightarrow> ipsec4_spd_5tuple \<Rightarrow> nat" where
  "out_bucket crc im t =
     unat (ipsec4_hash_16_8 crc (tuple_key t) AND (word_of_nat (length (ipsec4_out_spd_hash_tbl im)) - 1))"

definition ipsec4_out_spd_add_flow_cache_entry ::
  "(u64 \<times> u64 \<Rightarrow> u32) option \<Rightarrow> ipsec_main \<Rightarrow> u8 \<Rightarrow> u32 \<Rightarrow> u32 \<Rightarrow> u16 \<Rightarrow> u16 \<Rightarrow> u32 \<Rightarrow> ipsec_main" where
  "ipsec4_out_spd_add_flow_cache_entry crc im pr la ra lp rp pol_id =
     (let ip4_5tuple = (la, ra, lp, rp, pr);
          v = push_bit 32 (ucast pol_id) OR ucast (epoch_count im);
          h = out_bucket crc im ip4_5tuple;
          old = kv_value (ipsec4_out_spd_hash_tbl im ! h);
          overwrite = (old \<noteq> 0);
          stale_overwrite = (overwrite \<and> epoch_count im \<noteq> ucast (old AND 0xFFFFFFFF));
          im = im\<lparr>ipsec4_out_spd_hash_tbl := (ipsec4_out_spd_hash_tbl im)[h := \<lparr>kv_key = ip4_5tuple, kv_value = v\<rparr>]\<rparr>
      in if \<not> overwrite \<or> stale_overwrite
         then im\<lparr>ipsec4_out_spd_flow_cache_entries := ipsec4_out_spd_flow_cache_entries im + 1\<rparr>
         else im)"

definition ipsec4_out_spd_find_flow_cache_entry ::
  "(u64 \<times> u64 \<Rightarrow> u32) option \<Rightarrow> ipsec_main \<Rightarrow> u8 \<Rightarrow> u32 \<Rightarrow> u32 \<Rightarrow> u16 \<Rightarrow> u16 \<Rightarrow> nat option" where
  "ipsec4_out_spd_find_flow_cache_entry crc im pr la ra lp rp =
     (let (lp, rp) = (if \<not> has_ports pr then (0, 0) else (lp, rp));
          ip4_5tuple = (la, ra, lp, rp, pr);
          h = out_bucket crc im ip4_5tuple;
          kv_result = ipsec4_out_spd_hash_tbl im ! h
      in if kv_key kv_result = ip4_5tuple \<and> epoch_count im = ucast (kv_value kv_result AND 0xFFFFFFFF)
         then Some (unat (ucast (drop_bit 32 (kv_value kv_result)) :: u32))
         else None)"

subsection \<open>The search through the policies of an SPD\<close>

definition out4_policy_match :: "ipsec_policy \<Rightarrow> u8 \<Rightarrow> u32 \<Rightarrow> u32 \<Rightarrow> u16 \<Rightarrow> u16 \<Rightarrow> bool" where
  "out4_policy_match p pr la ra lp rp \<longleftrightarrow>
     \<not> (policy_protocol p \<noteq> IPSEC_POLICY_PROTOCOL_ANY \<and> policy_protocol p \<noteq> pr) \<and>
     \<not> ra < clib_net_to_host_u32 (ip46_ip4 (addr_start (raddr p))) \<and>
     \<not> ra > clib_net_to_host_u32 (ip46_ip4 (addr_stop (raddr p))) \<and>
     \<not> la < clib_net_to_host_u32 (ip46_ip4 (addr_start (laddr p))) \<and>
     \<not> la > clib_net_to_host_u32 (ip46_ip4 (addr_stop (laddr p))) \<and>
     (\<not> has_ports pr \<or>
      \<not> lp < port_start (lport p) \<and> \<not> lp > port_stop (lport p) \<and>
      \<not> rp < port_start (rport p) \<and> \<not> rp > port_stop (rport p))"

fun out4_loop :: "ipsec_policy pool \<Rightarrow> u8 \<Rightarrow> u32 \<Rightarrow> u32 \<Rightarrow> u16 \<Rightarrow> u16 \<Rightarrow> nat list \<Rightarrow> nat option" where
  "out4_loop pl pr la ra lp rp [] = None"
| "out4_loop pl pr la ra lp rp (i # is) =
     (if out4_policy_match (pool_elt_at_index pl i) pr la ra lp rp then Some i else out4_loop pl pr la ra lp rp is)"

text \<open>The policy that is found enters the cache; \<open>None\<close> is the fast path. An SPD that is NULL has no policy.\<close>

definition ipsec_output_policy_match ::
  "(u64 \<times> u64 \<Rightarrow> u32) option \<Rightarrow> ipsec_spd option \<Rightarrow> u8 \<Rightarrow> u32 \<Rightarrow> u32 \<Rightarrow> u16 \<Rightarrow> u16 \<Rightarrow> bool \<Rightarrow> ipsec_main \<Rightarrow>
     (nat option \<times> ipsec_main) option" where
  "ipsec_output_policy_match crc spd pr la ra lp rp flow_cache_enabled im =
     (case spd of
        None \<Rightarrow> Some (None, im)
      | Some spd \<Rightarrow>
          if fp_spd_ipv4_out_is_enabled im \<and> ip4_out_lookup_hash_idx spd \<noteq> None then None
          else
            (case out4_loop (policies im) pr la ra lp rp (spd_policies spd IPSEC_SPD_POLICY_IP4_OUTBOUND) of
               None \<Rightarrow> Some (None, im)
             | Some i \<Rightarrow>
                 let (lp, rp) = (if \<not> has_ports pr then (0, 0) else (lp, rp));
                     im = (if flow_cache_enabled
                           then ipsec4_out_spd_add_flow_cache_entry crc im pr (clib_host_to_net_u32 la) (clib_host_to_net_u32 ra)
                                  (clib_host_to_net_u16 lp) (clib_host_to_net_u16 rp) (word_of_nat i)
                           else im)
                 in Some (Some i, im)))"

definition out6_policy_match :: "ipsec_policy \<Rightarrow> ip6_address \<Rightarrow> ip6_address \<Rightarrow> u16 \<Rightarrow> u16 \<Rightarrow> u8 \<Rightarrow> bool" where
  "out6_policy_match p la ra lp rp pr \<longleftrightarrow>
     \<not> (policy_protocol p \<noteq> IPSEC_POLICY_PROTOCOL_ANY \<and> policy_protocol p \<noteq> pr) \<and>
     ip6_addr_match_range ra (addr_start (raddr p)) (addr_stop (raddr p)) \<and>
     ip6_addr_match_range la (addr_start (laddr p)) (addr_stop (laddr p)) \<and>
     (\<not> has_ports pr \<or>
      \<not> lp < port_start (lport p) \<and> \<not> lp > port_stop (lport p) \<and>
      \<not> rp < port_start (rport p) \<and> \<not> rp > port_stop (rport p))"

fun out6_loop :: "ipsec_policy pool \<Rightarrow> ip6_address \<Rightarrow> ip6_address \<Rightarrow> u16 \<Rightarrow> u16 \<Rightarrow> u8 \<Rightarrow> nat list \<Rightarrow> nat option" where
  "out6_loop pl la ra lp rp pr [] = None"
| "out6_loop pl la ra lp rp pr (i # is) =
     (if out6_policy_match (pool_elt_at_index pl i) la ra lp rp pr then Some i else out6_loop pl la ra lp rp pr is)"

definition ipsec6_output_policy_match ::
  "ipsec_spd option \<Rightarrow> ip6_address \<Rightarrow> ip6_address \<Rightarrow> u16 \<Rightarrow> u16 \<Rightarrow> u8 \<Rightarrow> ipsec_main \<Rightarrow> nat option option" where
  "ipsec6_output_policy_match spd la ra lp rp pr im =
     (case spd of
        None \<Rightarrow> Some None
      | Some spd \<Rightarrow>
          if fp_spd_ipv6_out_is_enabled im \<and> ip6_out_lookup_hash_idx spd \<noteq> None then None
          else Some (out6_loop (policies im) la ra lp rp pr (spd_policies spd IPSEC_SPD_POLICY_IP6_OUTBOUND)))"

subsection \<open>Several packets at once\<close>




definition zero_ports :: "ipsec4_spd_5tuple \<Rightarrow> ipsec4_spd_5tuple" where
  "zero_ports t = (case t of (la, ra, lp, rp, pr) \<Rightarrow> if \<not> has_ports pr then (la, ra, 0, 0, pr) else t)"


subsection \<open>The node\<close>

text \<open>The fields of a packet that the node reads, in network order, and where it goes. Checksums that were left to
  the interface are computed here before a packet is protected; that is not part of the model.\<close>

datatype out_header =
  Ip4_out u8 u32 u32 u16 u16 u16
| Ip6_out u8 ip6_address ip6_address u16 u16 u16




text \<open>The policy of a packet, with the number of bytes that are counted.\<close>

definition out_lookup ::
  "(u64 \<times> u64 \<Rightarrow> u32) option \<Rightarrow> ipsec_spd option \<Rightarrow> out_header \<Rightarrow> ipsec_main \<Rightarrow> (nat option \<times> u64 \<times> ipsec_main) option" where
  "out_lookup crc spd hdr im =
     (case hdr of
        Ip6_out pr src dst sport dport len \<Rightarrow>
          map_option (\<lambda>p. (p, ucast (clib_net_to_host_u16 len) + 40, im))
            (ipsec6_output_policy_match spd src dst (clib_net_to_host_u16 sport) (clib_net_to_host_u16 dport) pr im)
      | Ip4_out pr src dst sport dport len \<Rightarrow>
          let flow_cache_enabled = output_flow_cache_flag im;
              p = (if flow_cache_enabled then ipsec4_out_spd_find_flow_cache_entry crc im pr src dst sport dport else None)
          in case p of
               Some i \<Rightarrow> Some (Some i, ucast (clib_net_to_host_u16 len), im)
             | None \<Rightarrow>
                 map_option (\<lambda>(p, im). (p, ucast (clib_net_to_host_u16 len), im))
                   (ipsec_output_policy_match crc spd pr (clib_net_to_host_u32 src) (clib_net_to_host_u32 dst)
                      (clib_net_to_host_u16 sport) (clib_net_to_host_u16 dport) flow_cache_enabled im))"







subsection \<open>What a packet should get\<close>

fun out_match :: "out_header \<Rightarrow> ipsec_policy \<Rightarrow> bool" where
  "out_match (Ip4_out pr src dst sport dport len) p =
     out4_policy_match p pr (clib_net_to_host_u32 src) (clib_net_to_host_u32 dst)
       (clib_net_to_host_u16 sport) (clib_net_to_host_u16 dport)"
| "out_match (Ip6_out pr src dst sport dport len) p =
     out6_policy_match p src dst (clib_net_to_host_u16 sport) (clib_net_to_host_u16 dport) pr"

fun out_type :: "out_header \<Rightarrow> ipsec_spd_policy_type" where
  "out_type (Ip4_out _ _ _ _ _ _) = IPSEC_SPD_POLICY_IP4_OUTBOUND"
| "out_type (Ip6_out _ _ _ _ _ _) = IPSEC_SPD_POLICY_IP6_OUTBOUND"

text \<open>The first policy that matches, in the order of priority.\<close>

definition spec_policy :: "ipsec_main \<Rightarrow> u32 \<Rightarrow> out_header \<Rightarrow> ipsec_policy option" where
  "spec_policy im sid hdr = find (out_match hdr) (policies_of im sid (out_type hdr))"


lemma find_first:
  assumes "by_priority ps" "find P ps = Some p"
  shows "p \<in> set ps \<and> P p \<and> (\<forall>q \<in> set ps. P q \<longrightarrow> priority q \<le> priority p)"
  using assms by (induction ps) (auto simp: by_priority_def split: if_splits)

lemma out4_loop_find:
  "map_option (pool_elt_at_index pl) (out4_loop pl pr la ra lp rp v) =
     find (\<lambda>p. out4_policy_match p pr la ra lp rp) (map (pool_elt_at_index pl) v)"
  by (induction v) auto

lemma out6_loop_find:
  "map_option (pool_elt_at_index pl) (out6_loop pl la ra lp rp pr v) =
     find (\<lambda>p. out6_policy_match p la ra lp rp pr) (map (pool_elt_at_index pl) v)"
  by (induction v) auto

lemma out_loop_in:
  "out4_loop pl pr la ra lp rp v = Some i \<Longrightarrow> i \<in> set v" "out6_loop pl la6 ra6 lp rp pr v = Some i \<Longrightarrow> i \<in> set v"
  by (induction v) (auto split: if_splits)

lemma policies_of_elts:
  assumes "spd_inv im" "pool_map (spds im) s = Some spd"
  shows "policies_of im (spd_id spd) t = map (pool_elt_at_index (policies im)) (spd_policies spd t)"
    and "i \<in> set (spd_policies spd t) \<Longrightarrow> pool_map (policies im) i = Some (pool_elt_at_index (policies im) i)"
proof -
  note v = spd_inv_spd(2) [OF assms, of t]
  show "policies_of im (spd_id spd) t = map (pool_elt_at_index (policies im)) (spd_policies spd t)"
    using policies_of_spd [OF spd_inv_spd(1) [OF assms] assms(2)] vector_ok_elts [OF v] by simp
  show "pool_map (policies im) i = Some (pool_elt_at_index (policies im) i)" if "i \<in> set (spd_policies spd t)"
    using v that unfolding vector_ok_def by (metis pool_map_elt)
qed

text \<open>The result of a search, as an index.\<close>

definition found :: "ipsec_main \<Rightarrow> u32 \<Rightarrow> out_header \<Rightarrow> nat option \<Rightarrow> bool" where
  "found im sid hdr r \<longleftrightarrow>
     spec_policy im sid hdr = map_option (pool_elt_at_index (policies im)) r \<and>
     (\<forall>i. r = Some i \<longrightarrow> pool_map (policies im) i = Some (pool_elt_at_index (policies im) i))"

lemma search_found:
  assumes "spd_inv im" "pool_map (spds im) s = Some spd"
  shows "found im (spd_id spd) (Ip4_out pr src dst sport dport len)
      (out4_loop (policies im) pr (clib_net_to_host_u32 src) (clib_net_to_host_u32 dst)
         (clib_net_to_host_u16 sport) (clib_net_to_host_u16 dport) (spd_policies spd IPSEC_SPD_POLICY_IP4_OUTBOUND))"
    and "found im (spd_id spd) (Ip6_out pr src6 dst6 sport dport len)
      (out6_loop (policies im) src6 dst6 (clib_net_to_host_u16 sport) (clib_net_to_host_u16 dport) pr
         (spd_policies spd IPSEC_SPD_POLICY_IP6_OUTBOUND))"
proof -
  have "out_match (Ip4_out pr src dst sport dport len) = (\<lambda>p. out4_policy_match p pr (clib_net_to_host_u32 src)
      (clib_net_to_host_u32 dst) (clib_net_to_host_u16 sport) (clib_net_to_host_u16 dport))"
    "out_match (Ip6_out pr src6 dst6 sport dport len) = (\<lambda>p. out6_policy_match p src6 dst6
      (clib_net_to_host_u16 sport) (clib_net_to_host_u16 dport) pr)"
    by (auto simp: fun_eq_iff)
  then show "found im (spd_id spd) (Ip4_out pr src dst sport dport len)
      (out4_loop (policies im) pr (clib_net_to_host_u32 src) (clib_net_to_host_u32 dst)
         (clib_net_to_host_u16 sport) (clib_net_to_host_u16 dport) (spd_policies spd IPSEC_SPD_POLICY_IP4_OUTBOUND))"
    "found im (spd_id spd) (Ip6_out pr src6 dst6 sport dport len)
      (out6_loop (policies im) src6 dst6 (clib_net_to_host_u16 sport) (clib_net_to_host_u16 dport) pr
         (spd_policies spd IPSEC_SPD_POLICY_IP6_OUTBOUND))"
    using policies_of_elts(2) [OF assms] out_loop_in
    by (simp_all add: found_def spec_policy_def policies_of_elts(1) [OF assms] out4_loop_find out6_loop_find) blast+
qed

subsection \<open>The cache of flows\<close>


definition entry_epoch :: "u64 \<Rightarrow> u32" where
  "entry_epoch v = ucast (v AND 0xFFFFFFFF)"

definition entry_policy :: "u64 \<Rightarrow> nat" where
  "entry_policy v = unat (ucast (drop_bit 32 v) :: u32)"

lemma entry_value:
  "entry_epoch (push_bit 32 (ucast (i :: u32)) OR ucast (e :: u32)) = e"
  "entry_policy (push_bit 32 (ucast (i :: u32)) OR ucast (e :: u32)) = unat i"
proof -
  have "bit (0xFFFFFFFF :: u64) n \<longleftrightarrow> n < 32" for n
    using bit_mask_iff [where 'a = "64 word", of 32 n] by (simp add: mask_eq_exp_minus_1 possible_bit_def) linarith
  then show "entry_epoch (push_bit 32 (ucast i) OR ucast e) = e"
    by (intro bit_word_eqI) (auto simp: entry_epoch_def bit_simps)
  have "ucast (drop_bit 32 (push_bit 32 (ucast i) OR ucast e) :: u64) = i"
    by (intro bit_word_eqI) (auto simp: bit_simps dest: bit_imp_le_length)
  then show "entry_policy (push_bit 32 (ucast i) OR ucast e) = unat i"
    by (simp add: entry_policy_def)
qed



lemma out_bucket_less:
  assumes "ipsec4_out_spd_hash_tbl im \<noteq> []" "length (ipsec4_out_spd_hash_tbl im) < 2 ^ 64"
  shows "out_bucket crc im t < length (ipsec4_out_spd_hash_tbl im)"
proof -
  let ?n = "length (ipsec4_out_spd_hash_tbl im)"
  have n: "0 < ?n"
    using assms(1) by simp
  have eq: "(word_of_nat ?n :: u64) - 1 = word_of_nat (?n - 1)"
    using n of_nat_diff [of 1 ?n, where 'a = "64 word"] by (metis One_nat_def Suc_leI of_nat_1)
  have "unat ((word_of_nat ?n :: u64) - 1) = ?n - 1"
    unfolding eq using assms(2) by (simp add: unat_of_nat)
  moreover have "unat (x AND y) \<le> unat y" for x y :: u64
    by (simp add: word_and_le1 word_le_nat_alt [symmetric])
  ultimately show ?thesis
    unfolding out_bucket_def using n by (metis Suc_pred' le_imp_less_Suc)
qed

lemma find_entry:
  "ipsec4_out_spd_find_flow_cache_entry crc im pr src dst sport dport =
     (let t = zero_ports (src, dst, sport, dport, pr); e = ipsec4_out_spd_hash_tbl im ! out_bucket crc im t
      in if kv_key e = t \<and> epoch_count im = entry_epoch (kv_value e) then Some (entry_policy (kv_value e)) else None)"
  by (simp add: ipsec4_out_spd_find_flow_cache_entry_def zero_ports_def entry_epoch_def entry_policy_def Let_def split: prod.split)


text \<open>Adding an entry changes the cache and nothing else.\<close>

definition no_cache :: "ipsec_main \<Rightarrow> ipsec_main" where
  "no_cache im = im\<lparr>ipsec4_out_spd_hash_tbl := [], ipsec4_out_spd_flow_cache_entries := 0\<rparr>"

lemma add_entry_frame: "no_cache (ipsec4_out_spd_add_flow_cache_entry crc im pr la ra lp rp i) = no_cache im"
  by (simp add: no_cache_def ipsec4_out_spd_add_flow_cache_entry_def Let_def)

lemma add_entry_table:
  "ipsec4_out_spd_hash_tbl (ipsec4_out_spd_add_flow_cache_entry crc im pr la ra lp rp i) =
     (ipsec4_out_spd_hash_tbl im)[out_bucket crc im (la, ra, lp, rp, pr) :=
       \<lparr>kv_key = (la, ra, lp, rp, pr), kv_value = push_bit 32 (ucast i) OR ucast (epoch_count im)\<rparr>]"
  by (simp add: ipsec4_out_spd_add_flow_cache_entry_def Let_def)

lemma no_cache_same:
  assumes "no_cache im' = no_cache im"
  shows "spds im' = spds im" "policies im' = policies im" "ipsec_sa_pool im' = ipsec_sa_pool im"
    "spd_index_by_spd_id im' = spd_index_by_spd_id im" "spd_index_by_sw_if_index im' = spd_index_by_sw_if_index im"
    "sa_index_by_sa_id im' = sa_index_by_sa_id im" "epoch_count im' = epoch_count im"
    "output_flow_cache_flag im' = output_flow_cache_flag im" "output_feature im' = output_feature im"
    "input_config im' = input_config im" "fp_spd_ipv4_out_is_enabled im' = fp_spd_ipv4_out_is_enabled im"
    "fp_spd_ipv6_out_is_enabled im' = fp_spd_ipv6_out_is_enabled im"
    "fp_spd_ipv4_in_is_enabled im' = fp_spd_ipv4_in_is_enabled im"
    "fp_spd_ipv6_in_is_enabled im' = fp_spd_ipv6_in_is_enabled im"
  using assms by (cases im; cases im'; simp add: no_cache_def)+











subsection \<open>Frames\<close>












subsection \<open>Requests between frames\<close>

text \<open>What a request leaves of the cache.\<close>

definition cache_core :: "ipsec_main \<Rightarrow> ipsec4_spd_5tuple ipsec4_hash_kv list \<times> u32 \<times> bool \<times> bool \<times> bool" where
  "cache_core im =
     (ipsec4_out_spd_hash_tbl im, epoch_count im, output_flow_cache_flag im, fp_spd_ipv4_out_is_enabled im, fp_spd_ipv6_out_is_enabled im)"

lemma cache_core_steps [simp]:
  "cache_core (in_epoch_step p im) = cache_core im" "cache_core (set_vector k t v im) = cache_core im"
  "cache_core (im\<lparr>policies := pl\<rparr>) = cache_core im" "cache_core (snd (ipsec_set_interface_spd k' sid b im)) = cache_core im"
  "cache_core (ipsec_sa_unlock sa im) = cache_core im" "cache_core (ipsec_sa_lock sa im) = cache_core im"
  by (simp_all add: cache_core_def ipsec_set_interface_spd_def ipsec_sa_lock_def Let_def split: option.split)




















subsection \<open>Properties\<close>




lemma uncached_found:
  assumes "spd_inv im" "pool_map (spds im) s = Some spd" "\<not> fp_spd_ipv4_out_is_enabled im" "\<not> fp_spd_ipv6_out_is_enabled im"
    and "\<not> output_flow_cache_flag im"
  shows "\<exists>r n. out_lookup crc (Some spd) hdr im = Some (r, n, im) \<and> found im (spd_id spd) hdr r"
proof (cases hdr)
  case (Ip4_out pr src dst sport dport len)
  let ?r = "out4_loop (policies im) pr (clib_net_to_host_u32 src) (clib_net_to_host_u32 dst)
    (clib_net_to_host_u16 sport) (clib_net_to_host_u16 dport) (spd_policies spd IPSEC_SPD_POLICY_IP4_OUTBOUND)"
  have "out_lookup crc (Some spd) hdr im = Some (?r, ucast (clib_net_to_host_u16 len), im)"
    using assms(3,5) unfolding Ip4_out by (cases ?r) (simp_all add: out_lookup_def ipsec_output_policy_match_def)
  then show ?thesis
    using search_found(1) [OF assms(1,2)] Ip4_out by blast
next
  case (Ip6_out pr src dst sport dport len)
  then show ?thesis
    using assms(4) search_found(2) [OF assms(1,2)] by (simp add: out_lookup_def ipsec6_output_policy_match_def)
qed

text \<open>C11. The search for the policy of a packet that leaves, for IPv4 and IPv6, returns the policy of the SPD that
  matches the packet and that no other matching policy exceeds in priority, or that there is none.\<close>

theorem output_match_highest_priority:
  assumes "spd_inv im" "pool_map (spds im) s = Some spd" "\<not> fp_spd_ipv4_out_is_enabled im" "\<not> fp_spd_ipv6_out_is_enabled im"
    and "\<not> output_flow_cache_flag im"
  shows "\<exists>r n. out_lookup crc (Some spd) hdr im = Some (r, n, im) \<and>
    (case r of
       None \<Rightarrow> \<forall>p \<in> set (policies_of im (spd_id spd) (out_type hdr)). \<not> out_match hdr p
     | Some i \<Rightarrow> \<exists>p \<in> set (policies_of im (spd_id spd) (out_type hdr)). pool_map (policies im) i = Some p \<and> out_match hdr p \<and>
         (\<forall>q \<in> set (policies_of im (spd_id spd) (out_type hdr)). out_match hdr q \<longrightarrow> priority q \<le> priority p))"
proof -
  obtain r n where l: "out_lookup crc (Some spd) hdr im = Some (r, n, im)" and f: "found im (spd_id spd) hdr r"
    using uncached_found [OF assms] by blast
  show ?thesis
  proof (cases r)
    case None
    then show ?thesis
      using f l by (simp add: found_def spec_policy_def find_None_iff)
  next
    case (Some i)
    define p where "p = pool_elt_at_index (policies im) i"
    have p: "find (out_match hdr) (policies_of im (spd_id spd) (out_type hdr)) = Some p" "pool_map (policies im) i = Some p"
      using f Some by (simp_all add: found_def spec_policy_def p_def)
    show ?thesis
      using find_first [OF policies_of_by_priority [OF assms(1)] p(1)] p(2) l Some by auto
  qed
qed

text \<open>The state of the witnesses: an SPD on interface 7 that discards everything but UDP.\<close>

definition udp_policy :: ipsec_policy where
  "udp_policy = (sample_policy 9 IPSEC_POLICY_ACTION_BYPASS)\<lparr>policy_protocol := IP_PROTOCOL_UDP\<rparr>"

definition output_ops :: "spd_op list" where
  "output_ops = [Spd_op 1 True, Interface_op 7 1 True, Policy_op (sample_policy 5 IPSEC_POLICY_ACTION_DISCARD) True, Policy_op udp_policy True]"

definition udp_header :: out_header where
  "udp_header = Ip4_out 17 0x0100000A 0x0200000A 0x3500 0x3500 0x1C00"

theorem output_match_highest_priority_witness:
  "\<exists>rvs im s spd i n p. spd_run ascending output_ops ipsec_main_zero = Some (rvs, im) \<and> pool_map (spds im) s = Some spd \<and> spd_id spd = 1 \<and>
     map priority (policies_of im 1 IPSEC_SPD_POLICY_IP4_OUTBOUND) = [9, 5] \<and>
     out_lookup None (Some spd) udp_header im = Some (Some i, n, im) \<and> pool_map (policies im) i = Some p \<and> priority p = 9"
proof -
  obtain rvs im where run: "spd_run ascending output_ops ipsec_main_zero = Some (rvs, im)" and inv: "spd_inv im" "spd_ready im"
    using spd_run_total [OF zero_inv ascending_walks] by blast
  have "map_option (\<lambda>(_, im). (output_flow_cache_flag im, map_option spd_id (pool_map (spds im) 0),
        map priority (policies_of im 1 IPSEC_SPD_POLICY_IP4_OUTBOUND), map (out_match udp_header) (policies_of im 1 IPSEC_SPD_POLICY_IP4_OUTBOUND)))
      (spd_run ascending output_ops ipsec_main_zero) = Some (False, Some 1, [9, 5], [True, True])"
    by code_simp
  then have e: "\<not> output_flow_cache_flag im" "map_option spd_id (pool_map (spds im) 0) = Some 1"
      "map priority (policies_of im 1 IPSEC_SPD_POLICY_IP4_OUTBOUND) = [9, 5]"
      "map (out_match udp_header) (policies_of im 1 IPSEC_SPD_POLICY_IP4_OUTBOUND) = [True, True]"
    using run by simp_all
  then obtain spd where spd: "pool_map (spds im) 0 = Some spd" "spd_id spd = 1"
    by auto
  have "\<not> fp_spd_ipv4_out_is_enabled im" "\<not> fp_spd_ipv6_out_is_enabled im"
    using inv(2) by (simp_all add: spd_ready_def)
  note m = output_match_highest_priority [OF inv(1) spd(1) this e(1), of None udp_header]
  obtain a b where ab: "policies_of im 1 IPSEC_SPD_POLICY_IP4_OUTBOUND = [a, b]" "priority a = 9" "priority b = 5" "out_match udp_header a"
    using e(3,4) by auto
  have "out_type udp_header = IPSEC_SPD_POLICY_IP4_OUTBOUND"
    by (simp add: udp_header_def)
  then obtain i n p where "out_lookup None (Some spd) udp_header im = Some (Some i, n, im)" "pool_map (policies im) i = Some p" "priority p = 9"
    using m ab by (auto simp: spd(2) split: option.splits)
  then show ?thesis
    using run spd e(3) by (intro exI conjI)
qed


definition cached_main :: ipsec_main where
  "cached_main = ipsec_main_zero\<lparr>output_flow_cache_flag := True,
     ipsec4_out_spd_hash_tbl := replicate 2 \<lparr>kv_key = (0, 0, 0, 0, 0), kv_value = 0\<rparr>\<rparr>"





text \<open>C39. The cache does not distinguish SPDs: the policy found for a packet in one SPD is then used for packets of
  the same flow on every interface, whatever policies the SPD of that interface has.\<close>

theorem flow_cache_ignores_spd:
  assumes "ipsec4_out_spd_hash_tbl im \<noteq> []" "length (ipsec4_out_spd_hash_tbl im) < 2 ^ 64" "output_flow_cache_flag im" "i < 2 ^ 32"
    and "ipsec_output_policy_match crc (Some spd) pr (clib_net_to_host_u32 src) (clib_net_to_host_u32 dst)
      (clib_net_to_host_u16 sport) (clib_net_to_host_u16 dport) True im = Some (Some i, im')"
  shows "out_lookup crc spd' (Ip4_out pr src dst sport dport len) im' = Some (Some i, ucast (clib_net_to_host_u16 len), im')"
proof -
  define lp rp where "lp = (if has_ports pr then sport else 0)" "rp = (if has_ports pr then dport else 0)"
  have ports: "zero_ports (src, dst, sport, dport, pr) = (src, dst, lp, rp, pr)"
    by (simp add: zero_ports_def lp_rp_def)
  have "clib_byte_swap_u16 0 = 0"
    by (simp add: clib_byte_swap_u16_def)
  then have im': "im' = ipsec4_out_spd_add_flow_cache_entry crc im pr src dst lp rp (word_of_nat i)"
    using assms(5) by (auto simp: ipsec_output_policy_match_def lp_rp_def byte_order_defs split: option.splits if_splits)
  let ?h = "out_bucket crc im (src, dst, lp, rp, pr)"
  have "?h < length (ipsec4_out_spd_hash_tbl im)"
    using out_bucket_less [OF assms(1,2)] .
  moreover have "out_bucket crc im' t = out_bucket crc im t" for t
    by (simp add: out_bucket_def im' add_entry_table)
  moreover have "epoch_count im' = epoch_count im" "output_flow_cache_flag im'"
    using no_cache_same(7,8) [OF add_entry_frame, of crc im pr src dst lp rp "word_of_nat i"] assms(3) by (simp_all add: im')
  ultimately have "ipsec4_out_spd_find_flow_cache_entry crc im' pr src dst sport dport = Some i"
    using assms(4) by (simp add: find_entry Let_def ports) (simp add: im' add_entry_table entry_value unat_of_nat)
  then show ?thesis
    using \<open>output_flow_cache_flag im'\<close> by (simp add: out_lookup_def)
qed

theorem flow_cache_ignores_spd_witness:
  "\<exists>im'. ipsec_output_policy_match None (Some (empty_spd\<lparr>spd_policies := \<lambda>_. [0]\<rparr>)) 17 0x0A000001 0x0A000002 53 53 True
       (cached_main\<lparr>policies := one_pool udp_policy\<rparr>) = Some (Some 0, im') \<and>
     out_lookup None (Some empty_spd) udp_header im' = Some (Some 0, 28, im')"
proof -
  let ?im = "cached_main\<lparr>policies := one_pool udp_policy\<rparr>"
  let ?spd = "empty_spd\<lparr>spd_policies := \<lambda>_. [0]\<rparr>"
  have net: "clib_net_to_host_u32 0x0100000A = 0x0A000001" "clib_net_to_host_u32 0x0200000A = 0x0A000002"
      "clib_net_to_host_u16 0x3500 = 53" "clib_net_to_host_u16 0x1C00 = 28"
    by code_simp+
  have "map_option fst (ipsec_output_policy_match None (Some ?spd) 17 0x0A000001 0x0A000002 53 53 True ?im) = Some (Some 0)"
    by code_simp
  then obtain im' where m: "ipsec_output_policy_match None (Some ?spd) 17 0x0A000001 0x0A000002 53 53 True ?im = Some (Some 0, im')"
    by auto
  have "out_lookup None (Some empty_spd) (Ip4_out 17 0x0100000A 0x0200000A 0x3500 0x3500 0x1C00) im' =
      Some (Some 0, ucast (clib_net_to_host_u16 0x1C00), im')"
    by (rule flow_cache_ignores_spd [of ?im, OF _ _ _ _ m [folded net]]) (simp_all add: cached_main_def)
  then show ?thesis
    using m net(4) by (simp add: udp_header_def)
qed




end
