(* ===== verification/Spec2Isabelle.thy ===== *)
theory Spec2Isabelle
  imports Pool Fib_Walk Replay_Props Ipsec_Output
begin

text \<open>
  A verification of the part of VPP (\<^verbatim>\<open>src/vpp-src/vpp/src\<close>) that carries the traffic of an IPsec gateway: the
  containers of vppinfra, IPv4 forwarding, and IPsec from the policies to the anti-replay window. Paths below are
  relative to that directory.

  \<^bold>\<open>How the program works.\<close> A packet that arrives is looked up in the forwarding table of its interface, a trie over
  the destination address that the control plane keeps in step with hash tables of prefixes. A packet that leaves on
  an interface with a security policy database (SPD) is matched against the policies of that SPD, which send it
  on, drop it or protect it with a security association (SA). ESP numbers the packets of an SA; the receiver's
  window rejects numbers it has seen. Headers that are changed on the way get their checksums adjusted. SPDs,
  policies, SAs and the nodes of the tries live in pools, whose free elements are tracked in bitmaps.

  \<^bold>\<open>Conventions.\<close> A vector is a list and an index a \<open>nat\<close>; the index \<open>~0\<close> is \<open>None\<close>; a pool is the record of theory
  \<open>Pool\<close>, seen through \<open>pool_map\<close>; a hash table is a map, and the order in which one is walked an argument.
  Integers that wrap are words of their width. Addresses are kept in network order as the code keeps them.
  Running out of memory, an assertion that fails and undefined behaviour are \<open>None\<close>. Spin locks and atomics are
  left out: operations are atomic steps, and interleavings are sequences of them.

  \<^bold>\<open>Theories, in the order of imports.\<close>

  \<^item> \<open>Vpp_Prelude\<close>: types, collections of lemmas, lists, words.
  \<^item> \<open>Bitmap\<close>: \<^verbatim>\<open>vppinfra/bitmap.h\<close>. A bitmap is the set of its indices: set operations, searches, regions and
    groups of bits do what they say on sets; \<open>clib_bitmap_copy\<close> does not.
  \<^item> \<open>Pool\<close>: \<^verbatim>\<open>vppinfra/pool.h\<close>. The locale \<open>pool_interface\<close> has the laws of a finite map that the rest relies on,
    and its interpretation discharges them for the model.
  \<^item> \<open>Ip4_Address\<close>, \<open>Lpm\<close>: addresses and byte order (\<^verbatim>\<open>vppinfra/byte_order.h\<close>, \<^verbatim>\<open>vnet/ip/ip4_packet.h\<close>), and
    longest-prefix match as a specification.
  \<^item> \<open>Mtrie_Tree\<close>, \<open>Mtrie\<close>, \<open>Mtrie_Refine\<close>, \<open>Mtrie_Remove\<close>, \<open>Mtrie_Table\<close>, \<open>Mtrie_Root\<close>, \<open>Fwd_Tables\<close>:
    \<^verbatim>\<open>vnet/ip/ip4_mtrie.c\<close> and \<^verbatim>\<open>ip4_mtrie.h\<close>. Tries of the 16-8-8 and 8-8-8-8 kind in a shared pool of plies
    refine trees, and trees refine longest-prefix match. After any routes were added and removed, lookups are
    longest-prefix match, both kinds agree, and no ply is lost.
  \<^item> \<open>Fib_Hash\<close>, \<open>Fib_Walk\<close>: \<^verbatim>\<open>vnet/fib/fib_table.c\<close>, \<^verbatim>\<open>ip4_fib_hash.c\<close>, \<^verbatim>\<open>ip4_fib_8.c\<close>, \<^verbatim>\<open>ip4_fib_16.c\<close>. The hash tables are a
    map with longest-prefix lookup, trie and hash tables agree on every destination, and the walks visit what
    they should.
  \<^item> \<open>Anti_Replay\<close>, \<open>Replay_Window\<close>, \<open>Replay_Laws\<close>, \<open>Esp_Replay\<close>, \<open>Replay_Refine\<close>, \<open>Replay_Props\<close>:
    \<^verbatim>\<open>vnet/ipsec/ipsec_sa.h\<close> and the checks of \<^verbatim>\<open>esp_decrypt.c\<close> and \<^verbatim>\<open>esp.h\<close>. The window in a word and the window in a
    bitmap refine the set of accepted numbers. No number is accepted twice, packets in order are all accepted,
    losses are counted exactly; frames are the exception that is proved.
  \<^item> \<open>Ip_Csum\<close>: \<^verbatim>\<open>vnet/ip/ip_packet.h\<close>, \<^verbatim>\<open>ip4_packet.h\<close>, \<^verbatim>\<open>ip4_forward.c\<close>. Incremental checksums stay valid under the
    changes that forwarding makes.
  \<^item> \<open>Esp_Headers\<close>: \<^verbatim>\<open>vnet/ipsec/esp.h\<close>, \<^verbatim>\<open>esp_encrypt.c\<close>, \<^verbatim>\<open>esp_decrypt.c\<close>. Headers in transport mode, additional data, the
    walk over IPv6 extension headers (a \<open>partial_function\<close>, proved to return), error counters.
  \<^item> \<open>Ipsec_Policy\<close>, \<open>Ipsec_Spd\<close>, \<open>Spd_Props\<close>: \<^verbatim>\<open>vnet/ipsec/ipsec_spd.c\<close>, \<^verbatim>\<open>ipsec_spd_policy.c\<close>, \<^verbatim>\<open>ipsec_spd_policy.h\<close>. The
    record \<open>ipsec_main\<close> is \<open>ipsec_main_t\<close>; operations return the code of the source and the new state. Every
    operation keeps \<open>spd_inv\<close> and implements \<open>spec_step\<close> on a map from names to lists of policies.
  \<^item> \<open>Sa_Locks\<close>: the locks of \<^verbatim>\<open>vnet/ipsec/ipsec_sa.c\<close> and \<^verbatim>\<open>vnet/fib/fib_node.c\<close>. Counts are exact and the SA of a policy is
    live, as long as owners release what they hold; one release too many is proved to break it.
  \<^item> \<open>Ipsec_Output\<close>: \<^verbatim>\<open>vnet/ipsec/ipsec_output.h\<close> and \<^verbatim>\<open>ipsec_output.c\<close>. The search finds the matching policy of the
    highest priority; with the cache of flows the node gives the same verdicts, in every state that requests and
    packets lead to (\<open>out_reach\<close>). Two SPDs sharing flows and the search for several packets are where it does not.

  \<^bold>\<open>Bounds.\<close> No fuel is used: loops are recursions on lists or have measures. Bounds in hypotheses are those of the
  data types: windows of at most \<open>2 ^ 31\<close> numbers, indices and lock counts below \<open>2 ^ 32\<close>, tables of fewer than
  \<open>2 ^ 64\<close> buckets. A property with hypotheses is followed by a witness that meets them.

  \<^bold>\<open>Not modelled.\<close> The input node and its cache of flows. The fast path SPD on bihash tables, off by default. Creation of
  SAs beyond their window, with keys, tunnels and back ends. Buffers, padding, crypto operations and hand-off in
  the ESP and AH nodes, and the ciphers. Tunnel protection and IPsec interfaces. API messages, command line and
  formatting. What FIB entries resolve to, adjacencies and load-balancing. IKEv2. The rest of VPP (layer 2, other
  tunnels, sessions and TCP, plugins) takes no part in this path, and the scripts of the repository only start
  and configure VPP.
\<close>

end
